(* ===== verification/Prelude.thy ===== *)
theory Prelude
  imports Main "HOL-Library.AList" "HOL-Library.Word"
begin

text \<open>
  Shared vocabulary of the development: Python's exceptions as values, sequencing of
  fallible steps, Python slices and indexing, dictionaries as insertion-ordered
  association lists, and the integer helpers of \<^verbatim>\<open>vllm/utils/math_utils.py\<close>.
  A raised exception ends the modelled operation, so an operation that raises returns only
  the exception; the modelled code never catches the exceptions it raises.
\<close>

section \<open>Exceptions as values\<close>

datatype py_error =
    AssertionError | ValueError | RuntimeError | IndexError | KeyError
  | OverflowError | TypeError | StopIteration | NotImplementedError

type_synonym 'a result = "py_error + 'a"

definition ebind :: "'a result \<Rightarrow> ('a \<Rightarrow> 'b result) \<Rightarrow> 'b result" where
  "ebind m f = (case m of Inl e \<Rightarrow> Inl e | Inr x \<Rightarrow> f x)"

definition eassert :: "bool \<Rightarrow> 'a result \<Rightarrow> 'a result" where
  "eassert b k = (if b then k else Inl AssertionError)"

fun efold :: "('x \<Rightarrow> 's \<Rightarrow> 's result) \<Rightarrow> 'x list \<Rightarrow> 's \<Rightarrow> 's result" where
  "efold f [] s = Inr s"
| "efold f (x # xs) s = ebind (f x s) (efold f xs)"

fun emap :: "('x \<Rightarrow> 'y result) \<Rightarrow> 'x list \<Rightarrow> 'y list result" where
  "emap f [] = Inr []"
| "emap f (x # xs) = ebind (f x) (\<lambda>y. ebind (emap f xs) (\<lambda>ys. Inr (y # ys)))"

lemma ebind_simps [simp]:
  "ebind (Inl e) f = Inl e"
  "ebind (Inr x) f = f x"
  by (simp_all add: ebind_def)

lemma ebind_eq_Inr [simp]: "ebind m f = Inr y \<longleftrightarrow> (\<exists>x. m = Inr x \<and> f x = Inr y)"
  by (cases m) auto

lemma Inr_eq_ebind [simp]: "Inr y = ebind m f \<longleftrightarrow> (\<exists>x. m = Inr x \<and> f x = Inr y)"
  by (cases m) auto

lemma ebindI: "m = Inr x \<Longrightarrow> f x = r \<Longrightarrow> ebind m f = r"
  by simp

lemma eassert_simps [simp]:
  "eassert True k = k"
  "eassert False k = Inl AssertionError"
  by (simp_all add: eassert_def)

lemma eassert_eq_Inr [simp]: "eassert b k = Inr y \<longleftrightarrow> b \<and> k = Inr y"
  by (simp add: eassert_def)

lemma efold_append: "efold f (xs @ ys) s = ebind (efold f xs s) (efold f ys)"
proof (induction xs arbitrary: s)
  case (Cons x xs)
  then show ?case by (cases "f x s") simp_all
qed simp

lemma emap_ok: "(\<And>x. x \<in> set xs \<Longrightarrow> f x = Inr (g x)) \<Longrightarrow> emap f xs = Inr (map g xs)"
  by (induction xs) auto

lemma emap_eq_Inr:
  "emap f xs = Inr ys \<longleftrightarrow> length ys = length xs \<and> (\<forall>i < length xs. f (xs ! i) = Inr (ys ! i))"
proof (induction xs arbitrary: ys)
  case (Cons x xs)
  show ?case
  proof (cases ys)
    case (Cons y ys')
    with Cons.IH show ?thesis by (auto simp: less_Suc_eq_0_disj)
  qed auto
qed auto

text \<open>The loop rule: an invariant indexed by the part of the list already processed.\<close>

lemma efold_invariant:
  assumes "P [] s"
    and "\<And>ys x zs s. xs = ys @ x # zs \<Longrightarrow> P ys s \<Longrightarrow> \<exists>s'. f x s = Inr s' \<and> P (ys @ [x]) s'"
  shows "\<exists>s'. efold f xs s = Inr s' \<and> P xs s'"
proof -
  have "\<exists>s'. efold f zs s0 = Inr s' \<and> P xs s'" if "xs = ys @ zs" "P ys s0" for ys zs s0
    using that
  proof (induction zs arbitrary: ys s0)
    case (Cons x zs)
    from assms(2) [OF Cons.prems] obtain s1 where "f x s0 = Inr s1" "P (ys @ [x]) s1"
      by blast
    moreover from Cons.prems have "xs = (ys @ [x]) @ zs" by simp
    ultimately show ?case using Cons.IH by simp
  qed simp
  from this [of "[]" xs s] assms(1) show ?thesis by simp
qed

lemma efold_preserves:
  assumes "P s" "efold f xs s = Inr s'"
    and "\<And>x s s'. x \<in> set xs \<Longrightarrow> P s \<Longrightarrow> f x s = Inr s' \<Longrightarrow> P s'"
  shows "P s'"
  using assms
proof (induction xs arbitrary: s)
  case (Cons x xs)
  then obtain s1 where "f x s = Inr s1" "efold f xs s1 = Inr s'" by auto
  with Cons show ?case by (metis list.set_intros)
qed simp

section \<open>Python sequences\<close>

text \<open>
  \<open>py_index xs i\<close> is \<^verbatim>\<open>xs[i]\<close> (negative indices count from the end, out of range raises
  \<^verbatim>\<open>IndexError\<close>); \<open>py_slice xs i j\<close> is \<^verbatim>\<open>xs[i:j]\<close>, whose bounds are clamped.
\<close>

definition py_index :: "'a list \<Rightarrow> int \<Rightarrow> 'a result" where
  "py_index xs i =
     (let j = (if i < 0 then int (length xs) + i else i)
      in if 0 \<le> j \<and> j < int (length xs) then Inr (xs ! nat j) else Inl IndexError)"

definition slice_bound :: "nat \<Rightarrow> int \<Rightarrow> nat" where
  "slice_bound n i = (if i < 0 then nat (int n + i) else min (nat i) n)"

definition py_slice :: "'a list \<Rightarrow> int \<Rightarrow> int \<Rightarrow> 'a list" where
  "py_slice xs i j =
     (let a = slice_bound (length xs) i; b = slice_bound (length xs) j
      in take (b - a) (drop a xs))"

definition py_slice_from :: "'a list \<Rightarrow> int \<Rightarrow> 'a list" where
  "py_slice_from xs i = drop (slice_bound (length xs) i) xs"

definition py_slice_to :: "'a list \<Rightarrow> int \<Rightarrow> 'a list" where
  "py_slice_to xs j = take (slice_bound (length xs) j) xs"

lemma py_index_nat [simp]: "i < length xs \<Longrightarrow> py_index xs (int i) = Inr (xs ! i)"
  by (simp add: py_index_def)

lemma py_index_eq_Inr:
  "0 \<le> i \<Longrightarrow> py_index xs i = Inr x \<longleftrightarrow> i < int (length xs) \<and> x = xs ! nat i"
  by (auto simp: py_index_def)

lemma py_slice_nat:
  "0 \<le> i \<Longrightarrow> 0 \<le> j \<Longrightarrow> py_slice xs i j = take (nat j - nat i) (drop (nat i) xs)"
  by (auto simp: py_slice_def slice_bound_def min_def Let_def)

lemma py_slice_from_nat [simp]: "0 \<le> i \<Longrightarrow> py_slice_from xs i = drop (nat i) xs"
  by (simp add: py_slice_from_def slice_bound_def min_def)

lemma py_slice_to_nat [simp]: "0 \<le> i \<Longrightarrow> py_slice_to xs i = take (nat i) xs"
  by (simp add: py_slice_to_def slice_bound_def min_def)

lemma length_py_slice_to: "0 \<le> i \<Longrightarrow> length (py_slice_to xs i) = min (length xs) (nat i)"
  by simp

text \<open>Byte strings.\<close>

type_synonym bytes = "8 word list"

section \<open>Dictionaries\<close>

text \<open>
  A Python dictionary keeps its insertion order: overwriting a key keeps its place, a new
  key goes to the end. \<^verbatim>\<open>AList.update\<close> and \<^verbatim>\<open>AList.delete\<close> do exactly this. An
  \<^verbatim>\<open>OrderedDict\<close> adds \<^verbatim>\<open>move_to_end\<close> and \<^verbatim>\<open>popitem(last=False)\<close>.
\<close>

type_synonym ('k, 'v) dict = "('k \<times> 'v) list"

abbreviation dget :: "('k, 'v) dict \<Rightarrow> 'k \<Rightarrow> 'v option" where
  "dget \<equiv> map_of"

abbreviation dset :: "'k \<Rightarrow> 'v \<Rightarrow> ('k, 'v) dict \<Rightarrow> ('k, 'v) dict" where
  "dset \<equiv> AList.update"

abbreviation ddel :: "'k \<Rightarrow> ('k, 'v) dict \<Rightarrow> ('k, 'v) dict" where
  "ddel \<equiv> AList.delete"

abbreviation dkeys :: "('k, 'v) dict \<Rightarrow> 'k list" where
  "dkeys d \<equiv> map fst d"

definition dget_default :: "('k, 'v) dict \<Rightarrow> 'k \<Rightarrow> 'v \<Rightarrow> 'v" where
  "dget_default d k v = (case dget d k of None \<Rightarrow> v | Some w \<Rightarrow> w)"

definition move_to_end :: "'k \<Rightarrow> ('k, 'v) dict \<Rightarrow> ('k, 'v) dict" where
  "move_to_end k d = (case dget d k of None \<Rightarrow> d | Some v \<Rightarrow> ddel k d @ [(k, v)])"

text \<open>A set as a list without duplicates, in insertion order: \<^verbatim>\<open>s.add(x)\<close>.\<close>

definition set_add :: "'a \<Rightarrow> 'a list \<Rightarrow> 'a list" where
  "set_add x xs = (if x \<in> set xs then xs else xs @ [x])"

lemma set_set_add [simp]: "set (set_add x xs) = insert x (set xs)"
  by (auto simp: set_add_def)

lemma distinct_set_add [simp]: "distinct xs \<Longrightarrow> distinct (set_add x xs)"
  by (simp add: set_add_def)

lemmas dict_simps [simp] = AList.update_conv' AList.delete_conv'

lemma distinct_dset [simp]: "distinct (dkeys d) \<Longrightarrow> distinct (dkeys (dset k v d))"
  by (rule AList.distinct_update)

lemma distinct_ddel [simp]: "distinct (dkeys d) \<Longrightarrow> distinct (dkeys (ddel k d))"
  by (simp add: AList.delete_keys distinct_removeAll)

lemma set_dset: "x \<in> set (dset k v d) \<Longrightarrow> x = (k, v) \<or> x \<in> set d"
  by (induction d) (auto split: if_splits)

lemma set_ddel: "set (ddel k d) = {p \<in> set d. fst p \<noteq> k}"
  by (induction d) auto

lemma dget_default_simps [simp]:
  "dget d k = None \<Longrightarrow> dget_default d k v = v"
  "dget d k = Some w \<Longrightarrow> dget_default d k v = w"
  by (simp_all add: dget_default_def)

lemma dget_default_dset [simp]:
  "dget_default (dset k w d) k' v = (if k' = k then w else dget_default d k' v)"
  by (simp add: dget_default_def)

lemma dget_default_ddel [simp]:
  "dget_default (ddel k d) k' v = (if k' = k then v else dget_default d k' v)"
  by (simp add: dget_default_def)

lemma dget_None_iff: "dget d k = None \<longleftrightarrow> k \<notin> set (dkeys d)"
  by (simp add: map_of_eq_None_iff)

lemma dget_Some_key: "dget d k = Some v \<Longrightarrow> k \<in> set (dkeys d)"
  by (metis dget_None_iff option.distinct(1))

lemma dget_move_to_end [simp]: "dget (move_to_end k d) = dget d"
  by (auto simp: move_to_end_def map_add_def fun_eq_iff split: option.splits)

section \<open>Integer helpers\<close>

text \<open>\<^verbatim>\<open>cdiv(a, b) = -(a // -b)\<close>; Python's \<^verbatim>\<open>//\<close> and \<^verbatim>\<open>%\<close> round as \<open>div\<close> and \<open>mod\<close>.\<close>

definition cdiv :: "int \<Rightarrow> int \<Rightarrow> int" where
  "cdiv a b = - (a div (- b))"

lemma le_div_iff_mult_le: "0 < b \<Longrightarrow> k \<le> a div b \<longleftrightarrow> k * b \<le> (a :: int)"
proof
  assume b: "0 < b" and "k \<le> a div b"
  then have "k * b \<le> a div b * b" by (simp add: mult_right_mono)
  also have "\<dots> \<le> a" using b by (simp add: minus_mod_eq_div_mult [symmetric])
  finally show "k * b \<le> a" .
next
  assume b: "0 < b" and "k * b \<le> a"
  then have "(k * b) div b \<le> a div b" by (intro zdiv_mono1) auto
  with b show "k \<le> a div b" by simp
qed

lemma cdiv_le_iff: "0 < b \<Longrightarrow> cdiv a b \<le> k \<longleftrightarrow> a \<le> k * b"
proof
  assume b: "0 < b" and "cdiv a b \<le> k"
  then have "- k \<le> (- a) div b" by (simp add: cdiv_def div_minus_right)
  then have "- k * b \<le> (- a) div b * b" using b by (intro mult_right_mono) auto
  also have "\<dots> \<le> - a" using b by (simp add: minus_mod_eq_div_mult [symmetric])
  finally show "a \<le> k * b" by simp
next
  assume b: "0 < b" and "a \<le> k * b"
  then have "(- k * b) div b \<le> (- a) div b" by (intro zdiv_mono1) auto
  moreover have "(- k * b) div b = - k" using b by (intro nonzero_mult_div_cancel_right) simp
  ultimately show "cdiv a b \<le> k" by (simp add: cdiv_def div_minus_right)
qed

lemma cdiv_ge: "0 < b \<Longrightarrow> a \<le> cdiv a b * b"
  using cdiv_le_iff [of b a "cdiv a b"] by simp

lemma less_cdiv_iff: "0 < b \<Longrightarrow> k < cdiv a b \<longleftrightarrow> k * b < a"
  using cdiv_le_iff [of b a k] by linarith

lemma cdiv_nonneg: "0 < b \<Longrightarrow> 0 \<le> a \<Longrightarrow> 0 \<le> cdiv a b"
  using less_cdiv_iff [of b "-1" a] by auto

lemma cdiv_mono: "0 < b \<Longrightarrow> a \<le> a' \<Longrightarrow> cdiv a b \<le> cdiv a' b"
  using cdiv_le_iff [of b a "cdiv a' b"] cdiv_ge [of b a'] by linarith

lemma cdiv_mult [simp]: "0 < b \<Longrightarrow> cdiv (k * b) b = k"
  using cdiv_le_iff [of b "k * b" k] less_cdiv_iff [of b "k - 1" "k * b"] by (simp add: algebra_simps)

lemma div_le_cdiv: "0 < b \<Longrightarrow> a div b \<le> cdiv a b"
proof -
  assume b: "0 < b"
  have "a div b * b = a - a mod b" by (simp add: minus_mod_eq_div_mult)
  moreover have "0 \<le> a mod b" using b by (rule pos_mod_sign)
  ultimately have "a div b * b \<le> cdiv a b * b" using cdiv_ge [OF b, of a] by linarith
  with b show ?thesis by (simp add: mult_le_cancel_right)
qed

end
