(* ===== verification/Block_Queue.thy ===== *)
theory Block_Queue
  imports Prelude
begin

text \<open>
  The free-block queue of \<^verbatim>\<open>vllm/v1/core/kv_cache_utils.py\<close>: \<^verbatim>\<open>KVCacheBlock\<close> objects and the
  doubly linked list \<^verbatim>\<open>FreeKVCacheBlockQueue\<close> threads through them. Objects live in a store
  addressed by references, so that the pointer updates and their aliasing are those of the
  code. The contract of the queue is the locale \<open>free_block_queue\<close>: every operation acts on
  a plain list of references, and touches nothing but the two link fields.
\<close>

section \<open>Blocks and the store\<close>

text \<open>
  A reference to a \<^verbatim>\<open>KVCacheBlock\<close>: one of the pool's blocks or one of the two sentinels of
  the queue. \<^verbatim>\<open>block_id\<close> is set by the constructor and never written again, so it is a
  function of the reference.
\<close>

datatype bref = Blk nat | FakeHead | FakeTail

fun block_id :: "bref \<Rightarrow> int" where
  "block_id (Blk i) = int i"
| "block_id FakeHead = -1"
| "block_id FakeTail = -1"

record kv_cache_block =
  ref_cnt :: int
  block_hash :: "bytes option"
  block_hash_num_tokens :: "int option"
  prev_free_block :: "bref option"
  next_free_block :: "bref option"
  is_null :: bool

definition new_block :: kv_cache_block where
  "new_block = \<lparr>ref_cnt = 0, block_hash = None, block_hash_num_tokens = None,
     prev_free_block = None, next_free_block = None, is_null = False\<rparr>"

definition set_block_hash :: "bytes \<Rightarrow> int option \<Rightarrow> kv_cache_block \<Rightarrow> kv_cache_block result" where
  "set_block_hash bh num_tokens b =
     eassert (block_hash b = None \<and> block_hash_num_tokens b = None)
       (Inr (b\<lparr>block_hash := Some bh, block_hash_num_tokens := num_tokens\<rparr>))"

definition reset_hash :: "kv_cache_block \<Rightarrow> kv_cache_block" where
  "reset_hash b = b\<lparr>block_hash := None, block_hash_num_tokens := None\<rparr>"

text \<open>
  The store of blocks and the queue's counter. The block pool extends this record, so the
  queue's operations act on the pool's own blocks.
\<close>

record block_store =
  heap :: "bref \<Rightarrow> kv_cache_block"
  num_free_blocks :: int

definition upd_block ::
    "bref \<Rightarrow> (kv_cache_block \<Rightarrow> kv_cache_block) \<Rightarrow> 'a block_store_scheme \<Rightarrow> 'a block_store_scheme" where
  "upd_block r f s = s\<lparr>heap := (heap s)(r := f (heap s r))\<rparr>"


section \<open>The linked list\<close>

definition set_prev :: "bref \<Rightarrow> bref option \<Rightarrow> 'a block_store_scheme \<Rightarrow> 'a block_store_scheme" where
  "set_prev r p = upd_block r (\<lambda>b. b\<lparr>prev_free_block := p\<rparr>)"

definition set_next :: "bref \<Rightarrow> bref option \<Rightarrow> 'a block_store_scheme \<Rightarrow> 'a block_store_scheme" where
  "set_next r n = upd_block r (\<lambda>b. b\<lparr>next_free_block := n\<rparr>)"

text \<open>
  \<^verbatim>\<open>__init__\<close> links consecutive blocks, then the sentinels. The list of blocks is the
  argument; the store holds them unlinked.
\<close>

definition queue_init_step :: "bref list \<Rightarrow> nat \<Rightarrow> 'a block_store_scheme \<Rightarrow> 'a block_store_scheme" where
  "queue_init_step bs i s =
     (let s1 = (if i > 0 then set_prev (bs ! i) (Some (bs ! (i - 1))) s else s)
      in if i < length bs - 1 then set_next (bs ! i) (Some (bs ! (i + 1))) s1 else s1)"

definition queue_init :: "bref list \<Rightarrow> 'a block_store_scheme \<Rightarrow> 'a block_store_scheme" where
  "queue_init bs s0 =
     (let s1 = fold (queue_init_step bs) [0..<length bs] (s0\<lparr>num_free_blocks := int (length bs)\<rparr>);
          s2 = upd_block FakeTail (\<lambda>_. new_block) (upd_block FakeHead (\<lambda>_. new_block) s1)
      in if length bs > 0 then
           set_next (last bs) (Some FakeTail) (set_prev FakeTail (Some (last bs))
             (set_prev (hd bs) (Some FakeHead) (set_next FakeHead (Some (hd bs)) s2)))
         else set_prev FakeTail (Some FakeHead) (set_next FakeHead (Some FakeTail) s2))"

definition popleft :: "'a block_store_scheme \<Rightarrow> (bref \<times> 'a block_store_scheme) result" where
  "popleft s =
     (let no_block = (if num_free_blocks s = 0 then Inl ValueError else Inl AssertionError)
      in case next_free_block (heap s FakeHead) of
        None \<Rightarrow> no_block
      | Some first_block \<Rightarrow>
          if first_block = FakeTail then no_block
          else case next_free_block (heap s first_block) of
            None \<Rightarrow> Inl RuntimeError
          | Some second \<Rightarrow>
              (let s1 = set_next FakeHead (Some second) s;
                   s2 = set_prev second (Some FakeHead) s1;
                   s3 = set_next first_block None (set_prev first_block None s2)
               in Inr (first_block, s3\<lparr>num_free_blocks := num_free_blocks s - 1\<rparr>)))"

fun popleft_loop ::
    "nat \<Rightarrow> bref option \<Rightarrow> bref list \<Rightarrow> 'a block_store_scheme \<Rightarrow> (bref list \<times> bref option \<times> 'a block_store_scheme) result" where
  "popleft_loop 0 cur ret s = Inr (ret, cur, s)"
| "popleft_loop (Suc k) None ret s = Inl AssertionError"
| "popleft_loop (Suc k) (Some b) ret s =
     popleft_loop k (next_free_block (heap s b)) (ret @ [b]) (set_next b None (set_prev b None s))"

definition popleft_n :: "int \<Rightarrow> 'a block_store_scheme \<Rightarrow> (bref list \<times> 'a block_store_scheme) result" where
  "popleft_n n s =
     (if n = 0 then Inr ([], s)
      else eassert (num_free_blocks s \<ge> n)
        (let s1 = s\<lparr>num_free_blocks := num_free_blocks s - n\<rparr>
         in ebind (popleft_loop (nat n) (next_free_block (heap s1 FakeHead)) [] s1)
              (\<lambda>(ret, cur, s2). case cur of
                 None \<Rightarrow> Inr (ret, s2)
               | Some c \<Rightarrow> Inr (ret, set_prev c (Some FakeHead) (set_next FakeHead (Some c) s2)))))"

definition remove :: "bref \<Rightarrow> 'a block_store_scheme \<Rightarrow> 'a block_store_scheme result" where
  "remove b s =
     (case (prev_free_block (heap s b), next_free_block (heap s b)) of
        (Some p, Some n) \<Rightarrow>
          (let s1 = set_next p (Some n) s;
               s2 = set_prev n (Some p) s1;
               s3 = set_next b None (set_prev b None s2)
           in Inr (s3\<lparr>num_free_blocks := num_free_blocks s - 1\<rparr>))
      | _ \<Rightarrow> Inl RuntimeError)"

definition append_block :: "bref \<Rightarrow> 'a block_store_scheme \<Rightarrow> 'a block_store_scheme result" where
  "append_block b s =
     (case prev_free_block (heap s FakeTail) of
        None \<Rightarrow> Inl RuntimeError
      | Some last_block \<Rightarrow>
          (let s1 = set_prev b (Some last_block) (set_next last_block (Some b) s);
               s2 = set_prev FakeTail (Some b) (set_next b (Some FakeTail) s1)
           in Inr (s2\<lparr>num_free_blocks := num_free_blocks s + 1\<rparr>)))"

text \<open>The loop both \<^verbatim>\<open>prepend_n\<close> and \<^verbatim>\<open>append_n\<close> run; it returns the last block linked.\<close>

fun link_after :: "bref \<Rightarrow> bref list \<Rightarrow> 'a block_store_scheme \<Rightarrow> bref \<times> 'a block_store_scheme" where
  "link_after p [] s = (p, s)"
| "link_after p (b # bs) s = link_after b bs (set_next p (Some b) (set_prev b (Some p) s))"

definition prepend_n :: "bref list \<Rightarrow> 'a block_store_scheme \<Rightarrow> 'a block_store_scheme result" where
  "prepend_n bs s =
     (if bs = [] then Inr s
      else case next_free_block (heap s FakeHead) of
        None \<Rightarrow> Inl AssertionError
      | Some first_block \<Rightarrow>
          (case link_after FakeHead bs s of (l, s1) \<Rightarrow>
             (let s2 = set_prev first_block (Some l) (set_next l (Some first_block) s1)
              in Inr (s2\<lparr>num_free_blocks := num_free_blocks s + int (length bs)\<rparr>))))"

definition append_n :: "bref list \<Rightarrow> 'a block_store_scheme \<Rightarrow> 'a block_store_scheme result" where
  "append_n bs s =
     (if bs = [] then Inr s
      else case prev_free_block (heap s FakeTail) of
        None \<Rightarrow> Inl AssertionError
      | Some last_block \<Rightarrow>
          (case link_after last_block bs s of (l, s1) \<Rightarrow>
             (let s2 = set_prev FakeTail (Some l) (set_next l (Some FakeTail) s1)
              in Inr (s2\<lparr>num_free_blocks := num_free_blocks s + int (length bs)\<rparr>))))"

text \<open>
  The two iterations follow the links until one ends; a cyclic list would never end, which is
  the value \<open>None\<close>.
\<close>

partial_function (option) walk_free :: "(bref \<Rightarrow> kv_cache_block) \<Rightarrow> bref \<Rightarrow> bref list option" where
  "walk_free h b =
     (case next_free_block (h b) of
        None \<Rightarrow> Some []
      | Some n \<Rightarrow> Option.bind (walk_free h n) (\<lambda>bs. Some (b # bs)))"

definition get_all_free_blocks :: "'a block_store_scheme \<Rightarrow> bref list result option" where
  "get_all_free_blocks s =
     (case next_free_block (heap s FakeHead) of
        None \<Rightarrow> Some (Inl RuntimeError)
      | Some b \<Rightarrow> map_option Inr (walk_free (heap s) b))"

partial_function (option) walk_after :: "(bref \<Rightarrow> kv_cache_block) \<Rightarrow> bref option \<Rightarrow> bref list option" where
  "walk_after h cur =
     (case cur of
        None \<Rightarrow> Some []
      | Some b \<Rightarrow> if b = FakeTail then Some []
          else Option.bind (walk_after h (next_free_block (h b))) (\<lambda>bs. Some (b # bs)))"

definition iter_blocks_after :: "bref option \<Rightarrow> 'a block_store_scheme \<Rightarrow> bref list option" where
  "iter_blocks_after cursor s =
     walk_after (heap s)
       (case cursor of None \<Rightarrow> next_free_block (heap s FakeHead) | Some c \<Rightarrow> next_free_block (heap s c))"


section \<open>The abstraction: a list of references\<close>

named_theorems store_simps \<open>reading a field of the store after an update\<close>

lemma heap_upd_block [store_simps]:
  "heap (upd_block r f s) q = (if q = r then f (heap s r) else heap s q)"
  "num_free_blocks (upd_block r f s) = num_free_blocks s"
  by (simp_all add: upd_block_def)

lemma set_link_fields [store_simps]:
  "next_free_block (heap (set_next r n s) q) = (if q = r then n else next_free_block (heap s q))"
  "next_free_block (heap (set_prev r p s) q) = next_free_block (heap s q)"
  "prev_free_block (heap (set_prev r p s) q) = (if q = r then p else prev_free_block (heap s q))"
  "prev_free_block (heap (set_next r n s) q) = prev_free_block (heap s q)"
  "num_free_blocks (set_next r n s) = num_free_blocks s"
  "num_free_blocks (set_prev r p s) = num_free_blocks s"
  by (simp_all add: set_next_def set_prev_def store_simps)

text \<open>Everything of a state but the links and the counter: what the queue may not change.\<close>

definition meta :: "'a block_store_scheme \<Rightarrow> 'a block_store_scheme" where
  "meta s = s\<lparr>num_free_blocks := 0,
     heap := (\<lambda>r. (heap s r)\<lparr>prev_free_block := None, next_free_block := None\<rparr>)\<rparr>"

lemma meta_updates [simp]:
  "meta (set_next r n s) = meta s"
  "meta (set_prev r p s) = meta s"
  "meta (s\<lparr>num_free_blocks := k\<rparr>) = meta s"
  by (auto simp: meta_def set_next_def set_prev_def upd_block_def fun_eq_iff intro!: block_store.fold_congs)

lemma meta_fields:
  assumes "meta s' = meta s"
  shows "ref_cnt (heap s' r) = ref_cnt (heap s r)"
    and "block_hash (heap s' r) = block_hash (heap s r)"
    and "block_hash_num_tokens (heap s' r) = block_hash_num_tokens (heap s r)"
    and "is_null (heap s' r) = is_null (heap s r)"
    and "block_store.more s' = block_store.more s"
proof -
  have eq: "(heap s' r)\<lparr>prev_free_block := None, next_free_block := None\<rparr> =
      (heap s r)\<lparr>prev_free_block := None, next_free_block := None\<rparr>"
    using arg_cong [OF assms, of "\<lambda>s. heap s r"] by (simp add: meta_def)
  from arg_cong [OF eq, of ref_cnt] show "ref_cnt (heap s' r) = ref_cnt (heap s r)" by simp
  from arg_cong [OF eq, of block_hash] show "block_hash (heap s' r) = block_hash (heap s r)" by simp
  from arg_cong [OF eq, of block_hash_num_tokens]
  show "block_hash_num_tokens (heap s' r) = block_hash_num_tokens (heap s r)" by simp
  from arg_cong [OF eq, of is_null] show "is_null (heap s' r) = is_null (heap s r)" by simp
  from arg_cong [OF assms, of block_store.more] show "block_store.more s' = block_store.more s"
    by (simp add: meta_def)
qed

fun hseg :: "(bref \<Rightarrow> kv_cache_block) \<Rightarrow> bref \<Rightarrow> bref list \<Rightarrow> bool" where
  "hseg h p [] = True"
| "hseg h p (x # xs) =
     (next_free_block (h p) = Some x \<and> prev_free_block (h x) = Some p \<and> hseg h x xs)"

lemma hseg_append: "hseg h p (xs @ ys) \<longleftrightarrow> hseg h p xs \<and> hseg h (last (p # xs)) ys"
  by (induction xs arbitrary: p) auto

lemma hseg_cong:
  assumes "\<And>q. q \<in> set (butlast (p # xs)) \<Longrightarrow> next_free_block (h' q) = next_free_block (h q)"
    and "\<And>q. q \<in> set xs \<Longrightarrow> prev_free_block (h' q) = prev_free_block (h q)"
  shows "hseg h' p xs = hseg h p xs"
  using assms
proof (induction xs arbitrary: p)
  case (Cons x xs)
  then have "hseg h' x xs = hseg h x xs" by (intro Cons.IH) auto
  with Cons.prems(1) [of p] Cons.prems(2) [of x] show ?case by simp
qed simp

definition queue_rep :: "'a block_store_scheme \<Rightarrow> bref list \<Rightarrow> bool" where
  "queue_rep s xs \<longleftrightarrow>
     hseg (heap s) FakeHead (xs @ [FakeTail]) \<and> distinct xs \<and> set xs \<subseteq> range Blk \<and>
     num_free_blocks s = int (length xs) \<and> next_free_block (heap s FakeTail) = None \<and>
     (\<forall>i. Blk i \<notin> set xs \<longrightarrow>
        prev_free_block (heap s (Blk i)) = None \<and> next_free_block (heap s (Blk i)) = None)"

lemma queue_rep_notin [simp, dest]:
  assumes "queue_rep s xs"
  shows "distinct xs" "FakeHead \<notin> set xs" "FakeTail \<notin> set xs"
  using assms by (auto simp: queue_rep_def)

lemma queue_rep_real: "queue_rep s xs \<Longrightarrow> x \<in> set xs \<Longrightarrow> x \<in> range Blk"
  by (auto simp: queue_rep_def)

lemma queue_rep_length: "queue_rep s xs \<Longrightarrow> num_free_blocks s = int (length xs)"
  by (simp add: queue_rep_def)

lemma queue_rep_cong:
  assumes "\<And>r. prev_free_block (heap s' r) = prev_free_block (heap s r)"
    and "\<And>r. next_free_block (heap s' r) = next_free_block (heap s r)"
    and "num_free_blocks s' = num_free_blocks s"
  shows "queue_rep s' = queue_rep s"
proof -
  have "hseg (heap s') p xs = hseg (heap s) p xs" for p xs
    by (rule hseg_cong) (simp_all add: assms)
  then show ?thesis by (simp add: queue_rep_def assms fun_eq_iff)
qed

lemma hseg_unique:
  assumes "hseg h p (xs @ [q])" "hseg h p (ys @ [q])" "next_free_block (h q) = None"
  shows "xs = ys"
  using assms
proof (induction xs arbitrary: p ys)
  case Nil
  then show ?case by (cases ys; cases "tl ys") auto
next
  case (Cons x xs)
  then show ?case by (cases ys; cases xs) auto
qed

lemma queue_rep_unique: "queue_rep s xs \<Longrightarrow> queue_rep s ys \<Longrightarrow> xs = ys"
  unfolding queue_rep_def by (blast intro: hseg_unique)


section \<open>Each operation on the abstraction\<close>

text \<open>
  Cutting a run of nodes out of the list: the node before the run is linked to the node
  after it.
\<close>

lemma last_notin_butlast: "distinct xs \<Longrightarrow> xs \<noteq> [] \<Longrightarrow> last xs \<notin> set (butlast xs)"
  by (induction xs) auto

lemma hseg_splice:
  assumes old: "hseg h p (as @ bs @ n # cs)" and dist: "distinct (p # as @ bs @ n # cs)"
    and nxt: "next_free_block (h' (last (p # as))) = Some n" and prv: "prev_free_block (h' n) = Some (last (p # as))"
    and nexts: "\<And>q. q \<noteq> last (p # as) \<Longrightarrow> q \<notin> set bs \<Longrightarrow> next_free_block (h' q) = next_free_block (h q)"
    and prevs: "\<And>q. q \<noteq> n \<Longrightarrow> q \<notin> set bs \<Longrightarrow> prev_free_block (h' q) = prev_free_block (h q)"
  shows "hseg h' p (as @ n # cs)"
proof -
  have last_in: "last (p # as) \<in> set (p # as)" by (rule last_in_set) simp
  have "last (p # as) \<notin> set (butlast (p # as))"
    using dist by (intro last_notin_butlast) auto
  then have "hseg h' p as = hseg h p as"
    using dist by (intro hseg_cong nexts prevs) (auto dest: in_set_butlastD split: if_splits)
  moreover have "last (p # as) \<notin> set (n # cs)"
    using dist last_in by fastforce
  then have "hseg h' n cs = hseg h n cs"
    using dist by (intro hseg_cong nexts prevs) (auto dest!: in_set_butlastD split: if_splits)
  ultimately show ?thesis
    using old nxt prv by (simp add: hseg_append)
qed

lemma popleft_ok:
  assumes rep: "queue_rep s (x # xs)"
  shows "\<exists>s'. popleft s = Inr (x, s') \<and> queue_rep s' xs \<and> meta s' = meta s"
proof -
  obtain n cs where ncs: "xs @ [FakeTail] = n # cs" by (cases xs) auto
  define s' where "s' = (set_next x None (set_prev x None (set_prev n (Some FakeHead)
      (set_next FakeHead (Some n) s))))\<lparr>num_free_blocks := num_free_blocks s - 1\<rparr>"
  from rep have dist: "distinct (FakeHead # [x] @ n # cs)" "x \<noteq> FakeTail" "x \<noteq> FakeHead"
    and seg: "hseg (heap s) FakeHead ([x] @ n # cs)"
    by (auto simp: queue_rep_def simp flip: ncs)
  have pop: "popleft s = Inr (x, s')"
    using seg dist by (simp add: popleft_def s'_def)
  have "hseg (heap s') FakeHead ([] @ n # cs)"
    by (rule hseg_splice [where as = "[]" and bs = "[x]" and h = "heap s"])
      (use seg dist in \<open>auto simp: s'_def store_simps\<close>)
  moreover have "n = FakeTail \<or> n \<in> set xs" using arg_cong [OF ncs, of set] by auto
  ultimately have "queue_rep s' xs"
    using rep dist ncs by (auto simp: queue_rep_def s'_def store_simps)
  moreover have "meta s' = meta s" by (simp add: s'_def)
  ultimately show ?thesis using pop by blast
qed

lemma popleft_empty: "queue_rep s [] \<Longrightarrow> popleft s = Inl ValueError"
  by (simp add: queue_rep_def popleft_def)

text \<open>The loop of \<^verbatim>\<open>popleft_n\<close> follows the forward links only.\<close>

fun fwd :: "(bref \<Rightarrow> kv_cache_block) \<Rightarrow> bref list \<Rightarrow> bref \<Rightarrow> bool" where
  "fwd h [] c = True"
| "fwd h (x # xs) c = (next_free_block (h x) = Some (hd (xs @ [c])) \<and> fwd h xs c)"

lemma hseg_fwd: "hseg h p (xs @ c # cs) \<Longrightarrow> fwd h xs c"
proof (induction xs arbitrary: p)
  case (Cons x xs)
  then show ?case by (cases xs) auto
qed simp

lemma fwd_cong: "(\<And>q. q \<in> set xs \<Longrightarrow> next_free_block (h' q) = next_free_block (h q)) \<Longrightarrow> fwd h' xs c = fwd h xs c"
  by (induction xs) auto

lemma popleft_loop_ok:
  assumes "fwd (heap s) ys c" "distinct ys"
  shows "\<exists>s'. popleft_loop (length ys) (Some (hd (ys @ [c]))) ret s = Inr (ret @ ys, Some c, s') \<and>
     (\<forall>q. next_free_block (heap s' q) = (if q \<in> set ys then None else next_free_block (heap s q))) \<and>
     (\<forall>q. prev_free_block (heap s' q) = (if q \<in> set ys then None else prev_free_block (heap s q))) \<and>
     num_free_blocks s' = num_free_blocks s \<and> meta s' = meta s"
  using assms
proof (induction ys arbitrary: ret s)
  case (Cons y ys)
  let ?s = "set_next y None (set_prev y None s)"
  have "fwd (heap ?s) ys c = fwd (heap s) ys c"
    using Cons.prems by (intro fwd_cong) (auto simp: store_simps)
  with Cons.prems obtain s' where s':
    "popleft_loop (length ys) (Some (hd (ys @ [c]))) (ret @ [y]) ?s = Inr ((ret @ [y]) @ ys, Some c, s')"
    "\<forall>q. next_free_block (heap s' q) = (if q \<in> set ys then None else next_free_block (heap ?s q))"
    "\<forall>q. prev_free_block (heap s' q) = (if q \<in> set ys then None else prev_free_block (heap ?s q))"
    "num_free_blocks s' = num_free_blocks ?s" "meta s' = meta ?s"
    using Cons.IH [of ?s "ret @ [y]"] by auto
  with Cons.prems show ?case by (intro exI [of _ s']) (auto simp: store_simps)
qed simp

lemma popleft_n_ok:
  assumes rep: "queue_rep s xs" and n: "0 \<le> n" "nat n \<le> length xs"
  shows "\<exists>s'. popleft_n n s = Inr (take (nat n) xs, s') \<and> queue_rep s' (drop (nat n) xs) \<and> meta s' = meta s"
proof (cases "n = 0")
  case True
  with rep show ?thesis by (simp add: popleft_n_def)
next
  case False
  define ys zs where "ys = take (nat n) xs" and "zs = drop (nat n) xs"
  have xs: "xs = ys @ zs" and len: "length ys = nat n"
    using n by (simp_all add: ys_def zs_def)
  obtain c cs where ccs: "zs @ [FakeTail] = c # cs" by (cases zs) auto
  let ?s1 = "s\<lparr>num_free_blocks := num_free_blocks s - n\<rparr>"
  from rep have seg: "hseg (heap s) FakeHead (ys @ c # cs)" and dist: "distinct (FakeHead # ys @ c # cs)"
    by (auto simp: queue_rep_def xs simp flip: ccs)
  have "fwd (heap ?s1) ys c" using hseg_fwd [OF seg] by simp
  from popleft_loop_ok [OF this, of "[]"] dist obtain s2 where s2:
    "popleft_loop (length ys) (Some (hd (ys @ [c]))) [] ?s1 = Inr (ys, Some c, s2)"
    "\<forall>q. next_free_block (heap s2 q) = (if q \<in> set ys then None else next_free_block (heap s q))"
    "\<forall>q. prev_free_block (heap s2 q) = (if q \<in> set ys then None else prev_free_block (heap s q))"
    "num_free_blocks s2 = num_free_blocks s - n" "meta s2 = meta s"
    by auto
  define s' where "s' = set_prev c (Some FakeHead) (set_next FakeHead (Some c) s2)"
  have "next_free_block (heap s FakeHead) = Some (hd (ys @ [c]))"
    using seg by (cases ys) auto
  then have "popleft_n n s = Inr (ys, s')"
    using False n rep s2(1) len by (simp add: popleft_n_def s'_def queue_rep_def xs)
  have "hseg (heap s') FakeHead ([] @ c # cs)"
    by (rule hseg_splice [where as = "[]" and bs = ys and h = "heap s"])
      (use seg dist s2 in \<open>auto simp: s'_def store_simps\<close>)
  moreover have "c = FakeTail \<or> c \<in> set zs" using arg_cong [OF ccs, of set] by auto
  ultimately have "queue_rep s' zs"
    using rep s2 ccs dist n len by (auto simp: queue_rep_def s'_def store_simps xs)
  moreover have "meta s' = meta s" using s2 by (simp add: s'_def)
  ultimately show ?thesis using \<open>popleft_n n s = Inr (ys, s')\<close> by (auto simp: ys_def zs_def)
qed

lemma popleft_n_short: "queue_rep s xs \<Longrightarrow> int (length xs) < n \<Longrightarrow> popleft_n n s = Inl AssertionError"
  by (simp add: popleft_n_def queue_rep_def)

lemma remove_ok:
  assumes rep: "queue_rep s xs" and b: "b \<in> set xs"
  shows "\<exists>s'. remove b s = Inr s' \<and> queue_rep s' (remove1 b xs) \<and> meta s' = meta s"
proof -
  from b obtain as bs where xs: "xs = as @ b # bs" by (auto simp: in_set_conv_decomp)
  obtain n cs where ncs: "bs @ [FakeTail] = n # cs" by (cases bs) auto
  let ?p = "last (FakeHead # as)"
  from rep have seg: "hseg (heap s) FakeHead (as @ [b] @ n # cs)"
    and dist: "distinct (FakeHead # as @ [b] @ n # cs)"
    by (auto simp: queue_rep_def xs simp flip: ncs)
  from seg have links: "prev_free_block (heap s b) = Some ?p" "next_free_block (heap s b) = Some n"
    by (auto simp: hseg_append)
  define s' where "s' = (set_next b None (set_prev b None (set_prev n (Some ?p) (set_next ?p (Some n) s))))
      \<lparr>num_free_blocks := num_free_blocks s - 1\<rparr>"
  have "?p \<in> set (FakeHead # as)" by (rule last_in_set) simp
  with dist have "?p \<noteq> b" "n \<noteq> b" by auto
  have rem: "remove b s = Inr s'" by (simp add: remove_def links s'_def)
  have "hseg (heap s') FakeHead (as @ n # cs)"
    by (rule hseg_splice [where bs = "[b]" and h = "heap s"])
      (use seg dist \<open>?p \<noteq> b\<close> \<open>n \<noteq> b\<close> in \<open>auto simp: s'_def store_simps\<close>)
  moreover have "n = FakeTail \<or> n \<in> set bs" using arg_cong [OF ncs, of set] by auto
  moreover have "?p = FakeHead \<or> ?p \<in> set as" using \<open>?p \<in> set (FakeHead # as)\<close> by simp
  ultimately have "queue_rep s' (as @ bs)"
    using rep dist unfolding queue_rep_def
    by (auto simp: s'_def store_simps xs ncs)
  moreover have "remove1 b xs = as @ bs"
    using dist by (simp add: xs remove1_append)
  moreover have "meta s' = meta s" by (simp add: s'_def)
  ultimately show ?thesis using rem by auto
qed

lemma remove_off_queue:
  "queue_rep s xs \<Longrightarrow> Blk i \<notin> set xs \<Longrightarrow> remove (Blk i) s = Inl RuntimeError"
  by (simp add: queue_rep_def remove_def)


lemma link_after_ok:
  assumes "distinct (p # bs)" "link_after p bs s = (l, s')"
  shows "l = last (p # bs)" and "hseg (heap s') p bs"
    and "\<And>q. q \<notin> set (butlast (p # bs)) \<Longrightarrow> next_free_block (heap s' q) = next_free_block (heap s q)"
    and "\<And>q. q \<notin> set bs \<Longrightarrow> prev_free_block (heap s' q) = prev_free_block (heap s q)"
    and "num_free_blocks s' = num_free_blocks s" and "meta s' = meta s"
proof -
  have "l = last (p # bs) \<and> hseg (heap s') p bs \<and>
    (\<forall>q. q \<notin> set (butlast (p # bs)) \<longrightarrow> next_free_block (heap s' q) = next_free_block (heap s q)) \<and>
    (\<forall>q. q \<notin> set bs \<longrightarrow> prev_free_block (heap s' q) = prev_free_block (heap s q)) \<and>
    num_free_blocks s' = num_free_blocks s \<and> meta s' = meta s"
    using assms
  proof (induction bs arbitrary: p s)
    case (Cons b bs)
    let ?s = "set_next p (Some b) (set_prev b (Some p) s)"
    have IH: "l = last (b # bs) \<and> hseg (heap s') b bs \<and>
      (\<forall>q. q \<notin> set (butlast (b # bs)) \<longrightarrow> next_free_block (heap s' q) = next_free_block (heap ?s q)) \<and>
      (\<forall>q. q \<notin> set bs \<longrightarrow> prev_free_block (heap s' q) = prev_free_block (heap ?s q)) \<and>
      num_free_blocks s' = num_free_blocks ?s \<and> meta s' = meta ?s"
      using Cons.prems by (intro Cons.IH) auto
    have "p \<notin> set (butlast (b # bs))"
      using Cons.prems(1) by (auto dest: in_set_butlastD split: if_splits)
    with IH Cons.prems(1) show ?case by (auto simp: store_simps)
  qed simp
  then show "l = last (p # bs)" and "hseg (heap s') p bs"
    and "\<And>q. q \<notin> set (butlast (p # bs)) \<Longrightarrow> next_free_block (heap s' q) = next_free_block (heap s q)"
    and "\<And>q. q \<notin> set bs \<Longrightarrow> prev_free_block (heap s' q) = prev_free_block (heap s q)"
    and "num_free_blocks s' = num_free_blocks s" and "meta s' = meta s"
    by blast+
qed

text \<open>Inserting a run after the node \<open>last (p # as)\<close> of the list.\<close>

lemma insert_run:
  assumes rep: "queue_rep s (as @ cs)" and bs: "bs \<noteq> []" "distinct bs" "set bs \<subseteq> range Blk"
    and disj: "set bs \<inter> set (as @ cs) = {}"
    and n: "cs @ [FakeTail] = n # ds"
    and link: "link_after (last (FakeHead # as)) bs s = (l, s1)"
    and s': "s' = (set_prev n (Some l) (set_next l (Some n) s1))\<lparr>num_free_blocks := num_free_blocks s + int (length bs)\<rparr>"
  shows "queue_rep s' (as @ bs @ cs) \<and> meta s' = meta s"
proof -
  let ?p = "last (FakeHead # as)"
  have p_in: "?p = FakeHead \<or> ?p \<in> set as" by simp
  have n_in: "n = FakeTail \<or> n \<in> set cs" using arg_cong [OF n, of set] by auto
  from rep have seg: "hseg (heap s) FakeHead (as @ n # ds)"
    and dist: "distinct (FakeHead # as @ n # ds)"
    by (auto simp: queue_rep_def simp flip: n)
  have dsub: "set ds \<subseteq> insert FakeTail (set cs)" using arg_cong [OF n, of set] by auto
  from rep disj bs p_in have dist_p: "distinct (?p # bs)" by (auto simp: queue_rep_def)
  note la = link_after_ok [OF dist_p link]
  have bs_new: "b \<notin> set (FakeHead # as @ n # ds)" if "b \<in> set bs" for b
    using that bs disj dsub n_in by auto
  have l_in: "l \<in> set bs" using la(1) bs(1) by simp
  have l_nb: "l \<notin> set (butlast (?p # bs))"
    unfolding la(1) by (rule last_notin_butlast [OF dist_p]) simp
  have as_keep: "hseg (heap s') FakeHead as = hseg (heap s) FakeHead as"
  proof (rule hseg_cong)
    fix q assume q: "q \<in> set (butlast (FakeHead # as))"
    then have "q \<in> set (FakeHead # as)" by (rule in_set_butlastD)
    moreover have "q \<noteq> ?p" using q last_notin_butlast [of "FakeHead # as"] dist by auto
    ultimately have "q \<notin> set (butlast (?p # bs))" "q \<noteq> l"
      using bs_new l_in by (auto dest: in_set_butlastD split: if_splits)
    then show "next_free_block (heap s' q) = next_free_block (heap s q)"
      by (simp add: s' store_simps la(3))
  next
    fix q assume "q \<in> set as"
    then have "q \<notin> set bs" "q \<noteq> n" using bs_new dist by auto
    then show "prev_free_block (heap s' q) = prev_free_block (heap s q)"
      by (simp add: s' store_simps la(4))
  qed
  have ds_keep: "hseg (heap s') n ds = hseg (heap s) n ds"
  proof (rule hseg_cong)
    fix q assume "q \<in> set (butlast (n # ds))"
    then have "q \<in> set (n # ds)" by (rule in_set_butlastD)
    moreover from this have "q \<noteq> ?p" using p_in dist by auto
    ultimately have "q \<notin> set (butlast (?p # bs))" "q \<noteq> l"
      using bs_new l_in by (auto dest: in_set_butlastD split: if_splits)
    then show "next_free_block (heap s' q) = next_free_block (heap s q)"
      by (simp add: s' store_simps la(3))
  next
    fix q assume "q \<in> set ds"
    then have "q \<notin> set bs" "q \<noteq> n" using bs_new dist by auto
    then show "prev_free_block (heap s' q) = prev_free_block (heap s q)"
      by (simp add: s' store_simps la(4))
  qed
  have bs_link: "hseg (heap s') ?p bs = hseg (heap s1) ?p bs"
  proof (rule hseg_cong)
    fix q assume "q \<in> set (butlast (?p # bs))"
    then show "next_free_block (heap s' q) = next_free_block (heap s1 q)"
      using l_nb by (auto simp: s' store_simps)
  next
    fix q assume "q \<in> set bs"
    then show "prev_free_block (heap s' q) = prev_free_block (heap s1 q)"
      using bs_new by (auto simp: s' store_simps)
  qed
  have "next_free_block (heap s' l) = Some n" "prev_free_block (heap s' n) = Some l"
    by (simp_all add: s' store_simps)
  moreover have "last (FakeHead # as @ bs) = l" using la(1) bs(1) by simp
  ultimately have "hseg (heap s') FakeHead (as @ bs @ cs @ [FakeTail])"
    using as_keep ds_keep bs_link la(1,2) seg bs(1) n by (simp add: hseg_append)
  moreover have p_bs: "set (butlast (?p # bs)) \<subseteq> insert FakeHead (set as \<union> set bs)"
    using p_in by (auto dest: in_set_butlastD)
  moreover have "next_free_block (heap s' FakeTail) = None"
  proof -
    have "FakeTail \<notin> set (butlast (?p # bs))" "l \<noteq> FakeTail"
      using p_bs bs(3) l_in queue_rep_notin(3) [OF rep] by auto
    moreover have "next_free_block (heap s FakeTail) = None" using rep by (simp only: queue_rep_def)
    ultimately show ?thesis by (simp add: s' store_simps la(3))
  qed
  moreover have "prev_free_block (heap s' (Blk i)) = None \<and> next_free_block (heap s' (Blk i)) = None"
    if i: "Blk i \<notin> set (as @ bs @ cs)" for i
  proof -
    have "Blk i \<notin> set (butlast (?p # bs))" "Blk i \<noteq> l" "Blk i \<notin> set bs" "Blk i \<noteq> n"
      using p_bs i l_in n_in by auto
    moreover have "prev_free_block (heap s (Blk i)) = None \<and> next_free_block (heap s (Blk i)) = None"
      using rep i unfolding queue_rep_def by simp
    ultimately show ?thesis by (simp add: s' store_simps la(3,4))
  qed
  moreover have "distinct (as @ bs @ cs)" "set (as @ bs @ cs) \<subseteq> range Blk"
    using rep bs disj by (auto simp: queue_rep_def)
  moreover have "num_free_blocks s' = int (length (as @ bs @ cs))" "meta s' = meta s"
    using rep la(5,6) by (simp_all add: queue_rep_def s')
  ultimately show ?thesis unfolding queue_rep_def by simp
qed

lemma prepend_n_ok:
  assumes rep: "queue_rep s xs" and bs: "distinct bs" "set bs \<subseteq> range Blk" "set bs \<inter> set xs = {}"
  shows "\<exists>s'. prepend_n bs s = Inr s' \<and> queue_rep s' (bs @ xs) \<and> meta s' = meta s"
proof (cases "bs = []")
  case True
  with rep show ?thesis by (simp add: prepend_n_def)
next
  case False
  obtain n ds where n: "xs @ [FakeTail] = n # ds" by (cases xs) auto
  obtain l s1 where link: "link_after FakeHead bs s = (l, s1)" by fastforce
  have "next_free_block (heap s FakeHead) = Some n"
    using rep by (auto simp: queue_rep_def n)
  with False link show ?thesis
    using insert_run [of s "[]" xs bs n ds l s1] rep bs n by (simp add: prepend_n_def)
qed

lemma append_n_ok:
  assumes rep: "queue_rep s xs" and bs: "distinct bs" "set bs \<subseteq> range Blk" "set bs \<inter> set xs = {}"
  shows "\<exists>s'. append_n bs s = Inr s' \<and> queue_rep s' (xs @ bs) \<and> meta s' = meta s"
proof (cases "bs = []")
  case True
  with rep show ?thesis by (simp add: append_n_def)
next
  case False
  obtain l s1 where link: "link_after (last (FakeHead # xs)) bs s = (l, s1)" by fastforce
  have "prev_free_block (heap s FakeTail) = Some (last (FakeHead # xs))"
    using rep by (auto simp: queue_rep_def hseg_append)
  with False link show ?thesis
    using insert_run [of s xs "[]" bs FakeTail "[]" l s1] rep bs by (simp add: append_n_def)
qed

lemma append_block_ok:
  assumes rep: "queue_rep s xs" and b: "b \<in> range Blk" "b \<notin> set xs"
  shows "\<exists>s'. append_block b s = Inr s' \<and> queue_rep s' (xs @ [b]) \<and> meta s' = meta s"
proof -
  let ?p = "last (FakeHead # xs)"
  have prev: "prev_free_block (heap s FakeTail) = Some ?p"
    using rep by (auto simp: queue_rep_def hseg_append)
  have "?p \<in> set (FakeHead # xs)" by (rule last_in_set) simp
  then have "?p \<noteq> b" using b by auto
  then have "link_after ?p [b] s = (b, set_prev b (Some ?p) (set_next ?p (Some b) s))"
    by (auto simp: set_next_def set_prev_def upd_block_def fun_upd_twist)
  from insert_run [OF _ _ _ _ _ _ this, where cs = "[]" and n = FakeTail, OF _ _ _ _ _ _ refl] rep b
  show ?thesis by (simp add: append_block_def prev)
qed


lemma hseg_nth:
  "hseg h p xs \<longleftrightarrow> (\<forall>i < length xs. next_free_block (h ((p # xs) ! i)) = Some (xs ! i) \<and>
     prev_free_block (h (xs ! i)) = Some ((p # xs) ! i))"
proof (induction xs arbitrary: p)
  case (Cons x xs)
  then show ?case by (auto simp: less_Suc_eq_0_disj nth_Cons split: nat.splits)
qed simp

lemma queue_init_fold:
  assumes "distinct bs" "k \<le> length bs"
    and "s' = fold (queue_init_step bs) [0..<k] s"
  shows "(\<forall>i < k. next_free_block (heap s' (bs ! i)) =
            (if i < length bs - 1 then Some (bs ! Suc i) else next_free_block (heap s (bs ! i)))) \<and>
     (\<forall>i < k. prev_free_block (heap s' (bs ! i)) =
            (if i > 0 then Some (bs ! (i - 1)) else prev_free_block (heap s (bs ! i)))) \<and>
     (\<forall>q. q \<notin> set (take k bs) \<longrightarrow> next_free_block (heap s' q) = next_free_block (heap s q) \<and>
            prev_free_block (heap s' q) = prev_free_block (heap s q)) \<and>
     num_free_blocks s' = num_free_blocks s \<and> meta s' = meta s"
  using assms(2,3)
proof (induction k arbitrary: s')
  case (Suc k)
  have neq: "bs ! i = bs ! j \<longleftrightarrow> i = j" if "i < Suc k" "j < Suc k" for i j
    using that assms(1) Suc.prems by (intro nth_eq_iff_index_eq) auto
  have k: "bs ! k \<notin> set (take k bs)"
    using assms(1) Suc.prems by (auto simp: in_set_conv_nth nth_eq_iff_index_eq)
  have tk: "set (take (Suc k) bs) = insert (bs ! k) (set (take k bs))"
    using Suc.prems by (auto simp: take_Suc_conv_app_nth)
  define s1 where "s1 = fold (queue_init_step bs) [0..<k] s"
  have s': "s' = queue_init_step bs k s1" using Suc.prems by (simp add: s1_def)
  have st: "next_free_block (heap s' q) =
        (if q = bs ! k \<and> k < length bs - 1 then Some (bs ! Suc k) else next_free_block (heap s1 q))"
      "prev_free_block (heap s' q) =
        (if q = bs ! k \<and> k > 0 then Some (bs ! (k - 1)) else prev_free_block (heap s1 q))"
      "num_free_blocks s' = num_free_blocks s1 \<and> meta s' = meta s1" for q
    by (simp_all add: s' queue_init_step_def store_simps Let_def)
  have le: "k \<le> length bs" using Suc.prems by simp
  note IH = Suc.IH [OF le s1_def]
  have nk: "bs ! i \<noteq> bs ! k" if "i < k" for i using neq [of i k] that by simp
  show ?case
  proof (intro conjI allI impI)
    fix i assume "i < Suc k"
    then show "next_free_block (heap s' (bs ! i)) =
          (if i < length bs - 1 then Some (bs ! Suc i) else next_free_block (heap s (bs ! i)))"
      and "prev_free_block (heap s' (bs ! i)) =
          (if i > 0 then Some (bs ! (i - 1)) else prev_free_block (heap s (bs ! i)))"
      using IH nk k by (cases "i = k"; simp add: st)+
  next
    fix q assume "q \<notin> set (take (Suc k) bs)"
    then show "next_free_block (heap s' q) = next_free_block (heap s q)"
      and "prev_free_block (heap s' q) = prev_free_block (heap s q)"
      using IH by (simp_all add: st tk)
  next
    show "num_free_blocks s' = num_free_blocks s" and "meta s' = meta s" using IH st(3) by simp_all
  qed
qed simp

lemma queue_init_ok:
  assumes bs: "distinct bs" "set bs \<subseteq> range Blk"
    and fresh: "\<And>i. prev_free_block (heap s (Blk i)) = None \<and> next_free_block (heap s (Blk i)) = None"
  shows "queue_rep (queue_init bs s) bs"
proof (cases "bs = []")
  case True
  with fresh show ?thesis
    by (simp add: queue_init_def queue_rep_def store_simps new_block_def Let_def)
next
  case False
  define n where "n = length bs"
  define s1 where "s1 = fold (queue_init_step bs) [0..<n] (s\<lparr>num_free_blocks := int n\<rparr>)"
  define s' where "s' = queue_init bs s"
  from False have hl: "hd bs = bs ! 0" "last bs = bs ! (n - 1)" "n > 0"
    by (simp_all add: hd_conv_nth last_conv_nth n_def)
  note f = queue_init_fold [OF bs(1) _ s1_def]
  have real: "bs ! i \<noteq> FakeHead" "bs ! i \<noteq> FakeTail" if "i < n" for i
    using that bs(2) nth_mem [of i bs] unfolding n_def by (metis bref.distinct(1,3) imageE subsetD)+
  have inj: "bs ! i = bs ! j \<longleftrightarrow> i = j" if "i < n" "j < n" for i j
    using that bs(1) by (simp add: n_def nth_eq_iff_index_eq)
  have s': "s' = set_next (bs ! (n - 1)) (Some FakeTail) (set_prev FakeTail (Some (bs ! (n - 1)))
      (set_prev (bs ! 0) (Some FakeHead) (set_next FakeHead (Some (bs ! 0))
        (upd_block FakeTail (\<lambda>_. new_block) (upd_block FakeHead (\<lambda>_. new_block) s1)))))"
    using False by (simp add: s'_def queue_init_def s1_def n_def Let_def hd_conv_nth last_conv_nth)
  have nxt: "next_free_block (heap s' (bs ! i)) = Some ((bs @ [FakeTail]) ! Suc i)" if "i < n" for i
    using that f real inj hl(3) by (auto simp: s' store_simps n_def nth_append)
  have prv: "prev_free_block (heap s' (bs ! i)) = Some ((FakeHead # bs) ! i)" if "i < n" for i
    using that f real inj hl(3) by (auto simp: s' store_simps n_def nth_Cons split: nat.splits)
  have "hseg (heap s') FakeHead (bs @ [FakeTail])"
    unfolding hseg_nth
  proof (intro allI impI)
    fix i assume i: "i < length (bs @ [FakeTail])"
    have h: "next_free_block (heap s' FakeHead) = Some (bs ! 0)" "prev_free_block (heap s' FakeTail) = Some (bs ! (n - 1))"
      using real [of 0] real [of "n - 1"] hl(3) by (auto simp: s' store_simps)
    show "next_free_block (heap s' ((FakeHead # bs @ [FakeTail]) ! i)) = Some ((bs @ [FakeTail]) ! i) \<and>
      prev_free_block (heap s' ((bs @ [FakeTail]) ! i)) = Some ((FakeHead # bs @ [FakeTail]) ! i)"
    proof (cases "i < n")
      case True
      then show ?thesis
        using prv [OF True] nxt [of "i - 1"] h hl
        by (cases i) (auto simp: nth_append n_def nth_Cons)
    next
      case False
      with i have "i = n" by (simp add: n_def)
      then show ?thesis
        using nxt [of "n - 1"] h hl(3) by (cases n) (auto simp: nth_append n_def nth_Cons)
    qed
  qed
  moreover have "next_free_block (heap s' FakeTail) = None" "num_free_blocks s' = int (length bs)"
    using f real [of "n - 1"] hl(3) by (auto simp: s' store_simps n_def new_block_def)
  moreover have "prev_free_block (heap s' (Blk i)) = None \<and> next_free_block (heap s' (Blk i)) = None"
    if "Blk i \<notin> set bs" for i
  proof -
    have "Blk i \<noteq> bs ! 0" "Blk i \<noteq> bs ! (n - 1)" using that hl(3) by (auto simp: n_def)
    with that f fresh [of i] show ?thesis by (auto simp: s' store_simps n_def)
  qed
  ultimately show ?thesis using bs by (simp add: queue_rep_def s'_def)
qed

lemma queue_init_frame:
  assumes "distinct bs"
  shows "ref_cnt (heap (queue_init bs s) (Blk i)) = ref_cnt (heap s (Blk i))"
    and "block_hash (heap (queue_init bs s) (Blk i)) = block_hash (heap s (Blk i))"
    and "block_hash_num_tokens (heap (queue_init bs s) (Blk i)) = block_hash_num_tokens (heap s (Blk i))"
    and "is_null (heap (queue_init bs s) (Blk i)) = is_null (heap s (Blk i))"
    and "block_store.more (queue_init bs s) = block_store.more s"
proof -
  let ?s1 = "fold (queue_init_step bs) [0..<length bs] (s\<lparr>num_free_blocks := int (length bs)\<rparr>)"
  have "meta ?s1 = meta s" using queue_init_fold [OF assms le_refl refl, of "s\<lparr>num_free_blocks := int (length bs)\<rparr>"] by simp
  note m = meta_fields [OF this]
  show "ref_cnt (heap (queue_init bs s) (Blk i)) = ref_cnt (heap s (Blk i))"
    and "block_hash (heap (queue_init bs s) (Blk i)) = block_hash (heap s (Blk i))"
    and "block_hash_num_tokens (heap (queue_init bs s) (Blk i)) = block_hash_num_tokens (heap s (Blk i))"
    and "is_null (heap (queue_init bs s) (Blk i)) = is_null (heap s (Blk i))"
    and "block_store.more (queue_init bs s) = block_store.more s"
    using m by (auto simp: queue_init_def Let_def set_next_def set_prev_def upd_block_def)
qed

lemma walk_free_ok:
  assumes "hseg h p (xs @ [q])" "next_free_block (h q) = None"
  shows "walk_free h (hd (xs @ [q])) = Some xs"
  using assms
proof (induction xs arbitrary: p)
  case Nil
  then show ?case by (simp add: walk_free.simps)
next
  case (Cons x xs)
  then have "walk_free h (hd (xs @ [q])) = Some xs" "next_free_block (h x) = Some (hd (xs @ [q]))"
    by (auto, cases xs, auto)
  then show ?case by (simp add: walk_free.simps)
qed

lemma walk_after_ok:
  assumes "hseg h p (xs @ [FakeTail])" "FakeTail \<notin> set xs"
  shows "walk_after h (Some (hd (xs @ [FakeTail]))) = Some xs"
  using assms
proof (induction xs arbitrary: p)
  case Nil
  then show ?case by (simp add: walk_after.simps)
next
  case (Cons x xs)
  then have "walk_after h (Some (hd (xs @ [FakeTail]))) = Some xs" "next_free_block (h x) = Some (hd (xs @ [FakeTail]))"
    by (auto, cases xs, auto)
  moreover have "x \<noteq> FakeTail" using Cons.prems by auto
  ultimately show ?case by (subst walk_after.simps) simp
qed

lemma get_all_free_blocks_ok:
  assumes "queue_rep s xs"
  shows "get_all_free_blocks s = Some (Inr xs)"
proof -
  from assms have "next_free_block (heap s FakeHead) = Some (hd (xs @ [FakeTail]))"
    by (cases xs) (auto simp: queue_rep_def)
  then show ?thesis
    using assms walk_free_ok [of "heap s" FakeHead xs FakeTail]
    by (simp add: get_all_free_blocks_def queue_rep_def)
qed

lemma iter_blocks_after_ok:
  assumes "queue_rep s xs"
  shows "iter_blocks_after None s = Some xs"
    and "xs = as @ c # bs \<Longrightarrow> iter_blocks_after (Some c) s = Some bs"
proof -
  from assms have seg: "hseg (heap s) FakeHead (xs @ [FakeTail])" by (simp add: queue_rep_def)
  have "next_free_block (heap s FakeHead) = Some (hd (xs @ [FakeTail]))"
    using seg by (cases xs) auto
  then show "iter_blocks_after None s = Some xs"
    using walk_after_ok [OF seg] assms by (simp add: iter_blocks_after_def)
  assume xs: "xs = as @ c # bs"
  with seg have seg2: "hseg (heap s) c (bs @ [FakeTail])" by (simp add: hseg_append)
  then have "next_free_block (heap s c) = Some (hd (bs @ [FakeTail]))" by (cases bs) auto
  then show "iter_blocks_after (Some c) s = Some bs"
    using walk_after_ok [OF seg2] assms xs by (auto simp: iter_blocks_after_def dest: queue_rep_notin(3))
qed


section \<open>The contract of the queue\<close>

text \<open>
  What the block pool relies on: the queue stands for a list of distinct references, every
  operation is the list operation of that name, and nothing else of the state
  (\<open>frame\<close>) changes.
\<close>

locale free_block_queue =
  fixes rep :: "'s \<Rightarrow> 'b list \<Rightarrow> bool" and real :: "'b \<Rightarrow> bool" and frame :: "'s \<Rightarrow> 's"
    and pop_n :: "int \<Rightarrow> 's \<Rightarrow> ('b list \<times> 's) result" and rem :: "'b \<Rightarrow> 's \<Rightarrow> 's result"
    and app_n :: "'b list \<Rightarrow> 's \<Rightarrow> 's result" and pre_n :: "'b list \<Rightarrow> 's \<Rightarrow> 's result"
  assumes rep_fun: "rep s xs \<Longrightarrow> rep s ys \<Longrightarrow> xs = ys"
    and rep_distinct: "rep s xs \<Longrightarrow> distinct xs"
    and rep_real: "rep s xs \<Longrightarrow> x \<in> set xs \<Longrightarrow> real x"
    and pop_n_law: "rep s xs \<Longrightarrow> 0 \<le> n \<Longrightarrow> nat n \<le> length xs \<Longrightarrow>
      \<exists>s'. pop_n n s = Inr (take (nat n) xs, s') \<and> rep s' (drop (nat n) xs) \<and> frame s' = frame s"
    and pop_n_short: "rep s xs \<Longrightarrow> int (length xs) < n \<Longrightarrow> pop_n n s = Inl AssertionError"
    and rem_law: "rep s xs \<Longrightarrow> b \<in> set xs \<Longrightarrow>
      \<exists>s'. rem b s = Inr s' \<and> rep s' (remove1 b xs) \<and> frame s' = frame s"
    and app_n_law: "rep s xs \<Longrightarrow> distinct bs \<Longrightarrow> (\<And>b. b \<in> set bs \<Longrightarrow> real b \<and> b \<notin> set xs) \<Longrightarrow>
      \<exists>s'. app_n bs s = Inr s' \<and> rep s' (xs @ bs) \<and> frame s' = frame s"
    and pre_n_law: "rep s xs \<Longrightarrow> distinct bs \<Longrightarrow> (\<And>b. b \<in> set bs \<Longrightarrow> real b \<and> b \<notin> set xs) \<Longrightarrow>
      \<exists>s'. pre_n bs s = Inr s' \<and> rep s' (bs @ xs) \<and> frame s' = frame s"
begin

lemma pop_then_prepend:
  assumes "rep s xs" "0 \<le> n" "nat n \<le> length xs"
  shows "\<exists>ys s1 s2. pop_n n s = Inr (ys, s1) \<and> pre_n ys s1 = Inr s2 \<and> rep s2 xs \<and> frame s2 = frame s"
proof -
  from pop_n_law [OF assms] obtain s1 where s1: "pop_n n s = Inr (take (nat n) xs, s1)"
    "rep s1 (drop (nat n) xs)" "frame s1 = frame s" by blast
  have d: "distinct (take (nat n) xs)" "set (take (nat n) xs) \<inter> set (drop (nat n) xs) = {}"
    using rep_distinct [OF assms(1)] by (simp_all add: set_take_disj_set_drop_if_distinct)
  have "\<exists>s2. pre_n (take (nat n) xs) s1 = Inr s2 \<and> rep s2 (take (nat n) xs @ drop (nat n) xs) \<and> frame s2 = frame s1"
    using d by (intro pre_n_law [OF s1(2)]) (auto dest: in_set_takeD rep_real [OF assms(1)])
  then show ?thesis using s1 by auto
qed

lemma append_then_pop:
  assumes "rep s xs" "distinct bs" "\<And>b. b \<in> set bs \<Longrightarrow> real b \<and> b \<notin> set xs"
  shows "\<exists>s1 s2. app_n bs s = Inr s1 \<and> pop_n (int (length xs)) s1 = Inr (xs, s2) \<and> rep s2 bs \<and> frame s2 = frame s"
proof -
  from app_n_law [OF assms] obtain s1 where s1: "app_n bs s = Inr s1" "rep s1 (xs @ bs)" "frame s1 = frame s"
    by blast
  from pop_n_law [OF s1(2), of "int (length xs)"] s1 show ?thesis by auto
qed

lemma rem_all:
  assumes "rep s xs" "distinct bs" "set bs \<subseteq> set xs"
  shows "\<exists>s'. efold rem bs s = Inr s' \<and> rep s' (filter (\<lambda>x. x \<notin> set bs) xs) \<and> frame s' = frame s"
proof (rule efold_invariant)
  show "rep s (filter (\<lambda>x. x \<notin> set []) xs) \<and> frame s = frame s" using assms by simp
next
  fix ys b zs s1
  assume bs: "bs = ys @ b # zs" and I: "rep s1 (filter (\<lambda>x. x \<notin> set ys) xs) \<and> frame s1 = frame s"
  have "b \<in> set (filter (\<lambda>x. x \<notin> set ys) xs)" using assms bs by auto
  moreover have "remove1 b (filter (\<lambda>x. x \<notin> set ys) xs) = filter (\<lambda>x. x \<notin> set (ys @ [b])) xs"
    using rep_distinct [OF assms(1)] by (auto simp: distinct_remove1_removeAll removeAll_filter_not_eq intro!: filter_cong)
  ultimately show "\<exists>s'. rem b s1 = Inr s' \<and> rep s' (filter (\<lambda>x. x \<notin> set (ys @ [b])) xs) \<and> frame s' = frame s"
    using rem_law [of s1 _ b] I by fastforce
qed

end

interpretation fq: free_block_queue queue_rep "\<lambda>b. b \<in> range Blk" meta popleft_n remove append_n prepend_n
proof unfold_locales
  show "queue_rep s xs \<Longrightarrow> queue_rep s ys \<Longrightarrow> xs = ys" for s :: "'a block_store_scheme" and xs ys
    by (rule queue_rep_unique)
  show "\<exists>s'. append_n bs s = Inr s' \<and> queue_rep s' (xs @ bs) \<and> meta s' = meta s"
    if "queue_rep s xs" "distinct bs" "\<And>b. b \<in> set bs \<Longrightarrow> b \<in> range Blk \<and> b \<notin> set xs"
    for s :: "'a block_store_scheme" and xs bs
    using that by (intro append_n_ok) blast+
  show "\<exists>s'. prepend_n bs s = Inr s' \<and> queue_rep s' (bs @ xs) \<and> meta s' = meta s"
    if "queue_rep s xs" "distinct bs" "\<And>b. b \<in> set bs \<Longrightarrow> b \<in> range Blk \<and> b \<notin> set xs"
    for s :: "'a block_store_scheme" and xs bs
    using that by (intro prepend_n_ok) blast+
qed (blast intro: popleft_n_ok popleft_n_short remove_ok queue_rep_notin(1) dest: queue_rep_real)+


section \<open>Sequences of operations\<close>

text \<open>
  A client's run of the queue: each call with its arguments, and the blocks it returned. The
  list machine \<open>spec_call\<close> is the specification; \<open>queue_call\<close> is the code.
\<close>

datatype queue_op =
    PopLeft | PopLeftN int | Remove bref | Append bref | AppendN "bref list" | PrependN "bref list"

fun queue_call :: "queue_op \<Rightarrow> 'a block_store_scheme \<Rightarrow> (bref list \<times> 'a block_store_scheme) result" where
  "queue_call PopLeft s = ebind (popleft s) (\<lambda>(b, s'). Inr ([b], s'))"
| "queue_call (PopLeftN n) s = popleft_n n s"
| "queue_call (Remove b) s = ebind (remove b s) (\<lambda>s'. Inr ([], s'))"
| "queue_call (Append b) s = ebind (append_block b s) (\<lambda>s'. Inr ([], s'))"
| "queue_call (AppendN bs) s = ebind (append_n bs s) (\<lambda>s'. Inr ([], s'))"
| "queue_call (PrependN bs) s = ebind (prepend_n bs s) (\<lambda>s'. Inr ([], s'))"

fun spec_call :: "queue_op \<Rightarrow> bref list \<Rightarrow> (bref list \<times> bref list) result" where
  "spec_call PopLeft xs = (case xs of [] \<Rightarrow> Inl ValueError | x # ys \<Rightarrow> Inr ([x], ys))"
| "spec_call (PopLeftN n) xs =
     (if int (length xs) < n then Inl AssertionError else Inr (take (nat n) xs, drop (nat n) xs))"
| "spec_call (Remove b) xs = (if b \<in> set xs then Inr ([], remove1 b xs) else Inl RuntimeError)"
| "spec_call (Append b) xs = Inr ([], xs @ [b])"
| "spec_call (AppendN bs) xs = Inr ([], xs @ bs)"
| "spec_call (PrependN bs) xs = Inr ([], bs @ xs)"

text \<open>A call is allowed when the blocks it inserts are distinct blocks off the queue.\<close>

fun allowed :: "queue_op \<Rightarrow> bref list \<Rightarrow> bool" where
  "allowed PopLeft xs = True"
| "allowed (PopLeftN n) xs = (0 \<le> n)"
| "allowed (Remove b) xs = (b \<notin> {FakeHead, FakeTail})"
| "allowed (Append b) xs = (b \<notin> {FakeHead, FakeTail} \<and> b \<notin> set xs)"
| "allowed (AppendN bs) xs = (distinct bs \<and> set bs \<inter> ({FakeHead, FakeTail} \<union> set xs) = {})"
| "allowed (PrependN bs) xs = (distinct bs \<and> set bs \<inter> ({FakeHead, FakeTail} \<union> set xs) = {})"

fun run_calls :: "('op \<Rightarrow> 's \<Rightarrow> (bref list \<times> 's) result) \<Rightarrow> 'op list \<Rightarrow> 's \<Rightarrow> (bref list list \<times> 's) result" where
  "run_calls call [] s = Inr ([], s)"
| "run_calls call (c # cs) s =
     ebind (call c s) (\<lambda>(out, s'). ebind (run_calls call cs s') (\<lambda>(outs, s''). Inr (out # outs, s'')))"

fun all_allowed :: "queue_op list \<Rightarrow> bref list \<Rightarrow> bool" where
  "all_allowed [] xs = True"
| "all_allowed (c # cs) xs =
     (allowed c xs \<and> (case spec_call c xs of Inl _ \<Rightarrow> True | Inr (_, ys) \<Rightarrow> all_allowed cs ys))"

lemma not_sentinel: "b \<notin> {FakeHead, FakeTail} \<longleftrightarrow> b \<in> range Blk"
  by (cases b) auto

lemma queue_call_refines:
  assumes "queue_rep s xs" "allowed c xs"
  shows "(\<forall>e. spec_call c xs = Inl e \<longrightarrow> queue_call c s = Inl e) \<and>
    (\<forall>out ys. spec_call c xs = Inr (out, ys) \<longrightarrow>
       (\<exists>s'. queue_call c s = Inr (out, s') \<and> queue_rep s' ys \<and> meta s' = meta s))"
proof (cases c)
  case PopLeft
  show ?thesis
  proof (cases xs)
    case Nil
    with assms PopLeft show ?thesis by (simp add: popleft_empty)
  next
    case (Cons x ys)
    with assms popleft_ok [of s x ys] obtain s' where "popleft s = Inr (x, s')" "queue_rep s' ys" "meta s' = meta s"
      by auto
    with Cons PopLeft show ?thesis by simp
  qed
next
  case (PopLeftN n)
  show ?thesis
  proof (cases "int (length xs) < n")
    case True
    with assms PopLeftN show ?thesis by (simp add: popleft_n_short)
  next
    case False
    then have "nat n \<le> length xs" by linarith
    with assms PopLeftN popleft_n_ok [of s xs n] obtain s' where
      "popleft_n n s = Inr (take (nat n) xs, s')" "queue_rep s' (drop (nat n) xs)" "meta s' = meta s" by auto
    with False PopLeftN show ?thesis by simp
  qed
next
  case (Remove b)
  show ?thesis
  proof (cases "b \<in> set xs")
    case True
    with assms remove_ok [of s xs b] obtain s' where
      "remove b s = Inr s'" "queue_rep s' (remove1 b xs)" "meta s' = meta s" by auto
    with True Remove show ?thesis by simp
  next
    case False
    from assms Remove obtain i where "b = Blk i" by (cases b) auto
    with assms(1) False have "remove b s = Inl RuntimeError" by (simp add: remove_off_queue)
    with False Remove show ?thesis by simp
  qed
next
  case (Append b)
  with assms not_sentinel append_block_ok [of s xs b] obtain s' where
    "append_block b s = Inr s'" "queue_rep s' (xs @ [b])" "meta s' = meta s" by auto
  with Append show ?thesis by simp
next
  case (AppendN bs)
  with assms not_sentinel have "set bs \<subseteq> range Blk" "distinct bs" "set bs \<inter> set xs = {}" by auto
  from append_n_ok [OF assms(1) this(2,1,3)] obtain s' where
    "append_n bs s = Inr s'" "queue_rep s' (xs @ bs)" "meta s' = meta s" by auto
  with AppendN show ?thesis by simp
next
  case (PrependN bs)
  with assms not_sentinel have "set bs \<subseteq> range Blk" "distinct bs" "set bs \<inter> set xs = {}" by auto
  from prepend_n_ok [OF assms(1) this(2,1,3)] obtain s' where
    "prepend_n bs s = Inr s'" "queue_rep s' (bs @ xs)" "meta s' = meta s" by auto
  with PrependN show ?thesis by simp
qed

lemma run_calls_refines:
  assumes "queue_rep s xs" "all_allowed cs xs"
  shows "(\<forall>e. run_calls spec_call cs xs = Inl e \<longrightarrow> run_calls queue_call cs s = Inl e) \<and>
    (\<forall>outs ys. run_calls spec_call cs xs = Inr (outs, ys) \<longrightarrow>
       (\<exists>s'. run_calls queue_call cs s = Inr (outs, s') \<and> queue_rep s' ys \<and> meta s' = meta s))"
  using assms
proof (induction cs arbitrary: s xs)
  case (Cons c cs)
  note ref = queue_call_refines [OF Cons.prems(1), of c]
  show ?case
  proof (cases "spec_call c xs")
    case (Inl e)
    with ref Cons.prems show ?thesis by simp
  next
    case (Inr p)
    obtain out ys where p: "p = (out, ys)" by (cases p)
    with ref Inr Cons.prems obtain s' where s': "queue_call c s = Inr (out, s')" "queue_rep s' ys" "meta s' = meta s"
      by auto
    from Cons.IH [OF s'(2)] Cons.prems Inr p have
      IH: "(\<forall>e. run_calls spec_call cs ys = Inl e \<longrightarrow> run_calls queue_call cs s' = Inl e) \<and>
        (\<forall>outs zs. run_calls spec_call cs ys = Inr (outs, zs) \<longrightarrow>
          (\<exists>s''. run_calls queue_call cs s' = Inr (outs, s'') \<and> queue_rep s'' zs \<and> meta s'' = meta s'))"
      by simp
    show ?thesis
    proof (cases "run_calls spec_call cs ys")
      case (Inl e)
      with IH Inr p s' \<open>spec_call c xs = Inr p\<close> show ?thesis by simp
    next
      case (Inr q)
      with IH p s' \<open>spec_call c xs = Inr p\<close> show ?thesis by (cases q) fastforce
    qed
  qed
qed simp

definition fresh_store :: block_store where
  "fresh_store = \<lparr>heap = (\<lambda>_. new_block), num_free_blocks = 0\<rparr>"

text \<open>
  C7: from the constructor on, every sequence of calls to the linked list returns what the
  list machine returns.
\<close>

theorem free_queue_refines_list:
  assumes "all_allowed cs (map Blk [0..<n])"
  shows "map_sum id fst (run_calls queue_call cs (queue_init (map Blk [0..<n]) fresh_store)) =
     map_sum id fst (run_calls spec_call cs (map Blk [0..<n]))"
proof -
  have "queue_rep (queue_init (map Blk [0..<n]) fresh_store) (map Blk [0..<n])"
    by (rule queue_init_ok) (auto simp: fresh_store_def new_block_def distinct_map inj_on_def)
  note ref = run_calls_refines [OF this assms]
  show ?thesis
  proof (cases "run_calls spec_call cs (map Blk [0..<n])")
    case (Inl e)
    with ref show ?thesis by simp
  next
    case (Inr q)
    with ref show ?thesis by (cases q) fastforce
  qed
qed

theorem free_queue_refines_list_witness:
  "map_sum id fst (run_calls queue_call
      [PopLeftN 2, Remove (Blk 3), AppendN [Blk 1, Blk 3], PrependN [Blk 0], PopLeftN 3]
      (queue_init (map Blk [0..<5]) fresh_store)) =
   Inr [[Blk 0, Blk 1], [], [], [], [Blk 0, Blk 2, Blk 4]]"
  using free_queue_refines_list
    [of "[PopLeftN 2, Remove (Blk 3), AppendN [Blk 1, Blk 3], PrependN [Blk 0], PopLeftN 3]" 5]
  by (simp add: upt_rec numeral_eq_Suc)

end
