(* ===== verification/Request_Model.thy ===== *)
theory Request_Model
  imports Prelude
begin

text \<open>
  Requests (\<^verbatim>\<open>vllm/v1/request.py\<close>) with the parts of \<^verbatim>\<open>SamplingParams\<close>, \<^verbatim>\<open>PoolingParams\<close>,
  \<^verbatim>\<open>LoRARequest\<close> and \<^verbatim>\<open>MultiModalFeatureSpec\<close> the modelled components read, and the status
  of a request. Bookkeeping that no modelled component reads (tracing, statistics, transfer
  parameters, streaming sessions) is left out.
\<close>

section \<open>Parameters of a request\<close>

record repetition_params =
  max_pattern_size :: int
  min_pattern_size :: int
  min_count :: int

record sampling_params =
  sp_max_tokens :: "int option"
  min_tokens :: int
  eos_token_id :: "int option"
  stop_token_ids :: "int list option"
  repetition_detection :: "repetition_params option"
  sp_skip_reading_prefix_cache :: "bool option"

record pooling_params =
  pp_skip_reading_prefix_cache :: "bool option"

record lora_request =
  lora_name :: string
  adapter_id :: int

record placeholder_range =
  offset :: int
  plen :: int
  is_embed :: "bool list option"

record mm_feature =
  mm_identifier :: string
  mm_position :: placeholder_range


section \<open>Placeholder ranges of multi-modal inputs\<close>

text \<open>\<^verbatim>\<open>is_embed.cumsum(dim=0).tolist()\<close>, computed once and cached by the code.\<close>

fun cumsum_from :: "int \<Rightarrow> bool list \<Rightarrow> int list" where
  "cumsum_from acc [] = []"
| "cumsum_from acc (b # bs) = (acc + of_bool b) # cumsum_from (acc + of_bool b) bs"

definition embeds_cumsum :: "placeholder_range \<Rightarrow> int list option" where
  "embeds_cumsum p = map_option (cumsum_from 0) (is_embed p)"

definition get_num_embeds :: "placeholder_range \<Rightarrow> int" where
  "get_num_embeds p =
     (case embeds_cumsum p of
        None \<Rightarrow> plen p
      | Some cs \<Rightarrow> if cs \<noteq> [] then last cs else 0)"

definition get_embeds_indices_in_range :: "placeholder_range \<Rightarrow> int \<Rightarrow> int \<Rightarrow> (int \<times> int) result" where
  "get_embeds_indices_in_range p start_idx end_idx =
     (case embeds_cumsum p of
        None \<Rightarrow> Inr (start_idx, end_idx)
      | Some cs \<Rightarrow>
          ebind (if start_idx > 0 then py_index cs (start_idx - 1) else Inr 0) (\<lambda>a.
          ebind (if end_idx > 0 then py_index cs (end_idx - 1) else Inr 0) (\<lambda>b. Inr (a, b))))"

lemma length_cumsum_from [simp]: "length (cumsum_from a bs) = length bs"
  by (induction bs arbitrary: a) auto

lemma nth_cumsum_from:
  "i < length bs \<Longrightarrow> cumsum_from a bs ! i = a + int (length (filter id (take (Suc i) bs)))"
proof (induction bs arbitrary: a i)
  case (Cons b bs)
  then show ?case by (cases i) auto
qed simp

lemma last_cumsum_from: "bs \<noteq> [] \<Longrightarrow> last (cumsum_from a bs) = a + int (length (filter id bs))"
proof (induction bs arbitrary: a)
  case (Cons b bs)
  then show ?case by (cases bs) auto
qed simp

lemma get_num_embeds_mask: "is_embed p = Some bs \<Longrightarrow> get_num_embeds p = int (length (filter id bs))"
  by (cases "bs = []") (auto simp: get_num_embeds_def embeds_cumsum_def last_cumsum_from neq_Nil_conv)

lemma cumsum_prefix:
  assumes "0 \<le> k" "k \<le> int (length bs)"
  shows "(if k > 0 then py_index (cumsum_from 0 bs) (k - 1) else Inr 0) =
    Inr (int (length (filter id (take (nat k) bs))))"
proof (cases "k > 0")
  case True
  then have "Suc (nat (k - 1)) = nat k" by simp
  with True assms show ?thesis
    by (auto simp: py_index_def nth_cumsum_from)
qed (use assms in simp)

lemma embeds_indices_mask:
  assumes "is_embed p = Some bs" "0 \<le> i" "i \<le> j" "j \<le> int (length bs)"
  shows "get_embeds_indices_in_range p i j =
    Inr (int (length (filter id (take (nat i) bs))), int (length (filter id (take (nat j) bs))))"
  using assms cumsum_prefix [of i bs] cumsum_prefix [of j bs]
  by (simp add: get_embeds_indices_in_range_def embeds_cumsum_def)


section \<open>Status\<close>

datatype request_status =
    WAITING | WAITING_FOR_STRUCTURED_OUTPUT_GRAMMAR | WAITING_FOR_REMOTE_KVS
  | WAITING_FOR_STREAMING_REQ | RUNNING | PREEMPTED | FINISHED_STOPPED
  | FINISHED_LENGTH_CAPPED | FINISHED_ABORTED | FINISHED_IGNORED | FINISHED_ERROR
  | FINISHED_REPETITION

text \<open>The values \<^verbatim>\<open>enum.auto()\<close> gives the members, in the order of their declaration.\<close>

fun status_value :: "request_status \<Rightarrow> int" where
  "status_value WAITING = 1"
| "status_value WAITING_FOR_STRUCTURED_OUTPUT_GRAMMAR = 2"
| "status_value WAITING_FOR_REMOTE_KVS = 3"
| "status_value WAITING_FOR_STREAMING_REQ = 4"
| "status_value RUNNING = 5"
| "status_value PREEMPTED = 6"
| "status_value FINISHED_STOPPED = 7"
| "status_value FINISHED_LENGTH_CAPPED = 8"
| "status_value FINISHED_ABORTED = 9"
| "status_value FINISHED_IGNORED = 10"
| "status_value FINISHED_ERROR = 11"
| "status_value FINISHED_REPETITION = 12"

datatype finish_reason = FR_STOP | FR_LENGTH | FR_ABORT | FR_ERROR | FR_REPETITION

definition status_is_finished :: "request_status \<Rightarrow> bool" where
  "status_is_finished st \<longleftrightarrow> status_value st > status_value PREEMPTED"

definition FINISHED_REASON_MAP :: "(request_status, finish_reason) dict" where
  "FINISHED_REASON_MAP =
     [(FINISHED_STOPPED, FR_STOP), (FINISHED_LENGTH_CAPPED, FR_LENGTH), (FINISHED_ABORTED, FR_ABORT),
      (FINISHED_IGNORED, FR_LENGTH), (FINISHED_ERROR, FR_ERROR), (WAITING_FOR_STREAMING_REQ, FR_STOP),
      (FINISHED_REPETITION, FR_REPETITION)]"

definition status_finished_reason :: "request_status \<Rightarrow> finish_reason option" where
  "status_finished_reason st = dget FINISHED_REASON_MAP st"

lemma finished_has_reason:
  "status_finished_reason st \<noteq> None \<longleftrightarrow> status_is_finished st \<or> st = WAITING_FOR_STREAMING_REQ"
  by (cases st) (simp_all add: status_finished_reason_def status_is_finished_def FINISHED_REASON_MAP_def)


section \<open>Requests\<close>

text \<open>
  \<^verbatim>\<open>stop_reason\<close> holds a token or a string. \<^verbatim>\<open>py_id\<close> is the identity of the object, which
  \<^verbatim>\<open>__lt__\<close> falls back on and which \<^verbatim>\<open>==\<close> compares. Times are compared only. The rows of
  the \<^verbatim>\<open>prompt_embeds\<close> tensor are opaque byte strings.
\<close>

datatype stop_reason = StopToken int | StopString string

record request =
  py_id :: nat
  request_id :: string
  priority :: int
  arrival_time :: int
  sampling_params :: "sampling_params option"
  pooling_params :: "pooling_params option"
  lora_request :: "lora_request option"
  structured_output :: bool
  status :: request_status
  stop_reason :: "stop_reason option"
  max_tokens :: int
  prompt_token_ids :: "int list option"
  prompt_embeds :: "bytes list option"
  embeds_per_block_hashes :: "(int \<times> int, bytes) dict"
  num_prompt_tokens :: int
  output_token_ids :: "int list"
  all_token_ids :: "int list"
  num_output_placeholders :: int
  num_in_flight_tokens :: int
  spec_token_ids :: "int list"
  num_computed_tokens :: int
  cache_salt :: "string option"
  mm_features :: "mm_feature list"
  shared_prefix_boundary :: int
  num_preemptions :: int
  block_hashes :: "bytes list"
  skip_reading_prefix_cache :: bool

definition length_from_prompt_token_ids_or_embeds :: "int list option \<Rightarrow> bytes list option \<Rightarrow> int result" where
  "length_from_prompt_token_ids_or_embeds toks embeds =
     (case toks of
        None \<Rightarrow> (case embeds of None \<Rightarrow> Inl ValueError | Some e \<Rightarrow> Inr (int (length e)))
      | Some t \<Rightarrow>
          (case embeds of
             None \<Rightarrow> Inr (int (length t))
           | Some e \<Rightarrow> if length e \<noteq> length t then Inl ValueError else Inr (int (length t))))"

definition get_skip_reading_prefix_cache :: "sampling_params option \<Rightarrow> pooling_params option \<Rightarrow> bool" where
  "get_skip_reading_prefix_cache sp pp =
     (case Option.bind sp sp_skip_reading_prefix_cache of
        Some b \<Rightarrow> b
      | None \<Rightarrow> (case Option.bind pp pp_skip_reading_prefix_cache of Some b \<Rightarrow> b | None \<Rightarrow> False))"

text \<open>
  The hasher a request is built with: it may fill the request's memo of embedding hashes.
  \<^verbatim>\<open>None\<close> when no block hasher is configured.
\<close>

type_synonym block_hasher = "(request \<Rightarrow> (bytes list \<times> request) result) option"

definition update_block_hashes :: "block_hasher \<Rightarrow> request \<Rightarrow> request result" where
  "update_block_hashes hasher r =
     (case hasher of
        None \<Rightarrow> Inr r
      | Some h \<Rightarrow> ebind (h r) (\<lambda>(hs, r'). Inr (r'\<lparr>block_hashes := block_hashes r' @ hs\<rparr>)))"

text \<open>The fields as the constructor sets them before it hashes the prompt.\<close>

definition init_request ::
    "nat \<Rightarrow> string \<Rightarrow> int list option \<Rightarrow> sampling_params option \<Rightarrow> pooling_params option \<Rightarrow> int \<Rightarrow>
     bytes list option \<Rightarrow> mm_feature list \<Rightarrow> lora_request option \<Rightarrow> string option \<Rightarrow> int \<Rightarrow> bool \<Rightarrow>
     int \<Rightarrow> request_status \<Rightarrow> int \<Rightarrow> request" where
  "init_request oid rid toks sp pp arrival embeds mms lora salt prio structured mt st n =
     \<lparr>py_id = oid, request_id = rid, priority = prio, arrival_time = arrival, sampling_params = sp,
      pooling_params = pp, lora_request = lora, structured_output = structured, status = st,
      stop_reason = None, max_tokens = mt, prompt_token_ids = toks, prompt_embeds = embeds,
      embeds_per_block_hashes = [], num_prompt_tokens = n, output_token_ids = [],
      all_token_ids = (case toks of Some t \<Rightarrow> t | None \<Rightarrow> replicate (nat n) 0),
      num_output_placeholders = 0, num_in_flight_tokens = 0, spec_token_ids = [],
      num_computed_tokens = 0, cache_salt = salt, mm_features = mms, shared_prefix_boundary = 0,
      num_preemptions = 0, block_hashes = [], skip_reading_prefix_cache = False\<rparr>"

definition new_request ::
    "block_hasher \<Rightarrow> nat \<Rightarrow> string \<Rightarrow> int list option \<Rightarrow> sampling_params option \<Rightarrow> pooling_params option \<Rightarrow> int \<Rightarrow>
     bytes list option \<Rightarrow> mm_feature list \<Rightarrow> lora_request option \<Rightarrow> string option \<Rightarrow> int \<Rightarrow> bool \<Rightarrow> request result" where
  "new_request hasher oid rid toks sp pp arrival embeds mms lora salt prio structured =
     ebind (case pp of
              Some _ \<Rightarrow> Inr (1, WAITING)
            | None \<Rightarrow>
                (case sp of
                   None \<Rightarrow> Inl ValueError
                 | Some p \<Rightarrow>
                     (case sp_max_tokens p of
                        None \<Rightarrow> Inl AssertionError
                      | Some m \<Rightarrow>
                          Inr (m, if structured then WAITING_FOR_STRUCTURED_OUTPUT_GRAMMAR else WAITING))))
       (\<lambda>(mt, st).
     ebind (length_from_prompt_token_ids_or_embeds toks embeds) (\<lambda>n.
     ebind (update_block_hashes hasher
       (init_request oid rid toks sp pp arrival embeds mms lora salt prio structured mt st n)) (\<lambda>r.
     Inr (r\<lparr>skip_reading_prefix_cache := get_skip_reading_prefix_cache sp pp\<rparr>))))"

definition append_output_token_ids :: "block_hasher \<Rightarrow> int list \<Rightarrow> request \<Rightarrow> request result" where
  "append_output_token_ids hasher toks r =
     update_block_hashes hasher
       (r\<lparr>output_token_ids := output_token_ids r @ toks, all_token_ids := all_token_ids r @ toks\<rparr>)"

definition num_tokens :: "request \<Rightarrow> int" where
  "num_tokens r = int (length (all_token_ids r))"

definition num_tokens_with_spec :: "request \<Rightarrow> int" where
  "num_tokens_with_spec r = int (length (all_token_ids r)) + int (length (spec_token_ids r))"

definition num_output_tokens :: "request \<Rightarrow> int" where
  "num_output_tokens r = int (length (output_token_ids r))"

definition num_encoder_inputs :: "request \<Rightarrow> int" where
  "num_encoder_inputs r = int (length (mm_features r))"

definition is_finished :: "request \<Rightarrow> bool" where
  "is_finished r = status_is_finished (status r)"

definition get_finished_reason :: "request \<Rightarrow> finish_reason option" where
  "get_finished_reason r = status_finished_reason (status r)"

definition get_num_encoder_embeds :: "request \<Rightarrow> int \<Rightarrow> int result" where
  "get_num_encoder_embeds r input_id =
     eassert (input_id < int (length (mm_features r)))
       (ebind (py_index (mm_features r) input_id) (\<lambda>f. Inr (get_num_embeds (mm_position f))))"

end
