(* ===== verification/Block_Hash.thy ===== *)
theory Block_Hash
  imports Request_Model
begin

text \<open>
  Block hashes (\<^verbatim>\<open>vllm/v1/core/kv_cache_utils.py\<close>): the packing of a hash with its group id,
  the extra keys of a block, the chained hash of the full blocks of a request, and the view of
  a hash list at a coarser block size. The hash function, the seed of the chain and the digest
  of embedding rows are parameters (\<open>hash_env\<close>).
\<close>

section \<open>Byte strings and integers\<close>

fun be_bytes :: "nat \<Rightarrow> int \<Rightarrow> bytes" where
  "be_bytes 0 v = []"
| "be_bytes (Suc n) v = be_bytes n (v div 256) @ [word_of_int (v mod 256)]"

definition to_bytes :: "nat \<Rightarrow> int \<Rightarrow> bytes result" where
  "to_bytes n v = (if 0 \<le> v \<and> v < 256 ^ n then Inr (be_bytes n v) else Inl OverflowError)"

definition from_bytes :: "bytes \<Rightarrow> int" where
  "from_bytes bs = foldl (\<lambda>acc b. acc * 256 + uint b) 0 bs"

definition make_block_hash_with_group_id :: "bytes \<Rightarrow> int \<Rightarrow> bytes result" where
  "make_block_hash_with_group_id bh group_id = ebind (to_bytes 4 group_id) (\<lambda>b. Inr (bh @ b))"

definition get_block_hash :: "bytes \<Rightarrow> bytes" where
  "get_block_hash key = py_slice_to key (-4)"

definition get_group_id :: "bytes \<Rightarrow> int" where
  "get_group_id key = from_bytes (py_slice_from key (-4))"

text \<open>
  The form of a hash in the events sent to other processes; \<open>use_int\<close> is the setting
  \<^verbatim>\<open>VLLM_KV_EVENTS_USE_INT_BLOCK_HASHES\<close>. The mask keeps the low 64 bits.
\<close>

datatype external_block_hash = ExtBytes bytes | ExtInt int

definition maybe_convert_block_hash :: "bool \<Rightarrow> bytes \<Rightarrow> external_block_hash" where
  "maybe_convert_block_hash use_int h =
     (if \<not> use_int then ExtBytes h else ExtInt (from_bytes h mod 2 ^ 64))"

lemma length_be_bytes [simp]: "length (be_bytes n v) = n"
  by (induction n arbitrary: v) auto

lemma from_bytes_snoc [simp]: "from_bytes (bs @ [b]) = from_bytes bs * 256 + uint b"
  by (simp add: from_bytes_def)

lemma from_bytes_be_bytes: "0 \<le> v \<Longrightarrow> v < 256 ^ n \<Longrightarrow> from_bytes (be_bytes n v) = v"
proof (induction n arbitrary: v)
  case 0
  then show ?case by (simp add: from_bytes_def)
next
  case (Suc n)
  have "v < 256 * 256 ^ n" using Suc.prems by simp
  then have "v div 256 < 256 ^ n" by linarith
  moreover have "uint (word_of_int (v mod 256) :: 8 word) = v mod 256"
    by (simp add: uint_word_of_int)
  ultimately show ?case using Suc.IH [of "v div 256"] Suc.prems by simp
qed

lemma make_block_hash_ok:
  assumes "0 \<le> g" "g < 2 ^ 32"
  shows "make_block_hash_with_group_id h g = Inr (h @ be_bytes 4 g)"
  using assms by (simp add: make_block_hash_with_group_id_def to_bytes_def)

lemma make_block_hash_eq_Inr:
  "make_block_hash_with_group_id h g = Inr k \<longleftrightarrow> 0 \<le> g \<and> g < 2 ^ 32 \<and> k = h @ be_bytes 4 g"
  by (auto simp: make_block_hash_with_group_id_def to_bytes_def)

lemma get_block_hash_append [simp]: "length b = 4 \<Longrightarrow> get_block_hash (h @ b) = h"
  by (simp add: get_block_hash_def py_slice_to_def slice_bound_def)

lemma get_group_id_append [simp]: "length b = 4 \<Longrightarrow> get_group_id (h @ b) = from_bytes b"
  by (simp add: get_group_id_def py_slice_from_def slice_bound_def)

text \<open>The key determines the hash and the group: two groups never share a cache entry.\<close>

lemma make_block_hash_inj:
  assumes "make_block_hash_with_group_id h g = Inr k" "make_block_hash_with_group_id h' g' = Inr k"
  shows "h = h' \<and> g = g'"
proof -
  from assms have k: "k = h @ be_bytes 4 g" "k = h' @ be_bytes 4 g'" and g: "0 \<le> g" "g < 2 ^ 32" "0 \<le> g'" "g' < 2 ^ 32"
    by (simp_all add: make_block_hash_eq_Inr)
  have "h = get_block_hash k" "g = get_group_id k"
    unfolding k(1) using g by (simp_all add: from_bytes_be_bytes)
  moreover have "h' = get_block_hash k" "g' = get_group_id k"
    unfolding k(2) using g by (simp_all add: from_bytes_be_bytes)
  ultimately show ?thesis by simp
qed


section \<open>Extra keys\<close>

text \<open>
  The elements of the tuple of extra keys as Python has them: the LoRA name and the cache salt
  are both plain strings.
\<close>

datatype py_key = KStr string | KMM string int | KBytes bytes

datatype hash_obj = HSeed string | HBlock bytes "int list" "py_key list option"

record hash_env =
  caching_hash_fn :: "hash_obj \<Rightarrow> bytes"
  NONE_HASH :: bytes
  embeds_digest :: "bytes list \<Rightarrow> bytes"

text \<open>The seed is \<^verbatim>\<open>PYTHONHASHSEED\<close> hashed, or 32 bytes of the system's randomness.\<close>

definition init_none_hash :: "(hash_obj \<Rightarrow> bytes) \<Rightarrow> string option \<Rightarrow> bytes \<Rightarrow> bytes" where
  "init_none_hash hash_fn hash_seed urandom32 =
     (case hash_seed of None \<Rightarrow> urandom32 | Some seed \<Rightarrow> hash_fn (HSeed seed))"

definition need_extra_keys :: "request \<Rightarrow> bool" where
  "need_extra_keys r \<longleftrightarrow> mm_features r \<noteq> [] \<or> lora_request r \<noteq> None \<or> cache_salt r \<noteq> None"

definition feat_offset :: "mm_feature \<Rightarrow> int" where
  "feat_offset f = offset (mm_position f)"

definition feat_end :: "mm_feature \<Rightarrow> int" where
  "feat_end f = offset (mm_position f) + plen (mm_position f)"

text \<open>The loop over the multi-modal inputs, with the accumulated keys and the cursor.\<close>

function mm_loop :: "mm_feature list \<Rightarrow> int \<Rightarrow> int \<Rightarrow> nat \<Rightarrow> py_key list \<Rightarrow> py_key list \<times> nat" where
  "mm_loop feats start_token_idx end_token_idx cur keys =
     (if cur < length feats then
        (let f = feats ! cur in
         if end_token_idx > feat_offset f then
           (if start_token_idx \<ge> feat_end f then
              mm_loop feats start_token_idx end_token_idx (cur + 1) keys
            else
              (let keys' = keys @ [KMM (mm_identifier f) (feat_offset f - start_token_idx)] in
               if end_token_idx \<ge> feat_end f then
                 mm_loop feats start_token_idx end_token_idx (cur + 1) keys'
               else (keys', cur)))
         else (keys, cur))
      else (keys, cur))"
  by pat_completeness auto
termination by (relation "measure (\<lambda>(feats, _, _, cur, _). length feats - cur)") auto

declare mm_loop.simps [simp del]

definition gen_mm_extra_hash_keys :: "request \<Rightarrow> int \<Rightarrow> int \<Rightarrow> int \<Rightarrow> (py_key list \<times> int) result" where
  "gen_mm_extra_hash_keys r start_token_idx end_token_idx start_mm_idx =
     (let feats = mm_features r in
      if feats = [] then Inr ([], start_mm_idx)
      else if feat_end (last feats) \<le> start_token_idx then Inr ([], start_mm_idx)
      else
        ebind (if start_mm_idx < 0
               then eassert (- start_mm_idx \<le> int (length feats)) (Inr (int (length feats) + start_mm_idx))
               else Inr start_mm_idx) (\<lambda>idx.
        (case mm_loop feats start_token_idx end_token_idx (nat idx) [] of
           (keys, cur) \<Rightarrow> Inr (keys, int cur))))"

definition gen_lora_extra_hash_keys :: "request \<Rightarrow> py_key list" where
  "gen_lora_extra_hash_keys r = (case lora_request r of None \<Rightarrow> [] | Some l \<Rightarrow> [KStr (lora_name l)])"

text \<open>The digest of the block's embedding rows, remembered in the request.\<close>

definition gen_prompt_embeds_extra_hash_keys ::
    "hash_env \<Rightarrow> request \<Rightarrow> int \<Rightarrow> int \<Rightarrow> py_key list \<times> request" where
  "gen_prompt_embeds_extra_hash_keys env r start_token_idx end_token_idx =
     (case prompt_embeds r of
        None \<Rightarrow> ([], r)
      | Some rows \<Rightarrow>
          (case dget (embeds_per_block_hashes r) (start_token_idx, end_token_idx) of
             Some h \<Rightarrow> ([KBytes h], r)
           | None \<Rightarrow>
               (let h = embeds_digest env (py_slice rows start_token_idx end_token_idx)
                in ([KBytes h],
                    r\<lparr>embeds_per_block_hashes :=
                        dset (start_token_idx, end_token_idx) h (embeds_per_block_hashes r)\<rparr>))))"

definition cache_salt_keys :: "request \<Rightarrow> int \<Rightarrow> py_key list" where
  "cache_salt_keys r start_token_idx =
     (case cache_salt r of
        None \<Rightarrow> []
      | Some salt \<Rightarrow> if start_token_idx = 0 \<and> salt \<noteq> [] then [KStr salt] else [])"

definition generate_block_hash_extra_keys ::
    "hash_env \<Rightarrow> request \<Rightarrow> int \<Rightarrow> int \<Rightarrow> int \<Rightarrow> (py_key list option \<times> int \<times> request) result" where
  "generate_block_hash_extra_keys env r start_token_idx end_token_idx start_mm_idx =
     ebind (gen_mm_extra_hash_keys r start_token_idx end_token_idx start_mm_idx) (\<lambda>(mm_keys, new_idx).
     (case gen_prompt_embeds_extra_hash_keys env r start_token_idx end_token_idx of
        (embeds_keys, r') \<Rightarrow>
          (let extra_keys = gen_lora_extra_hash_keys r @ mm_keys @ cache_salt_keys r start_token_idx @ embeds_keys
           in Inr (if extra_keys = [] then None else Some extra_keys, new_idx, r'))))"


section \<open>Chained hashes\<close>

definition hash_block_tokens :: "hash_env \<Rightarrow> bytes option \<Rightarrow> int list \<Rightarrow> py_key list option \<Rightarrow> bytes" where
  "hash_block_tokens env parent toks extra_keys =
     (let p = (case parent of None \<Rightarrow> NONE_HASH env | Some h \<Rightarrow> if h = [] then NONE_HASH env else h)
      in caching_hash_fn env (HBlock p toks extra_keys))"

text \<open>
  The loop of \<^verbatim>\<open>request_block_hasher\<close>. Block sizes are positive; the loop of the code does
  not end for any other value, and the definition stops there.
\<close>

function hasher_loop ::
    "hash_env \<Rightarrow> int \<Rightarrow> int \<Rightarrow> int \<Rightarrow> bytes option \<Rightarrow> bytes list \<Rightarrow> request \<Rightarrow> (bytes list \<times> request) result" where
  "hasher_loop env bs start_token_idx cur_mm_idx prev hs r =
     (if start_token_idx + bs > num_tokens r \<or> bs \<le> 0 then Inr (hs, r)
      else
        (case generate_block_hash_extra_keys env r start_token_idx (start_token_idx + bs) cur_mm_idx of
           Inl e \<Rightarrow> Inl e
         | Inr (extra_keys, idx, r') \<Rightarrow>
             (let block_hash = hash_block_tokens env prev
                    (py_slice (all_token_ids r) start_token_idx (start_token_idx + bs)) extra_keys
              in hasher_loop env bs (start_token_idx + bs) idx (Some block_hash) (hs @ [block_hash]) r')))"
  by pat_completeness auto

lemma embeds_keys_request:
  "snd (gen_prompt_embeds_extra_hash_keys env r s e) =
     r\<lparr>embeds_per_block_hashes := embeds_per_block_hashes (snd (gen_prompt_embeds_extra_hash_keys env r s e))\<rparr>"
  by (auto simp: gen_prompt_embeds_extra_hash_keys_def Let_def split: option.splits)

lemma generate_keys_request:
  assumes "generate_block_hash_extra_keys env r s e i = Inr (ks, j, r')"
  shows "r' = r\<lparr>embeds_per_block_hashes := embeds_per_block_hashes r'\<rparr>"
  using assms embeds_keys_request [of env r s e]
  by (cases "gen_prompt_embeds_extra_hash_keys env r s e")
    (auto simp: generate_block_hash_extra_keys_def Let_def)

lemma generate_keys_fields:
  assumes "generate_block_hash_extra_keys env r s e i = Inr (ks, j, r')"
  shows "all_token_ids r' = all_token_ids r" "num_tokens r' = num_tokens r" "mm_features r' = mm_features r"
    "lora_request r' = lora_request r" "cache_salt r' = cache_salt r" "prompt_embeds r' = prompt_embeds r"
    "block_hashes r' = block_hashes r"
  by (subst generate_keys_request [OF assms], simp add: num_tokens_def)+

termination hasher_loop
proof (relation "measure (\<lambda>(_, bs, s, _, _, _, r). nat (num_tokens r - s))", goal_cases)
  case (2 env bs s idx prev hs r p ks q i r' h)
  then show ?case using generate_keys_fields(2) [of env r s "s + bs" idx ks i r'] by auto
qed simp

declare hasher_loop.simps [simp del]

lemma hasher_loop_stop: "num_tokens r < s + bs \<Longrightarrow> hasher_loop env bs s i p hs r = Inr (hs, r)"
  by (simp add: hasher_loop.simps)

lemma hasher_loop_step:
  assumes "s + bs \<le> num_tokens r" "0 < bs" "generate_block_hash_extra_keys env r s (s + bs) i = Inr (ks, j, r')"
  shows "hasher_loop env bs s i p hs r =
    hasher_loop env bs (s + bs) j (Some (hash_block_tokens env p (py_slice (all_token_ids r) s (s + bs)) ks))
      (hs @ [hash_block_tokens env p (py_slice (all_token_ids r) s (s + bs)) ks]) r'"
  using assms by (simp add: hasher_loop.simps [of env bs s i p hs r] Let_def)

definition request_block_hasher :: "hash_env \<Rightarrow> int \<Rightarrow> request \<Rightarrow> (bytes list \<times> request) result" where
  "request_block_hasher env bs r =
     (let start_token_idx = int (length (block_hashes r)) * bs in
      if start_token_idx + bs > num_tokens r then Inr ([], r)
      else
        hasher_loop env bs start_token_idx (if start_token_idx > 0 then -1 else 0)
          (if block_hashes r \<noteq> [] then Some (last (block_hashes r)) else None) [] r)"

text \<open>The hasher requests are built with when caching is configured.\<close>

definition get_request_block_hasher :: "int \<Rightarrow> hash_env \<Rightarrow> block_hasher" where
  "get_request_block_hasher bs env = Some (request_block_hasher env bs)"


section \<open>Views at a coarser block size\<close>

text \<open>
  \<open>HashView hs k\<close> is \<^verbatim>\<open>BlockHashListWithBlockSize\<close> with \<^verbatim>\<open>scale_factor\<close> \<open>k\<close>: its entry \<open>i\<close> is
  the last fine-grained hash of the coarse block \<open>i\<close>.
\<close>

datatype block_hash_list = HashList "bytes list" | HashView "bytes list" int

definition new_hash_view :: "bytes list \<Rightarrow> int \<Rightarrow> int \<Rightarrow> block_hash_list result" where
  "new_hash_view hs hash_block_size target_block_size =
     eassert (target_block_size mod hash_block_size = 0)
       (Inr (HashView hs (target_block_size div hash_block_size)))"

fun bhl_len :: "block_hash_list \<Rightarrow> int" where
  "bhl_len (HashList hs) = int (length hs)"
| "bhl_len (HashView hs k) = int (length hs) div k"

fun bhl_get :: "block_hash_list \<Rightarrow> int \<Rightarrow> bytes result" where
  "bhl_get (HashList hs) i = py_index hs i"
| "bhl_get (HashView hs k) i = py_index hs ((i + 1) * k - 1)"

text \<open>\<^verbatim>\<open>view[a:]\<close>, the only slice the code takes: the entries from \<open>a\<close> on, the bound clamped.\<close>

fun bhl_slice_from :: "block_hash_list \<Rightarrow> int \<Rightarrow> bytes list result" where
  "bhl_slice_from (HashList hs) a = Inr (py_slice_from hs a)"
| "bhl_slice_from (HashView hs k) a =
     (let n = nat (int (length hs) div k)
      in emap (\<lambda>i. bhl_get (HashView hs k) (int i)) [slice_bound n a..<n])"

definition resolve_block_hashes ::
    "block_hash_list \<Rightarrow> int \<Rightarrow> int \<Rightarrow> bool \<Rightarrow> int option \<Rightarrow> block_hash_list result" where
  "resolve_block_hashes bh hash_block_size block_size fine_grained alignment_tokens =
     (if block_size = hash_block_size then Inr bh
      else case bh of
        HashView hs k \<Rightarrow> eassert (k = block_size div hash_block_size) (Inr bh)
      | HashList hs \<Rightarrow>
          if fine_grained \<and>
             (case alignment_tokens of None \<Rightarrow> False
              | Some a \<Rightarrow> a < block_size \<and> block_size mod a = 0)
          then Inr bh
          else eassert (block_size mod hash_block_size = 0)
                 (new_hash_view hs hash_block_size block_size))"


section \<open>Reference definition of the hashes\<close>

text \<open>
  The keys of a block by inspection of every multi-modal input, without a cursor, and the
  hash of block \<open>i\<close> by recursion on \<open>i\<close>.
\<close>

definition overlaps :: "int \<Rightarrow> int \<Rightarrow> mm_feature \<Rightarrow> bool" where
  "overlaps s e f \<longleftrightarrow> feat_offset f < e \<and> s < feat_end f"

definition block_mm_keys :: "mm_feature list \<Rightarrow> int \<Rightarrow> int \<Rightarrow> py_key list" where
  "block_mm_keys feats s e =
     map (\<lambda>f. KMM (mm_identifier f) (feat_offset f - s)) (filter (overlaps s e) feats)"

definition block_extra_keys :: "hash_env \<Rightarrow> request \<Rightarrow> int \<Rightarrow> int \<Rightarrow> py_key list option" where
  "block_extra_keys env r s e =
     (let ks = gen_lora_extra_hash_keys r @ block_mm_keys (mm_features r) s e @ cache_salt_keys r s @
            (case prompt_embeds r of None \<Rightarrow> [] | Some rows \<Rightarrow> [KBytes (embeds_digest env (py_slice rows s e))])
      in if ks = [] then None else Some ks)"

definition block_tokens :: "int \<Rightarrow> request \<Rightarrow> nat \<Rightarrow> int list" where
  "block_tokens bs r i = py_slice (all_token_ids r) (int i * bs) (int i * bs + bs)"

definition block_keys :: "hash_env \<Rightarrow> int \<Rightarrow> request \<Rightarrow> nat \<Rightarrow> py_key list option" where
  "block_keys env bs r i = block_extra_keys env r (int i * bs) (int i * bs + bs)"

primrec block_hash_at :: "hash_env \<Rightarrow> int \<Rightarrow> request \<Rightarrow> nat \<Rightarrow> bytes" where
  "block_hash_at env bs r 0 = hash_block_tokens env None (block_tokens bs r 0) (block_keys env bs r 0)"
| "block_hash_at env bs r (Suc i) =
     hash_block_tokens env (Some (block_hash_at env bs r i)) (block_tokens bs r (Suc i)) (block_keys env bs r (Suc i))"

definition full_block_count :: "int \<Rightarrow> request \<Rightarrow> nat" where
  "full_block_count bs r = nat (num_tokens r div bs)"

definition block_hash_chain :: "hash_env \<Rightarrow> int \<Rightarrow> request \<Rightarrow> bytes list" where
  "block_hash_chain env bs r = map (block_hash_at env bs r) [0..<full_block_count bs r]"

text \<open>The multi-modal inputs are in the order of their positions and do not overlap.\<close>

definition mm_ordered :: "mm_feature list \<Rightarrow> bool" where
  "mm_ordered feats \<longleftrightarrow>
     sorted_wrt (\<lambda>f g. feat_end f \<le> feat_offset g) feats \<and> list_all (\<lambda>f. feat_offset f \<le> feat_end f) feats"

definition memo_ok :: "hash_env \<Rightarrow> request \<Rightarrow> bool" where
  "memo_ok env r \<longleftrightarrow>
     list_all (\<lambda>((s, e), h). \<forall>rows. prompt_embeds r = Some rows \<longrightarrow> h = embeds_digest env (py_slice rows s e))
       (embeds_per_block_hashes r)"

definition cursor_ok :: "mm_feature list \<Rightarrow> int \<Rightarrow> int \<Rightarrow> bool" where
  "cursor_ok feats s idx \<longleftrightarrow>
     (if idx < 0 then idx = -1 \<and> (\<forall>i. Suc i < length feats \<longrightarrow> feat_end (feats ! i) \<le> s)
      else nat idx \<le> length feats \<and> (\<forall>i < nat idx. feat_end (feats ! i) \<le> s))"

lemma mm_ordered_drop:
  assumes "mm_ordered feats" "i < length feats" "g \<in> set (drop (Suc i) feats)"
  shows "feat_offset (feats ! i) \<le> feat_end (feats ! i)" "feat_end (feats ! i) \<le> feat_offset g"
proof -
  show "feat_offset (feats ! i) \<le> feat_end (feats ! i)"
    using assms by (auto simp: mm_ordered_def list_all_length)
  from assms(3) obtain j where "j < length feats - Suc i" "g = feats ! (Suc i + j)"
    by (auto simp: in_set_conv_nth)
  then show "feat_end (feats ! i) \<le> feat_offset g"
    using assms sorted_wrt_nth_less [of "\<lambda>f g. feat_end f \<le> feat_offset g" feats i "Suc i + j"]
    by (simp add: mm_ordered_def)
qed

lemma mm_ordered_last: "mm_ordered feats \<Longrightarrow> feats \<noteq> [] \<Longrightarrow> feat_offset (last feats) \<le> feat_end (last feats)"
  by (simp add: mm_ordered_def list_all_iff)

lemma block_mm_keys_Nil: "(\<And>f. f \<in> set feats \<Longrightarrow> \<not> overlaps s e f) \<Longrightarrow> block_mm_keys feats s e = []"
  by (auto simp: block_mm_keys_def filter_empty_conv)

lemma mm_loop_ok:
  assumes "mm_ordered feats" "cur \<le> length feats" "\<And>i. i < cur \<Longrightarrow> feat_end (feats ! i) \<le> e" "s \<le> e"
  shows "\<exists>c. mm_loop feats s e cur keys = (keys @ block_mm_keys (drop cur feats) s e, c) \<and>
    c \<le> length feats \<and> (\<forall>i < c. feat_end (feats ! i) \<le> e)"
  using assms(2,3)
proof (induction "length feats - cur" arbitrary: cur keys)
  case 0
  then show ?case by (auto simp: mm_loop.simps [of feats s e cur] block_mm_keys_def)
next
  case (Suc n)
  define f where "f = feats ! cur"
  have len: "cur < length feats" using Suc.hyps by linarith
  then have drop: "drop cur feats = f # drop (Suc cur) feats" by (simp add: f_def Cons_nth_drop_Suc)
  note ord = mm_ordered_drop [OF assms(1) len, folded f_def]
  show ?case
  proof (cases "e > feat_offset f \<and> feat_end f \<le> e")
    case True
    have inv: "\<And>i. i < Suc cur \<Longrightarrow> feat_end (feats ! i) \<le> e"
      using True Suc.prems by (auto simp: less_Suc_eq f_def)
    define keys' where "keys' = (if s \<ge> feat_end f then keys else keys @ [KMM (mm_identifier f) (feat_offset f - s)])"
    have "mm_loop feats s e cur keys = mm_loop feats s e (Suc cur) keys'"
      using True len by (subst mm_loop.simps) (simp add: f_def keys'_def Let_def)
    moreover have "keys @ block_mm_keys (drop cur feats) s e = keys' @ block_mm_keys (drop (Suc cur) feats) s e"
      using True by (auto simp: drop block_mm_keys_def overlaps_def keys'_def)
    ultimately show ?thesis using Suc.hyps(1) [of "Suc cur" keys'] Suc.hyps(2) inv len by auto
  next
    case False
    have "block_mm_keys (drop (Suc cur) feats) s e = []"
      using False ord by (intro block_mm_keys_Nil) (force simp: overlaps_def)
    then have "block_mm_keys (drop cur feats) s e =
        (if feat_offset f < e \<and> s < feat_end f then [KMM (mm_identifier f) (feat_offset f - s)] else [])"
      by (simp add: drop block_mm_keys_def overlaps_def)
    then show ?thesis
      using False len Suc.prems assms(4) by (subst mm_loop.simps) (auto simp: f_def Let_def)
  qed
qed

lemma gen_mm_keys_ok:
  assumes ord: "mm_ordered (mm_features r)" and cur: "cursor_ok (mm_features r) s idx" and se: "s \<le> e"
  shows "\<exists>j. gen_mm_extra_hash_keys r s e idx = Inr (block_mm_keys (mm_features r) s e, j) \<and>
    cursor_ok (mm_features r) e j"
proof -
  define feats where "feats = mm_features r"
  define c where "c = (if idx < 0 then length feats - 1 else nat idx)"
  have weaken: "cursor_ok feats e idx" using cur se by (force simp: cursor_ok_def feats_def)
  show ?thesis
  proof (cases "feats = [] \<or> feat_end (last feats) \<le> s")
    case True
    have "\<not> overlaps s e f" if "f \<in> set feats" for f
    proof -
      from that obtain i where i: "i < length feats" "f = feats ! i" by (auto simp: in_set_conv_nth)
      have "feat_end f \<le> feat_end (last feats)"
      proof (cases "Suc i < length feats")
        case True
        then have "last feats \<in> set (drop (Suc i) feats)"
          using last_in_set [of "drop (Suc i) feats"] by (simp add: last_drop)
        from mm_ordered_drop(2) [OF _ _ this] i ord mm_ordered_last [OF ord] show ?thesis
          by (force simp: feats_def)
      next
        case False
        with i have "feats \<noteq> []" "i = length feats - 1" by auto
        with i show ?thesis by (simp add: last_conv_nth)
      qed
      with True that show ?thesis by (auto simp: overlaps_def)
    qed
    then have "block_mm_keys feats s e = []" by (rule block_mm_keys_Nil)
    with True weaken show ?thesis by (auto simp: gen_mm_extra_hash_keys_def feats_def Let_def)
  next
    case False
    have c: "c \<le> length feats" "\<And>i. i < c \<Longrightarrow> feat_end (feats ! i) \<le> s"
      using cur False by (auto simp: cursor_ok_def c_def feats_def split: if_splits)
    have "\<not> overlaps s e f" if "f \<in> set (take c feats)" for f
    proof -
      from that c(1) obtain i where "i < c" "f = feats ! i" by (auto simp: in_set_conv_nth)
      with c(2) [of i] show ?thesis by (simp add: overlaps_def)
    qed
    then have keys: "block_mm_keys feats s e = block_mm_keys (drop c feats) s e"
      by (metis (no_types, lifting) append_take_drop_id block_mm_keys_Nil block_mm_keys_def filter_append map_append self_append_conv2)
    from mm_loop_ok [of feats c e s "[]"] ord c se obtain c' where
      "mm_loop feats s e c [] = (block_mm_keys (drop c feats) s e, c')" "c' \<le> length feats"
      "\<forall>i < c'. feat_end (feats ! i) \<le> e" by (fastforce simp: feats_def)
    moreover have "(if idx < 0 then eassert (- idx \<le> int (length feats)) (Inr (int (length feats) + idx)) else Inr idx) = Inr (int c)"
      using cur False by (cases feats) (auto simp: c_def cursor_ok_def feats_def)
    ultimately show ?thesis
      using False keys by (auto simp: gen_mm_extra_hash_keys_def Let_def cursor_ok_def simp flip: feats_def)
  qed
qed

lemma generate_keys_ok:
  assumes "mm_ordered (mm_features r)" "cursor_ok (mm_features r) s idx" "s \<le> e" "memo_ok env r"
  shows "\<exists>j r'. generate_block_hash_extra_keys env r s e idx = Inr (block_extra_keys env r s e, j, r') \<and>
    cursor_ok (mm_features r) e j \<and> memo_ok env r' \<and> (\<exists>m. r' = r\<lparr>embeds_per_block_hashes := m\<rparr>)"
proof -
  obtain j where j: "gen_mm_extra_hash_keys r s e idx = Inr (block_mm_keys (mm_features r) s e, j)"
    "cursor_ok (mm_features r) e j" using gen_mm_keys_ok [OF assms(1-3)] by blast
  obtain ks r' where k: "gen_prompt_embeds_extra_hash_keys env r s e = (ks, r')"
    by (cases "gen_prompt_embeds_extra_hash_keys env r s e")
  have ks: "ks = (case prompt_embeds r of None \<Rightarrow> [] | Some rows \<Rightarrow> [KBytes (embeds_digest env (py_slice rows s e))])"
    and r': "memo_ok env r'"
    using k assms(4)
    by (auto simp: gen_prompt_embeds_extra_hash_keys_def memo_ok_def list_all_iff Let_def split: option.splits
        dest!: set_dset map_of_SomeD)
  have "\<exists>m. r' = r\<lparr>embeds_per_block_hashes := m\<rparr>"
    using embeds_keys_request [of env r s e] k by auto
  with j k ks r' show ?thesis
    by (auto simp: generate_block_hash_extra_keys_def block_extra_keys_def Let_def)
qed


lemma upt_append: "k \<le> n \<Longrightarrow> [0..<k] @ [k..<n] = [0..<n]"
  using upt_add_eq_append [of 0 k "n - k"] by simp

lemma block_hash_at_memo [simp]:
  "block_hash_at env bs (r\<lparr>embeds_per_block_hashes := m\<rparr>) i = block_hash_at env bs r i"
  by (induction i)
    (simp_all add: block_tokens_def block_keys_def block_extra_keys_def gen_lora_extra_hash_keys_def cache_salt_keys_def)

lemma block_hash_at_hashes [simp]:
  "block_hash_at env bs (r\<lparr>block_hashes := hs\<rparr>) i = block_hash_at env bs r i"
  by (induction i)
    (simp_all add: block_tokens_def block_keys_def block_extra_keys_def gen_lora_extra_hash_keys_def cache_salt_keys_def)

lemma block_hash_at_skip [simp]:
  "block_hash_at env bs (r\<lparr>skip_reading_prefix_cache := b\<rparr>) i = block_hash_at env bs r i"
  by (induction i)
    (simp_all add: block_tokens_def block_keys_def block_extra_keys_def gen_lora_extra_hash_keys_def cache_salt_keys_def)

lemma hash_fields_memo [simp]:
  "num_tokens (r\<lparr>embeds_per_block_hashes := m\<rparr>) = num_tokens r"
  "full_block_count bs (r\<lparr>embeds_per_block_hashes := m\<rparr>) = full_block_count bs r"
  "full_block_count bs (r\<lparr>block_hashes := hs\<rparr>) = full_block_count bs r"
  by (simp_all add: num_tokens_def full_block_count_def)

lemma less_full_block_count: "0 < bs \<Longrightarrow> k < full_block_count bs r \<longleftrightarrow> int k * bs + bs \<le> num_tokens r"
proof -
  assume bs: "0 < bs"
  have "k < full_block_count bs r \<longleftrightarrow> int (Suc k) \<le> num_tokens r div bs"
    by (auto simp: full_block_count_def)
  also have "\<dots> \<longleftrightarrow> int (Suc k) * bs \<le> num_tokens r"
    using bs by (simp add: le_div_iff_mult_le)
  finally show ?thesis by (simp add: algebra_simps)
qed

definition prev_hash :: "hash_env \<Rightarrow> int \<Rightarrow> request \<Rightarrow> nat \<Rightarrow> bytes option" where
  "prev_hash env bs r k = (case k of 0 \<Rightarrow> None | Suc i \<Rightarrow> Some (block_hash_at env bs r i))"

lemma block_hash_at_prev:
  "block_hash_at env bs r k = hash_block_tokens env (prev_hash env bs r k) (block_tokens bs r k) (block_keys env bs r k)"
  by (cases k) (simp_all add: prev_hash_def)

lemma prev_hash_memo [simp]: "prev_hash env bs (r\<lparr>embeds_per_block_hashes := m\<rparr>) k = prev_hash env bs r k"
  by (simp add: prev_hash_def split: nat.splits)

lemma hasher_loop_ok:
  assumes bs: "0 < bs" and "mm_ordered (mm_features r)" "cursor_ok (mm_features r) (int k * bs) idx" "memo_ok env r"
    and "k \<le> full_block_count bs r"
  shows "\<exists>r'. hasher_loop env bs (int k * bs) idx (prev_hash env bs r k) hs r =
      Inr (hs @ map (block_hash_at env bs r) [k..<full_block_count bs r], r') \<and>
    memo_ok env r' \<and> (\<exists>m. r' = r\<lparr>embeds_per_block_hashes := m\<rparr>)"
  using assms(2-)
proof (induction "full_block_count bs r - k" arbitrary: k idx hs r)
  case 0
  then have "\<not> k < full_block_count bs r" by simp
  then have "hasher_loop env bs (int k * bs) idx (prev_hash env bs r k) hs r = Inr (hs, r)"
    unfolding less_full_block_count [OF bs] by (intro hasher_loop_stop) simp
  moreover have "map (block_hash_at env bs r) [k..<full_block_count bs r] = []" using 0 by simp
  moreover have "\<exists>m. r = r\<lparr>embeds_per_block_hashes := m\<rparr>" by (rule exI [of _ "embeds_per_block_hashes r"]) simp
  ultimately show ?case using 0(4) by (intro exI [of _ r] conjI) (simp_all only: append_Nil2)
next
  case (Suc n)
  then have k: "k < full_block_count bs r" by simp
  obtain j r1 m where g: "generate_block_hash_extra_keys env r (int k * bs) (int k * bs + bs) idx =
      Inr (block_keys env bs r k, j, r1)" "cursor_ok (mm_features r) (int k * bs + bs) j" "memo_ok env r1"
      and r1: "r1 = r\<lparr>embeds_per_block_hashes := m\<rparr>"
    using generate_keys_ok [OF Suc.prems(1,2) _ Suc.prems(3), of "int k * bs + bs"] bs
    by (auto simp: block_keys_def)
  have eq: "int k * bs + bs = int (Suc k) * bs" by (simp add: algebra_simps)
  have h: "hash_block_tokens env (prev_hash env bs r k)
      (py_slice (all_token_ids r) (int k * bs) (int k * bs + bs)) (block_keys env bs r k) = block_hash_at env bs r k"
    by (subst block_hash_at_prev) (simp only: block_tokens_def)
  have "hasher_loop env bs (int k * bs) idx (prev_hash env bs r k) hs r =
      hasher_loop env bs (int k * bs + bs) j (Some (block_hash_at env bs r k)) (hs @ [block_hash_at env bs r k]) r1"
    using hasher_loop_step [OF _ bs g(1), of "prev_hash env bs r k" hs] k
    unfolding less_full_block_count [OF bs] by (simp only: h simp_thms)
  then have step: "hasher_loop env bs (int k * bs) idx (prev_hash env bs r k) hs r =
      hasher_loop env bs (int (Suc k) * bs) j (prev_hash env bs r1 (Suc k)) (hs @ [block_hash_at env bs r k]) r1"
    by (simp only: eq) (simp add: prev_hash_def r1)
  have "\<exists>r'. hasher_loop env bs (int (Suc k) * bs) j (prev_hash env bs r1 (Suc k)) (hs @ [block_hash_at env bs r k]) r1 =
      Inr ((hs @ [block_hash_at env bs r k]) @ map (block_hash_at env bs r1) [Suc k..<full_block_count bs r1], r') \<and>
    memo_ok env r' \<and> (\<exists>m. r' = r1\<lparr>embeds_per_block_hashes := m\<rparr>)"
    by (rule Suc.hyps(1)) (use Suc.hyps(2) Suc.prems g k eq in \<open>simp_all add: r1\<close>)
  then show ?case using k by (auto simp: step r1 upt_conv_Cons)
qed


section \<open>The hashes of a request over its life\<close>

text \<open>The hash list of a request is the chain over its full blocks.\<close>

definition hashes_ok :: "hash_env \<Rightarrow> int \<Rightarrow> request \<Rightarrow> bool" where
  "hashes_ok env bs r \<longleftrightarrow> block_hashes r = block_hash_chain env bs r \<and> memo_ok env r"

lemma block_tokens_take:
  assumes "0 < bs"
  shows "block_tokens bs r j = drop (nat (int j * bs)) (take (nat (int (Suc j) * bs)) (all_token_ids r))"
proof -
  have "nat (int j * bs + bs) = nat (int (Suc j) * bs)" by (simp add: algebra_simps)
  with assms show ?thesis by (simp add: block_tokens_def py_slice_nat drop_take)
qed

lemma block_keys_fields:
  assumes "mm_features r' = mm_features r" "lora_request r' = lora_request r" "cache_salt r' = cache_salt r"
    "prompt_embeds r' = prompt_embeds r"
  shows "block_keys env bs r' j = block_keys env bs r j"
  using assms by (simp add: block_keys_def block_extra_keys_def gen_lora_extra_hash_keys_def cache_salt_keys_def)

lemma block_hash_at_cong:
  assumes "\<And>j. j \<le> i \<Longrightarrow> block_tokens bs r' j = block_tokens bs r j \<and> block_keys env bs r' j = block_keys env bs r j"
  shows "block_hash_at env bs r' i = block_hash_at env bs r i"
  using assms by (induction i) simp_all

lemma chain_append:
  assumes "0 < bs" "all_token_ids r' = all_token_ids r @ ts"
    "mm_features r' = mm_features r" "lora_request r' = lora_request r" "cache_salt r' = cache_salt r"
    "prompt_embeds r' = prompt_embeds r"
  shows "full_block_count bs r \<le> full_block_count bs r'"
    and "i < full_block_count bs r \<Longrightarrow> block_hash_at env bs r' i = block_hash_at env bs r i"
proof -
  show "full_block_count bs r \<le> full_block_count bs r'"
    using assms(1,2) by (auto simp: full_block_count_def num_tokens_def intro!: nat_mono zdiv_mono1)
  assume i: "i < full_block_count bs r"
  show "block_hash_at env bs r' i = block_hash_at env bs r i"
  proof (rule block_hash_at_cong)
    fix j assume "j \<le> i"
    with i have "int (Suc j) * bs \<le> num_tokens r"
      using less_full_block_count [OF assms(1), of j r] by (simp add: algebra_simps)
    then have "take (nat (int (Suc j) * bs)) (all_token_ids r') = take (nat (int (Suc j) * bs)) (all_token_ids r)"
      using assms(2) by (simp add: num_tokens_def nat_le_iff)
    then show "block_tokens bs r' j = block_tokens bs r j \<and> block_keys env bs r' j = block_keys env bs r j"
      using block_keys_fields [OF assms(3-6)] assms(1) by (simp only: block_tokens_take simp_thms)
  qed
qed

text \<open>
  Hashing the blocks completed since the last time. The cursor restarts at the last
  multi-modal input, so all others have to end before the first unhashed block.
\<close>

lemma update_block_hashes_ok:
  assumes bs: "0 < bs" and mm: "mm_ordered (mm_features r)" and memo: "memo_ok env r"
    and k: "k \<le> full_block_count bs r" "block_hashes r = map (block_hash_at env bs r) [0..<k]"
    and cur: "k > 0 \<Longrightarrow> \<forall>f \<in> set (butlast (mm_features r)). feat_end f \<le> int k * bs"
  shows "\<exists>r'. update_block_hashes (get_request_block_hasher bs env) r = Inr r' \<and> hashes_ok env bs r' \<and>
    (\<exists>m hs. r' = r\<lparr>embeds_per_block_hashes := m, block_hashes := hs\<rparr>)"
proof (cases "k < full_block_count bs r")
  case True
  have c: "cursor_ok (mm_features r) (int k * bs) (if int k * bs > 0 then -1 else 0)"
  proof (cases "k = 0")
    case False
    have "feat_end (mm_features r ! i) \<le> int k * bs" if "Suc i < length (mm_features r)" for i
    proof -
      have "mm_features r ! i = butlast (mm_features r) ! i" using that by (simp add: nth_butlast)
      then have "mm_features r ! i \<in> set (butlast (mm_features r))" using that by (auto intro: nth_mem)
      with cur False show ?thesis by simp
    qed
    with False bs show ?thesis by (simp add: cursor_ok_def)
  qed (simp add: cursor_ok_def)
  have prev: "(if block_hashes r \<noteq> [] then Some (last (block_hashes r)) else None) = prev_hash env bs r k"
    using k(2) by (cases k) (auto simp: prev_hash_def)
  obtain r1 m where h: "hasher_loop env bs (int k * bs) (if int k * bs > 0 then -1 else 0) (prev_hash env bs r k) [] r =
      Inr (map (block_hash_at env bs r) [k..<full_block_count bs r], r1)" "memo_ok env r1"
      "r1 = r\<lparr>embeds_per_block_hashes := m\<rparr>"
    using hasher_loop_ok [OF bs mm c memo k(1), of "[]"] by auto
  have "request_block_hasher env bs r = Inr (map (block_hash_at env bs r) [k..<full_block_count bs r], r1)"
    using True h k prev bs by (simp add: request_block_hasher_def less_full_block_count Let_def)
  moreover have "block_hashes r @ map (block_hash_at env bs r) [k..<full_block_count bs r] = block_hash_chain env bs r"
    using k by (simp add: block_hash_chain_def upt_append flip: map_append)
  ultimately show ?thesis
    using h by (auto simp: update_block_hashes_def get_request_block_hasher_def hashes_ok_def block_hash_chain_def
        memo_ok_def block_hash_at_hashes)
next
  case False
  then have "k = full_block_count bs r" using k by simp
  with k memo have "hashes_ok env bs r" by (simp add: hashes_ok_def block_hash_chain_def)
  moreover have "request_block_hasher env bs r = Inr ([], r)"
    using False k bs by (simp add: request_block_hasher_def less_full_block_count Let_def)
  moreover have "\<exists>m hs. r = r\<lparr>embeds_per_block_hashes := m, block_hashes := hs\<rparr>"
    by (rule exI [of _ "embeds_per_block_hashes r"], rule exI [of _ "block_hashes r"]) simp
  ultimately show ?thesis
    by (simp add: update_block_hashes_def get_request_block_hasher_def)
qed


lemma hashes_ok_append:
  assumes bs: "0 < bs" and mm: "mm_ordered (mm_features r)" and ok: "hashes_ok env bs r"
    and cur: "\<forall>f \<in> set (butlast (mm_features r)). feat_end f \<le> int (full_block_count bs r) * bs"
  shows "\<exists>r'. append_output_token_ids (get_request_block_hasher bs env) ts r = Inr r' \<and> hashes_ok env bs r' \<and>
    all_token_ids r' = all_token_ids r @ ts \<and> mm_features r' = mm_features r"
proof -
  define r1 where "r1 = r\<lparr>output_token_ids := output_token_ids r @ ts, all_token_ids := all_token_ids r @ ts\<rparr>"
  have f: "all_token_ids r1 = all_token_ids r @ ts" "mm_features r1 = mm_features r" "lora_request r1 = lora_request r"
    "cache_salt r1 = cache_salt r" "prompt_embeds r1 = prompt_embeds r" "block_hashes r1 = block_hashes r"
    by (simp_all add: r1_def)
  note ch = chain_append [OF bs f(1-5)]
  have memo: "memo_ok env r1" using ok by (simp add: hashes_ok_def memo_ok_def r1_def)
  have "block_hashes r1 = map (block_hash_at env bs r1) [0..<full_block_count bs r]"
    using ok by (simp add: f hashes_ok_def block_hash_chain_def ch(2))
  from update_block_hashes_ok [OF bs _ memo ch(1) this] mm cur f
  obtain r' where "update_block_hashes (get_request_block_hasher bs env) r1 = Inr r'" "hashes_ok env bs r'"
    "\<exists>m hs. r' = r1\<lparr>embeds_per_block_hashes := m, block_hashes := hs\<rparr>" by auto
  then show ?thesis using f by (auto simp: append_output_token_ids_def r1_def)
qed

lemma full_block_count_mono:
  "0 < bs \<Longrightarrow> length (all_token_ids r) \<le> length (all_token_ids r') \<Longrightarrow> full_block_count bs r \<le> full_block_count bs r'"
  by (auto simp: full_block_count_def num_tokens_def intro!: nat_mono zdiv_mono1)

lemma hashes_ok_appends:
  assumes bs: "0 < bs" and "mm_ordered (mm_features r)" "hashes_ok env bs r"
    and "\<forall>f \<in> set (butlast (mm_features r)). feat_end f \<le> int (full_block_count bs r) * bs"
  shows "\<exists>r'. efold (append_output_token_ids (get_request_block_hasher bs env)) tss r = Inr r' \<and>
    hashes_ok env bs r' \<and> all_token_ids r' = all_token_ids r @ concat tss"
  using assms(2-)
proof (induction tss arbitrary: r)
  case (Cons ts tss)
  from hashes_ok_append [OF bs Cons.prems, of ts] obtain r1 where
    r1: "append_output_token_ids (get_request_block_hasher bs env) ts r = Inr r1" "hashes_ok env bs r1"
      "all_token_ids r1 = all_token_ids r @ ts" "mm_features r1 = mm_features r" by blast
  have "int (full_block_count bs r) * bs \<le> int (full_block_count bs r1) * bs"
    using bs full_block_count_mono [OF bs, of r r1] r1(3) by (simp add: mult_right_mono)
  then have "\<forall>f \<in> set (butlast (mm_features r1)). feat_end f \<le> int (full_block_count bs r1) * bs"
    using Cons.prems(3) r1(4) by fastforce
  from Cons.IH [OF _ r1(2) this] Cons.prems r1 show ?case by auto
qed simp

lemma new_request_hashes:
  assumes "0 < bs" "mm_ordered mms"
    "new_request (get_request_block_hasher bs env) oid rid toks sp pp arrival embeds mms lora salt prio structured = Inr r"
  shows "hashes_ok env bs r" "mm_features r = mms"
proof -
  obtain mt st n r1 where
    up: "update_block_hashes (get_request_block_hasher bs env)
        (init_request oid rid toks sp pp arrival embeds mms lora salt prio structured mt st n) = Inr r1"
      "r = r1\<lparr>skip_reading_prefix_cache := get_skip_reading_prefix_cache sp pp\<rparr>"
    using assms(3) by (auto simp: new_request_def)
  define r0 where "r0 = init_request oid rid toks sp pp arrival embeds mms lora salt prio structured mt st n"
  have r0: "block_hashes r0 = []" "embeds_per_block_hashes r0 = []" "mm_features r0 = mms"
    by (simp_all add: r0_def init_request_def)
  have "memo_ok env r0" using r0 by (simp add: memo_ok_def)
  from update_block_hashes_ok [OF assms(1) _ this, of 0] r0 assms(2) up(1) have
    r1: "hashes_ok env bs r1" "\<exists>m hs. r1 = r0\<lparr>embeds_per_block_hashes := m, block_hashes := hs\<rparr>"
    by (auto simp: r0_def)
  show "hashes_ok env bs r"
    using r1(1) unfolding up(2) by (simp add: hashes_ok_def block_hash_chain_def memo_ok_def block_hash_at_skip full_block_count_def num_tokens_def)
  show "mm_features r = mms" using r1(2) r0(3) up(2) by auto
qed


text \<open>
  A request as the constructor and the generated tokens make it, in which only the last multi-modal input may reach into the first block
  the prompt does not fill.
\<close>

inductive built :: "hash_env \<Rightarrow> int \<Rightarrow> request \<Rightarrow> bool" where
  built: "new_request (get_request_block_hasher bs env) oid rid toks sp pp arrival embeds mms lora salt prio structured = Inr r0 \<Longrightarrow>
    mm_ordered mms \<Longrightarrow> (\<forall>f \<in> set (butlast mms). feat_end f \<le> int (full_block_count bs r0) * bs) \<Longrightarrow>
    efold (append_output_token_ids (get_request_block_hasher bs env)) tss r0 = Inr r \<Longrightarrow> built env bs r"

lemma built_hashes_ok: "built env bs r \<Longrightarrow> 0 < bs \<Longrightarrow> hashes_ok env bs r"
proof (induction rule: built.induct)
  case (built bs env oid rid toks sp pp arrival embeds mms lora salt prio structured r0 tss r)
  note n = new_request_hashes [OF built.prems built.hyps(2,1)]
  from hashes_ok_appends [OF built.prems _ n(1), of tss] n(2) built.hyps(2-4) show ?case by auto
qed


section \<open>Collision-free hashing\<close>

definition hash_input :: "hash_env \<Rightarrow> int \<Rightarrow> request \<Rightarrow> nat \<Rightarrow> hash_obj" where
  "hash_input env bs r i =
     HBlock (case prev_hash env bs r i of
               None \<Rightarrow> NONE_HASH env | Some h \<Rightarrow> if h = [] then NONE_HASH env else h)
       (block_tokens bs r i) (block_keys env bs r i)"

lemma block_hash_at_input: "block_hash_at env bs r i = caching_hash_fn env (hash_input env bs r i)"
  by (subst block_hash_at_prev) (simp add: hash_block_tokens_def hash_input_def Let_def)

definition hash_inputs :: "hash_env \<Rightarrow> int \<Rightarrow> request \<Rightarrow> hash_obj list" where
  "hash_inputs env bs r = map (hash_input env bs r) [0..<full_block_count bs r]"

text \<open>
  What caching relies on of the hash function, on the inputs it is called with: no two of
  them collide, and none hashes to the seed of the chain or to the empty string.
\<close>

definition collision_free :: "hash_env \<Rightarrow> hash_obj list \<Rightarrow> bool" where
  "collision_free env xs \<longleftrightarrow>
     inj_on (caching_hash_fn env) (set xs) \<and> NONE_HASH env \<notin> caching_hash_fn env ` set xs \<and>
     [] \<notin> caching_hash_fn env ` set xs"

lemma block_tokens_prefix:
  assumes "0 < bs" "\<And>k. k \<le> i \<Longrightarrow> block_tokens bs r1 k = block_tokens bs r2 k"
  shows "take (nat (int (Suc i) * bs)) (all_token_ids r1) = take (nat (int (Suc i) * bs)) (all_token_ids r2)"
  using assms(2)
proof (induction i)
  case 0
  from 0 [of 0] assms(1) show ?case by (simp add: block_tokens_take)
next
  case (Suc i)
  have split: "take (nat (int (Suc (Suc i)) * bs)) xs =
      take (nat (int (Suc i) * bs)) xs @ drop (nat (int (Suc i) * bs)) (take (nat (int (Suc (Suc i)) * bs)) xs)"
    for xs :: "int list"
  proof -
    have "int (Suc i) * bs \<le> int (Suc (Suc i)) * bs" using assms(1) by (intro mult_right_mono) auto
    then have le: "nat (int (Suc i) * bs) \<le> nat (int (Suc (Suc i)) * bs)" by (rule nat_mono)
    show ?thesis
      using append_take_drop_id [of "nat (int (Suc i) * bs)" "take (nat (int (Suc (Suc i)) * bs)) xs"] le
      by (simp only: take_take min_absorb1)
  qed
  from Suc.prems [of "Suc i"] have "drop (nat (int (Suc i) * bs)) (take (nat (int (Suc (Suc i)) * bs)) (all_token_ids r1)) =
      drop (nat (int (Suc i) * bs)) (take (nat (int (Suc (Suc i)) * bs)) (all_token_ids r2))"
    by (simp only: block_tokens_take [OF assms(1)] order_refl)
  moreover have "take (nat (int (Suc i) * bs)) (all_token_ids r1) = take (nat (int (Suc i) * bs)) (all_token_ids r2)"
    by (rule Suc.IH) (use Suc.prems in simp)
  ultimately show ?case using split [of "all_token_ids r1"] split [of "all_token_ids r2"] by presburger
qed

lemma hash_at_inj:
  assumes cf: "collision_free env (hash_inputs env bs r1 @ hash_inputs env bs r2)"
    and "i < full_block_count bs r1" "j < full_block_count bs r2" "block_hash_at env bs r1 i = block_hash_at env bs r2 j"
  shows "i = j \<and> (\<forall>k \<le> i. block_tokens bs r1 k = block_tokens bs r2 k \<and> block_keys env bs r1 k = block_keys env bs r2 k)"
  using assms(2-)
proof (induction i arbitrary: j)
  have in1: "hash_input env bs r1 k \<in> set (hash_inputs env bs r1 @ hash_inputs env bs r2)"
    if "k < full_block_count bs r1" for k using that by (simp add: hash_inputs_def)
  have in2: "hash_input env bs r2 k \<in> set (hash_inputs env bs r1 @ hash_inputs env bs r2)"
    if "k < full_block_count bs r2" for k using that by (simp add: hash_inputs_def)
  have same: "hash_input env bs r1 k = hash_input env bs r2 l"
    if "k < full_block_count bs r1" "l < full_block_count bs r2" "block_hash_at env bs r1 k = block_hash_at env bs r2 l" for k l
    using cf that in1 [of k] in2 [of l] unfolding collision_free_def block_hash_at_input by (meson inj_onD)
  have good: "block_hash_at env bs r1 k \<noteq> NONE_HASH env \<and> block_hash_at env bs r1 k \<noteq> []" if "k < full_block_count bs r1" for k
    using cf in1 [OF that] unfolding collision_free_def block_hash_at_input by (metis imageI)
  have good2: "block_hash_at env bs r2 k \<noteq> NONE_HASH env \<and> block_hash_at env bs r2 k \<noteq> []" if "k < full_block_count bs r2" for k
    using cf in2 [OF that] unfolding collision_free_def block_hash_at_input by (metis imageI)
  {
    case 0
    show ?case
    proof (cases j)
      case 0
      then show ?thesis using same [of 0 0] \<open>0 < full_block_count bs r1\<close> \<open>j < full_block_count bs r2\<close>
          \<open>block_hash_at env bs r1 0 = block_hash_at env bs r2 j\<close> by (simp add: hash_input_def)
    next
      case (Suc j')
      then show ?thesis using same [OF 0] good2 [of j'] 0(2) by (auto simp: hash_input_def prev_hash_def)
    qed
  next
    case (Suc i)
    show ?case
    proof (cases j)
      case 0
      then show ?thesis using same [OF Suc.prems] good [of i] Suc.prems(1) by (auto simp: hash_input_def prev_hash_def)
    next
      case j: (Suc j')
      have eq: "block_hash_at env bs r1 i = block_hash_at env bs r2 j'"
        "block_tokens bs r1 (Suc i) = block_tokens bs r2 j" "block_keys env bs r1 (Suc i) = block_keys env bs r2 j"
        using same [OF Suc.prems] good [of i] good2 [of j'] Suc.prems(1,2) j
        by (auto simp: hash_input_def prev_hash_def)
      from Suc.IH [OF _ _ eq(1)] Suc.prems(1,2) j have "i = j'"
        "\<forall>k \<le> i. block_tokens bs r1 k = block_tokens bs r2 k \<and> block_keys env bs r1 k = block_keys env bs r2 k" by auto
      with eq j show ?thesis by (auto simp: le_Suc_eq)
    qed
  }
qed

lemma view_get:
  assumes "0 < k" "0 \<le> i" "i < int (length hs) div k"
  shows "bhl_get (HashView hs k) i = Inr (hs ! nat ((i + 1) * k - 1))" "nat ((i + 1) * k - 1) < length hs"
proof -
  have "i + 1 \<le> int (length hs) div k" using assms by simp
  then have "(i + 1) * k \<le> int (length hs)" using assms by (simp add: le_div_iff_mult_le)
  moreover have "1 * 1 \<le> (i + 1) * k" using assms by (intro mult_mono) auto
  ultimately show "bhl_get (HashView hs k) i = Inr (hs ! nat ((i + 1) * k - 1))" "nat ((i + 1) * k - 1) < length hs"
    by (simp_all add: py_index_def)
qed

section \<open>Hashing restarted in the middle\<close>

text \<open>
  Once a block is hashed the hasher restarts with the cursor \<open>-1\<close>, at the last multi-modal input. From there the run does not depend on
  the inputs before it.
\<close>

definition same_cursor :: "nat \<Rightarrow> nat \<Rightarrow> int \<Rightarrow> int \<Rightarrow> bool" where
  "same_cursor m n i j \<longleftrightarrow> i = -1 \<and> j = -1 \<or> i = int m \<and> j = int n \<or> i = int m + 1 \<and> j = int n + 1"

lemma mm_loop_last:
  "mm_loop (a @ [f]) s e (length a) ks =
     (if feat_offset f < e
      then if feat_end f \<le> s then (ks, length a + 1)
           else (ks @ [KMM (mm_identifier f) (feat_offset f - s)], if feat_end f \<le> e then length a + 1 else length a)
      else (ks, length a))"
  "mm_loop (a @ [f]) s e (length a + 1) ks = (ks, length a + 1)"
proof -
  show past: "mm_loop (a @ [f]) s e (length a + 1) ks = (ks, length a + 1)" for ks by (simp add: mm_loop.simps)
  show "mm_loop (a @ [f]) s e (length a) ks =
     (if feat_offset f < e
      then if feat_end f \<le> s then (ks, length a + 1)
           else (ks @ [KMM (mm_identifier f) (feat_offset f - s)], if feat_end f \<le> e then length a + 1 else length a)
      else (ks, length a))"
    by (subst mm_loop.simps) (simp add: Let_def past [simplified])
qed

lemma gen_mm_keys_tail:
  assumes "mm_features r = a @ [f]" "same_cursor (length a) (length b) i j"
  shows "\<exists>ks i' j'. gen_mm_extra_hash_keys r s e i = Inr (ks, i') \<and>
    gen_mm_extra_hash_keys (r\<lparr>mm_features := b @ [f]\<rparr>) s e j = Inr (ks, j') \<and> same_cursor (length a) (length b) i' j'"
  using assms
  by (auto simp: gen_mm_extra_hash_keys_def same_cursor_def Let_def mm_loop_last mm_loop_last(2) [simplified] nat_add_distrib)

lemma generate_keys_tail:
  assumes "mm_features r = a @ [f]" "same_cursor (length a) (length b) i j"
  shows "\<exists>ks i' j' r'. generate_block_hash_extra_keys env r s e i = Inr (ks, i', r') \<and> mm_features r' = a @ [f] \<and>
    generate_block_hash_extra_keys env (r\<lparr>mm_features := b @ [f]\<rparr>) s e j = Inr (ks, j', r'\<lparr>mm_features := b @ [f]\<rparr>) \<and>
    same_cursor (length a) (length b) i' j'"
proof -
  obtain ks i' j' where g: "gen_mm_extra_hash_keys r s e i = Inr (ks, i')"
    "gen_mm_extra_hash_keys (r\<lparr>mm_features := b @ [f]\<rparr>) s e j = Inr (ks, j')" "same_cursor (length a) (length b) i' j'"
    using gen_mm_keys_tail [OF assms] by blast
  obtain es r' where e: "gen_prompt_embeds_extra_hash_keys env r s e = (es, r')"
    by (cases "gen_prompt_embeds_extra_hash_keys env r s e")
  have "gen_prompt_embeds_extra_hash_keys env (r\<lparr>mm_features := b @ [f]\<rparr>) s e = (es, r'\<lparr>mm_features := b @ [f]\<rparr>)" "mm_features r' = a @ [f]"
    using e assms(1) by (auto simp: gen_prompt_embeds_extra_hash_keys_def Let_def split: option.splits)
  with g e show ?thesis
    by (simp add: generate_block_hash_extra_keys_def gen_lora_extra_hash_keys_def cache_salt_keys_def Let_def)
qed

lemma hasher_loop_tail:
  assumes "mm_features r = a @ [f]" "same_cursor (length a) (length b) i j"
  shows "\<exists>hs' r'. hasher_loop env bs s i p hs r = Inr (hs', r') \<and> mm_features r' = a @ [f] \<and> block_hashes r' = block_hashes r \<and>
    hasher_loop env bs s j p hs (r\<lparr>mm_features := b @ [f]\<rparr>) = Inr (hs', r'\<lparr>mm_features := b @ [f]\<rparr>)"
  using assms
proof (induction env bs s i p hs r arbitrary: j rule: hasher_loop.induct)
  case (1 env bs s i p hs r)
  show ?case
  proof (cases "s + bs > num_tokens r \<or> bs \<le> 0")
    case True
    then show ?thesis using "1.prems"(1) by (auto simp: hasher_loop.simps [of env bs s] num_tokens_def)
  next
    case False
    obtain ks i' j' r' where g: "generate_block_hash_extra_keys env r s (s + bs) i = Inr (ks, i', r')" "mm_features r' = a @ [f]"
      "generate_block_hash_extra_keys env (r\<lparr>mm_features := b @ [f]\<rparr>) s (s + bs) j = Inr (ks, j', r'\<lparr>mm_features := b @ [f]\<rparr>)"
      "same_cursor (length a) (length b) i' j'" using generate_keys_tail [OF "1.prems"] by blast
    have n: "s + bs \<le> num_tokens r" "0 < bs" "s + bs \<le> num_tokens (r\<lparr>mm_features := b @ [f]\<rparr>)" using False by (auto simp: num_tokens_def)
    show ?thesis
      using "1.IH" [OF False g(1) refl refl refl g(2,4)] hasher_loop_step [OF n(1,2) g(1)] hasher_loop_step [OF n(3,2) g(3)]
        generate_keys_fields(7) [OF g(1)] by simp
  qed
qed

lemma append_tail:
  assumes "0 < bs" "mm_features r = a @ [f]" "block_hashes r \<noteq> []"
  shows "\<exists>r'. append_output_token_ids (get_request_block_hasher bs env) ts r = Inr r' \<and> mm_features r' = a @ [f] \<and> block_hashes r' \<noteq> [] \<and>
    append_output_token_ids (get_request_block_hasher bs env) ts (r\<lparr>mm_features := b @ [f]\<rparr>) = Inr (r'\<lparr>mm_features := b @ [f]\<rparr>)"
proof -
  define r1 where "r1 = r\<lparr>output_token_ids := output_token_ids r @ ts, all_token_ids := all_token_ids r @ ts\<rparr>"
  have m: "mm_features r1 = a @ [f]" "block_hashes r1 = block_hashes r" "num_tokens (r1\<lparr>mm_features := b @ [f]\<rparr>) = num_tokens r1"
    using assms by (simp_all add: r1_def num_tokens_def)
  have "same_cursor (length a) (length b) (-1) (-1)" by (simp add: same_cursor_def)
  note loop = hasher_loop_tail [OF m(1) this, of env bs "int (length (block_hashes r)) * bs" "Some (last (block_hashes r))" "[]"]
  have "\<exists>hs r'. request_block_hasher env bs r1 = Inr (hs, r') \<and> mm_features r' = a @ [f] \<and> block_hashes r' = block_hashes r \<and>
    request_block_hasher env bs (r1\<lparr>mm_features := b @ [f]\<rparr>) = Inr (hs, r'\<lparr>mm_features := b @ [f]\<rparr>)"
  proof (cases "int (length (block_hashes r)) * bs + bs > num_tokens r1")
    case True
    then show ?thesis using m by (simp add: request_block_hasher_def)
  next
    case False
    have "0 < int (length (block_hashes r)) * bs" using assms(1,3) by simp
    then show ?thesis using loop False m assms(3) by (simp add: request_block_hasher_def)
  qed
  then obtain hs r' where "request_block_hasher env bs r1 = Inr (hs, r')" "mm_features r' = a @ [f]" "block_hashes r' = block_hashes r"
    "request_block_hasher env bs (r1\<lparr>mm_features := b @ [f]\<rparr>) = Inr (hs, r'\<lparr>mm_features := b @ [f]\<rparr>)" by blast
  moreover have "r\<lparr>mm_features := b @ [f], output_token_ids := output_token_ids r @ ts, all_token_ids := all_token_ids r @ ts\<rparr> = r1\<lparr>mm_features := b @ [f]\<rparr>"
    by (simp add: r1_def)
  ultimately show ?thesis
    using assms(3) by (simp add: append_output_token_ids_def update_block_hashes_def get_request_block_hasher_def flip: r1_def)
qed

lemma appends_tail:
  assumes "0 < bs" "mm_features r = a @ [f]" "block_hashes r \<noteq> []"
  shows "\<exists>s. efold (append_output_token_ids (get_request_block_hasher bs env)) tss r = Inr s \<and> mm_features s = a @ [f] \<and>
    efold (append_output_token_ids (get_request_block_hasher bs env)) tss (r\<lparr>mm_features := b @ [f]\<rparr>) = Inr (s\<lparr>mm_features := b @ [f]\<rparr>)"
  using assms(2,3)
proof (induction tss arbitrary: r)
  case (Cons ts tss)
  obtain r' where r': "append_output_token_ids (get_request_block_hasher bs env) ts r = Inr r'" "mm_features r' = a @ [f]" "block_hashes r' \<noteq> []"
    "append_output_token_ids (get_request_block_hasher bs env) ts (r\<lparr>mm_features := b @ [f]\<rparr>) = Inr (r'\<lparr>mm_features := b @ [f]\<rparr>)"
    using append_tail [OF assms(1) Cons.prems] by blast
  show ?case using Cons.IH [OF r'(2,3)] by (simp add: r'(1,4))
qed simp


section \<open>Properties\<close>

text \<open>
  C21: take a request built by the constructor whose multi-modal inputs are in order and disjoint, and all of which but the last end
  within the full blocks of the prompt. However many generated tokens follow, in whatever steps, the request carries the chained hashes
  of its full blocks, each with the extra keys of every multi-modal input the block overlaps.
\<close>

theorem request_hashes_are_chain:
  assumes "0 < bs" "mm_ordered mms"
    "new_request (get_request_block_hasher bs env) oid rid toks sp pp arrival embeds mms lora salt prio structured = Inr r0"
    "\<forall>f \<in> set (butlast mms). feat_end f \<le> int (full_block_count bs r0) * bs"
  shows "\<exists>r. efold (append_output_token_ids (get_request_block_hasher bs env)) tss r0 = Inr r \<and>
    all_token_ids r = all_token_ids r0 @ concat tss \<and> block_hashes r = block_hash_chain env bs r"
  using hashes_ok_appends [of bs r0 env tss] new_request_hashes [OF assms(1-3)] assms
  by (auto simp: hashes_ok_def)

text \<open>
  C22: let two requests be built by the constructor and extended by generated tokens, their multi-modal inputs in order and disjoint
  and all but the last ending within the full blocks of the prompt, and let the hash function be collision-free on the inputs of
  their blocks. Two of their blocks have the same hash only when the requests agree on every token up to the end of the block and on the
  extra keys of every block of that prefix.
\<close>

theorem equal_hash_equal_prefix:
  assumes "0 < bs" "built env bs r1" "built env bs r2"
    "collision_free env (hash_inputs env bs r1 @ hash_inputs env bs r2)"
    "i < length (block_hashes r1)" "j < length (block_hashes r2)" "block_hashes r1 ! i = block_hashes r2 ! j"
  shows "i = j \<and>
    take (nat (int (Suc i) * bs)) (all_token_ids r1) = take (nat (int (Suc i) * bs)) (all_token_ids r2) \<and>
    (\<forall>k \<le> i. block_keys env bs r1 k = block_keys env bs r2 k)"
proof -
  from assms built_hashes_ok have "i < full_block_count bs r1" "j < full_block_count bs r2"
    "block_hash_at env bs r1 i = block_hash_at env bs r2 j"
    by (auto simp: hashes_ok_def block_hash_chain_def)
  note inj = hash_at_inj [OF assms(4) this]
  then show ?thesis using block_tokens_prefix [OF assms(1), of i r1 r2] by blast
qed


text \<open>A small environment and request, for the examples.\<close>

definition demo_hash :: "hash_obj \<Rightarrow> bytes" where
  "demo_hash x = (case x of HSeed s \<Rightarrow> [0]
     | HBlock p ts ks \<Rightarrow> 1 # p @ map word_of_int ts @ (case ks of None \<Rightarrow> [] | Some l \<Rightarrow> 9 # map (\<lambda>_. 7) l))"

definition demo_env :: hash_env where
  "demo_env = \<lparr>caching_hash_fn = demo_hash, NONE_HASH = [255], embeds_digest = concat\<rparr>"

definition demo_sampling :: sampling_params where
  "demo_sampling = \<lparr>sp_max_tokens = Some 16, min_tokens = 0, eos_token_id = None, stop_token_ids = None,
     repetition_detection = None, sp_skip_reading_prefix_cache = None\<rparr>"

definition demo_feature :: "string \<Rightarrow> int \<Rightarrow> int \<Rightarrow> mm_feature" where
  "demo_feature name off len =
     \<lparr>mm_identifier = name, mm_position = \<lparr>offset = off, plen = len, is_embed = None\<rparr>\<rparr>"

definition demo_request :: "int \<Rightarrow> int list \<Rightarrow> mm_feature list \<Rightarrow> lora_request option \<Rightarrow> string option \<Rightarrow> request result" where
  "demo_request bs toks mms lora salt =
     new_request (get_request_block_hasher bs demo_env) 0 ''r'' (Some toks) (Some demo_sampling) None 0 None mms lora salt 0 False"

theorem request_hashes_are_chain_witness:
  "\<exists>r0 r. demo_request 2 [1, 2, 3, 4, 5] [demo_feature ''a'' 0 2, demo_feature ''b'' 4 1] None (Some ''s'') = Inr r0 \<and>
     efold (append_output_token_ids (get_request_block_hasher 2 demo_env)) [[6], [7, 8]] r0 = Inr r \<and>
     all_token_ids r = all_token_ids r0 @ [6, 7, 8] \<and> block_hashes r = block_hash_chain demo_env 2 r"
proof -
  have "case demo_request 2 [1, 2, 3, 4, 5] [demo_feature ''a'' 0 2, demo_feature ''b'' 4 1] None (Some ''s'') of
      Inl _ \<Rightarrow> False | Inr r \<Rightarrow> full_block_count 2 r = 2" by code_simp
  then obtain r0 where r0: "demo_request 2 [1, 2, 3, 4, 5] [demo_feature ''a'' 0 2, demo_feature ''b'' 4 1] None (Some ''s'') = Inr r0"
    "full_block_count 2 r0 = 2" by (auto split: sum.splits)
  have mm: "mm_ordered [demo_feature ''a'' 0 2, demo_feature ''b'' 4 1]" by code_simp
  have "\<forall>f \<in> set (butlast [demo_feature ''a'' 0 2, demo_feature ''b'' 4 1]). feat_end f \<le> int (full_block_count 2 r0) * 2"
    using r0(2) by (simp add: demo_feature_def feat_end_def)
  from request_hashes_are_chain [OF _ mm r0(1) [unfolded demo_request_def] this, of "[[6], [7, 8]]"] r0 show ?thesis
    by auto
qed


lemma collision_free_code [code]:
  "collision_free env xs \<longleftrightarrow>
     distinct (map (caching_hash_fn env) (remdups xs)) \<and>
     list_all (\<lambda>x. caching_hash_fn env x \<noteq> NONE_HASH env \<and> caching_hash_fn env x \<noteq> []) xs"
  by (force simp: collision_free_def distinct_map list_all_iff)

theorem equal_hash_equal_prefix_witness:
  "\<exists>r1 r2. demo_request 2 [1, 2, 3, 4] [] None None = Inr r1 \<and> demo_request 2 [1, 2, 3, 4, 5, 6] [] None None = Inr r2 \<and>
     block_hashes r1 ! 1 = block_hashes r2 ! 1 \<and> take 4 (all_token_ids r1) = take 4 (all_token_ids r2)"
proof -
  have "case (demo_request 2 [1, 2, 3, 4] [] None None, demo_request 2 [1, 2, 3, 4, 5, 6] [] None None) of
      (Inr r1, Inr r2) \<Rightarrow> length (block_hashes r1) = 2 \<and> length (block_hashes r2) = 3 \<and>
        block_hashes r1 ! 1 = block_hashes r2 ! 1 \<and>
        collision_free demo_env (hash_inputs demo_env 2 r1 @ hash_inputs demo_env 2 r2)
    | _ \<Rightarrow> False" by code_simp
  then obtain r1 r2 where r: "demo_request 2 [1, 2, 3, 4] [] None None = Inr r1"
      "demo_request 2 [1, 2, 3, 4, 5, 6] [] None None = Inr r2" and
    h: "length (block_hashes r1) = 2" "length (block_hashes r2) = 3" "block_hashes r1 ! 1 = block_hashes r2 ! 1"
      "collision_free demo_env (hash_inputs demo_env 2 r1 @ hash_inputs demo_env 2 r2)"
    by (auto split: sum.splits)
  have "mm_ordered []" by (simp add: mm_ordered_def)
  then have ok: "built demo_env 2 r1" "built demo_env 2 r2"
    using built [OF r(1) [unfolded demo_request_def], of "[]"] built [OF r(2) [unfolded demo_request_def], of "[]"] by simp_all
  from equal_hash_equal_prefix [OF _ ok h(4), of 1 1] h r show ?thesis by simp
qed

text \<open>
  C23: packing a hash with a group id is reversible for every group id that fits in four bytes,
  and raises for every other.
\<close>

theorem group_id_round_trip:
  "if 0 \<le> g \<and> g < 2 ^ 32
   then \<exists>k. make_block_hash_with_group_id h g = Inr k \<and> get_block_hash k = h \<and> get_group_id k = g
   else make_block_hash_with_group_id h g = Inl OverflowError"
  by (auto simp: make_block_hash_with_group_id_def to_bytes_def from_bytes_be_bytes)

text \<open>
  C24: the view of a request's hashes at a coarser block size has one entry per full coarse block,
  and entry \<open>i\<close> is the chained hash whose prefix ends where coarse block \<open>i\<close> ends.
\<close>

theorem coarse_view_entries:
  assumes "0 < hbs" "1 < k" "hashes_ok env hbs r" "0 \<le> i" "i < num_tokens r div (k * hbs)"
  shows "\<exists>v. resolve_block_hashes (HashList (block_hashes r)) hbs (k * hbs) False None = Inr v \<and>
    bhl_len v = num_tokens r div (k * hbs) \<and>
    bhl_get v i = Inr (block_hash_at env hbs r (nat ((i + 1) * k - 1))) \<and>
    ((i + 1) * k - 1 + 1) * hbs = (i + 1) * (k * hbs)"
proof -
  have len: "int (length (block_hashes r)) = num_tokens r div hbs"
    using assms(1,3) by (simp add: hashes_ok_def block_hash_chain_def full_block_count_def num_tokens_def div_int_pos_iff)
  have div: "num_tokens r div hbs div k = num_tokens r div (k * hbs)"
    using assms by (simp add: div_mult2_eq mult.commute [of k] zdiv_zmult2_eq)
  have "resolve_block_hashes (HashList (block_hashes r)) hbs (k * hbs) False None = Inr (HashView (block_hashes r) k)"
    using assms(1,2) by (simp add: resolve_block_hashes_def new_hash_view_def)
  moreover have "bhl_len (HashView (block_hashes r) k) = num_tokens r div (k * hbs)"
    by (simp add: len div)
  moreover have "bhl_get (HashView (block_hashes r) k) i = Inr (block_hashes r ! nat ((i + 1) * k - 1))"
    "nat ((i + 1) * k - 1) < length (block_hashes r)"
    using view_get [of k i "block_hashes r"] assms by (simp_all add: len div)
  ultimately show ?thesis using assms(3) by (auto simp: hashes_ok_def block_hash_chain_def)
qed

theorem coarse_view_entries_witness:
  "\<exists>r v. demo_request 2 [1, 2, 3, 4, 5, 6, 7, 8, 9] [] None None = Inr r \<and>
     resolve_block_hashes (HashList (block_hashes r)) 2 4 False None = Inr v \<and> bhl_len v = 2 \<and>
     bhl_get v 1 = Inr (block_hash_at demo_env 2 r 3)"
proof -
  have "case demo_request 2 [1, 2, 3, 4, 5, 6, 7, 8, 9] [] None None of Inl _ \<Rightarrow> False | Inr r \<Rightarrow> num_tokens r = 9"
    by code_simp
  then obtain r where r: "demo_request 2 [1, 2, 3, 4, 5, 6, 7, 8, 9] [] None None = Inr r" "num_tokens r = 9"
    by (auto split: sum.splits)
  have "mm_ordered []" by (simp add: mm_ordered_def)
  then have "hashes_ok demo_env 2 r"
    using new_request_hashes(1) [OF _ _ r(1) [unfolded demo_request_def]] by simp
  from coarse_view_entries [of 2 2, OF _ _ this, of 1] r show ?thesis by auto
qed

text \<open>
  C25: once a block of a request is hashed, of its multi-modal inputs only the last one enters the hashes of the blocks that generated
  tokens complete. Two requests in the same state that differ only in the inputs before the last get the same block hashes from every
  sequence of generated tokens, also for a block that overlaps the differing inputs, whose keys differ.
\<close>

theorem incremental_hash_drops_earlier_image:
  assumes "0 < bs" "block_hashes r1 \<noteq> []" "mm_features r1 = a @ [f]" "r2 = r1\<lparr>mm_features := b @ [f]\<rparr>"
  shows "\<exists>s1 s2. efold (append_output_token_ids (get_request_block_hasher bs env)) tss r1 = Inr s1 \<and>
    efold (append_output_token_ids (get_request_block_hasher bs env)) tss r2 = Inr s2 \<and> block_hashes s1 = block_hashes s2 \<and>
    (\<forall>i. block_keys env bs s1 i = block_keys env bs s2 i \<longleftrightarrow>
       block_mm_keys (a @ [f]) (int i * bs) (int i * bs + bs) = block_mm_keys (b @ [f]) (int i * bs) (int i * bs + bs))"
proof -
  obtain s where s: "efold (append_output_token_ids (get_request_block_hasher bs env)) tss r1 = Inr s" "mm_features s = a @ [f]"
    "efold (append_output_token_ids (get_request_block_hasher bs env)) tss (r1\<lparr>mm_features := b @ [f]\<rparr>) = Inr (s\<lparr>mm_features := b @ [f]\<rparr>)"
    using appends_tail [OF assms(1,3,2)] by blast
  have "block_keys env bs s i = block_keys env bs (s\<lparr>mm_features := b @ [f]\<rparr>) i \<longleftrightarrow>
      block_mm_keys (a @ [f]) (int i * bs) (int i * bs + bs) = block_mm_keys (b @ [f]) (int i * bs) (int i * bs + bs)" for i
    using s(2) by (auto simp: block_keys_def block_extra_keys_def gen_lora_extra_hash_keys_def cache_salt_keys_def Let_def)
  then show ?thesis unfolding assms(4) by (intro exI conjI allI) (rule s(1), rule s(3), simp, assumption)
qed

theorem incremental_hash_drops_earlier_image_witness:
  "\<exists>r1 r2 s1 s2. demo_request 4 [1, 2, 3, 4, 5, 6, 7] [demo_feature ''cat'' 4 1, demo_feature ''dog'' 5 1] None None = Inr r1 \<and>
     demo_request 4 [1, 2, 3, 4, 5, 6, 7] [demo_feature ''fox'' 4 1, demo_feature ''dog'' 5 1] None None = Inr r2 \<and>
     append_output_token_ids (get_request_block_hasher 4 demo_env) [8] r1 = Inr s1 \<and>
     append_output_token_ids (get_request_block_hasher 4 demo_env) [8] r2 = Inr s2 \<and>
     block_hashes s1 = block_hashes s2 \<and> block_keys demo_env 4 s1 1 \<noteq> block_keys demo_env 4 s2 1"
proof -
  let ?mms = "\<lambda>n. [demo_feature n 4 1] @ [demo_feature ''dog'' 5 1]"
  have "\<exists>r. demo_request 4 [1, 2, 3, 4, 5, 6, 7] (?mms ''cat'') None None = Inr r \<and>
     demo_request 4 [1, 2, 3, 4, 5, 6, 7] (?mms ''fox'') None None = Inr (r\<lparr>mm_features := ?mms ''fox''\<rparr>) \<and>
     mm_features r = ?mms ''cat'' \<and> block_hashes r \<noteq> []"
    by (simp add: demo_request_def new_request_def init_request_def demo_sampling_def length_from_prompt_token_ids_or_embeds_def
      update_block_hashes_def get_request_block_hasher_def request_block_hasher_def num_tokens_def Let_def
      hasher_loop.simps mm_loop.simps generate_block_hash_extra_keys_def gen_mm_extra_hash_keys_def demo_feature_def
      feat_end_def feat_offset_def gen_lora_extra_hash_keys_def cache_salt_keys_def gen_prompt_embeds_extra_hash_keys_def)
  then obtain r where r: "demo_request 4 [1, 2, 3, 4, 5, 6, 7] (?mms ''cat'') None None = Inr r"
     "demo_request 4 [1, 2, 3, 4, 5, 6, 7] (?mms ''fox'') None None = Inr (r\<lparr>mm_features := ?mms ''fox''\<rparr>)"
     "mm_features r = ?mms ''cat''" "block_hashes r \<noteq> []" by blast
  from incremental_hash_drops_earlier_image [OF _ r(4,3) refl, where bs = 4 and b = "[demo_feature ''fox'' 4 1]" and env = demo_env and tss = "[[8]]"]
  obtain s1 s2 where s: "append_output_token_ids (get_request_block_hasher 4 demo_env) [8] r = Inr s1"
    "append_output_token_ids (get_request_block_hasher 4 demo_env) [8] (r\<lparr>mm_features := ?mms ''fox''\<rparr>) = Inr s2" "block_hashes s1 = block_hashes s2"
    "\<forall>i. block_keys demo_env 4 s1 i = block_keys demo_env 4 s2 i \<longleftrightarrow>
       block_mm_keys (?mms ''cat'') (int i * 4) (int i * 4 + 4) = block_mm_keys (?mms ''fox'') (int i * 4) (int i * 4 + 4)" by auto
  have "block_mm_keys (?mms ''cat'') 4 8 \<noteq> block_mm_keys (?mms ''fox'') 4 8" by code_simp
  then have "block_keys demo_env 4 s1 1 \<noteq> block_keys demo_env 4 s2 1" using s(4) [rule_format, of 1] by simp
  then show ?thesis using r s(1-3) by auto
qed

text \<open>
  C26: the LoRA name and the cache salt enter the hash of the first block as the same kind of key.
  A request without an adapter whose salt is the name of an adapter gets the first block
  hash of a request for that adapter.
\<close>

theorem lora_and_salt_share_first_hash:
  assumes "0 < bs" "hashes_ok env bs r1" "hashes_ok env bs r2" "bs \<le> num_tokens r1"
    "lora_request r1 = Some l" "cache_salt r1 = None" "lora_request r2 = None" "cache_salt r2 = Some (lora_name l)"
    "lora_name l \<noteq> []" "all_token_ids r2 = all_token_ids r1" "mm_features r1 = []" "mm_features r2 = []"
    "prompt_embeds r1 = None" "prompt_embeds r2 = None"
  shows "block_hashes r1 ! 0 = block_hashes r2 ! 0"
proof -
  have "0 < full_block_count bs r1" "full_block_count bs r2 = full_block_count bs r1"
    using assms less_full_block_count [of bs 0 r1] by (simp_all add: full_block_count_def num_tokens_def)
  moreover have "block_hash_at env bs r1 0 = block_hash_at env bs r2 0"
    using assms by (simp add: block_tokens_def block_keys_def block_extra_keys_def gen_lora_extra_hash_keys_def
        cache_salt_keys_def block_mm_keys_def)
  ultimately show ?thesis using assms(2,3) by (simp add: hashes_ok_def block_hash_chain_def)
qed

theorem lora_and_salt_share_first_hash_witness:
  "\<exists>r1 r2. demo_request 2 [1, 2, 3] [] (Some \<lparr>lora_name = ''sql'', adapter_id = 1\<rparr>) None = Inr r1 \<and>
     demo_request 2 [1, 2, 3] [] None (Some ''sql'') = Inr r2 \<and> block_hashes r1 ! 0 = block_hashes r2 ! 0"
proof -
  have "case (demo_request 2 [1, 2, 3] [] (Some \<lparr>lora_name = ''sql'', adapter_id = 1\<rparr>) None,
      demo_request 2 [1, 2, 3] [] None (Some ''sql'')) of
      (Inr r1, Inr r2) \<Rightarrow> num_tokens r1 = 3 \<and> all_token_ids r1 = [1, 2, 3] \<and> all_token_ids r2 = [1, 2, 3] \<and>
        map_option lora_name (lora_request r1) = Some ''sql'' \<and> cache_salt r1 = None \<and> prompt_embeds r1 = None \<and>
        prompt_embeds r2 = None \<and> map_option lora_name (lora_request r2) = None \<and> cache_salt r2 = Some ''sql''
    | _ \<Rightarrow> False" by code_simp
  then obtain r1 r2 where r: "demo_request 2 [1, 2, 3] [] (Some \<lparr>lora_name = ''sql'', adapter_id = 1\<rparr>) None = Inr r1"
      "demo_request 2 [1, 2, 3] [] None (Some ''sql'') = Inr r2" and
    f: "num_tokens r1 = 3" "all_token_ids r1 = all_token_ids r2" "map_option lora_name (lora_request r1) = Some ''sql''"
      "cache_salt r1 = None" "prompt_embeds r1 = None" "prompt_embeds r2 = None" "lora_request r2 = None"
      "cache_salt r2 = Some ''sql''"
    by (auto split: sum.splits)
  have "mm_ordered []" by (simp add: mm_ordered_def)
  then have ok: "hashes_ok demo_env 2 r1" "hashes_ok demo_env 2 r2" "mm_features r1 = []" "mm_features r2 = []"
    using new_request_hashes [OF _ _ r(1) [unfolded demo_request_def]]
      new_request_hashes [OF _ _ r(2) [unfolded demo_request_def]] by simp_all
  from f(3) obtain l where "lora_request r1 = Some l" "lora_name l = ''sql''" by auto
  with lora_and_salt_share_first_hash [OF _ ok(1,2), of l] f ok(3,4) r show ?thesis by simp
qed

end
