(* ===== verification/Block_Map.thy ===== *)
theory Block_Map
  imports Block_Queue
begin

text \<open>
  \<^verbatim>\<open>BlockHashToBlockMap\<close> of \<^verbatim>\<open>vllm/v1/core/block_pool.py\<close>: a dictionary from hash keys to one
  block, or to a dictionary of blocks when several have the same hash. Its contract, the locale
  \<open>block_index\<close>, is that of a set of (key, block) entries.
\<close>

section \<open>The map\<close>

datatype cached_blocks = Single bref | Many "(int, bref) dict"

type_synonym block_map = "(bytes, cached_blocks) dict"

definition get_one_block :: "block_map \<Rightarrow> bytes \<Rightarrow> bref option result" where
  "get_one_block m key =
     (case dget m key of
        None \<Rightarrow> Inr None
      | Some (Single b) \<Rightarrow> Inr (Some b)
      | Some (Many d) \<Rightarrow> (case d of [] \<Rightarrow> Inl StopIteration | (_, b) # _ \<Rightarrow> Inr (Some b)))"

definition contain :: "block_map \<Rightarrow> bytes \<Rightarrow> int \<Rightarrow> bool" where
  "contain m key bid =
     (case dget m key of
        None \<Rightarrow> False
      | Some (Single b) \<Rightarrow> block_id b = bid
      | Some (Many d) \<Rightarrow> dget d bid \<noteq> None)"

definition map_insert :: "bytes \<Rightarrow> bref \<Rightarrow> block_map \<Rightarrow> block_map" where
  "map_insert key b m =
     (case dget m key of
        None \<Rightarrow> dset key (Single b) m
      | Some (Single b0) \<Rightarrow> dset key (Many (dset (block_id b) b [(block_id b0, b0)])) m
      | Some (Many d) \<Rightarrow> dset key (Many (dset (block_id b) b d)) m)"

definition map_pop :: "bytes \<Rightarrow> int \<Rightarrow> block_map \<Rightarrow> bref option \<times> block_map" where
  "map_pop key bid m =
     (case dget m key of
        None \<Rightarrow> (None, m)
      | Some (Single b) \<Rightarrow>
          if block_id b = bid then (Some b, ddel key m) else (None, dset key (Single b) (ddel key m))
      | Some (Many d) \<Rightarrow>
          (let d' = ddel bid d
           in (dget d bid, if length d' > 0 then dset key (Many d') (ddel key m) else ddel key m)))"

definition map_len :: "block_map \<Rightarrow> int" where
  "map_len m = int (length m)"


section \<open>The contract\<close>

text \<open>
  The blocks filed under a key, and the well-formedness of the map: an inner dictionary is never
  empty and files every block under its own id.
\<close>

definition blocks_of :: "cached_blocks \<Rightarrow> bref list" where
  "blocks_of c = (case c of Single b \<Rightarrow> [b] | Many d \<Rightarrow> map snd d)"

definition entries :: "block_map \<Rightarrow> (bytes \<times> bref) set" where
  "entries m = {(k, b). \<exists>c. dget m k = Some c \<and> b \<in> set (blocks_of c)}"

definition cached_ok :: "cached_blocks \<Rightarrow> bool" where
  "cached_ok c \<longleftrightarrow>
     (case c of
        Single b \<Rightarrow> b \<in> range Blk
      | Many d \<Rightarrow> d \<noteq> [] \<and> distinct (dkeys d) \<and> list_all (\<lambda>(i, b). i = block_id b \<and> b \<in> range Blk) d)"

definition map_ok :: "block_map \<Rightarrow> bool" where
  "map_ok m \<longleftrightarrow> distinct (dkeys m) \<and> (\<forall>k c. dget m k = Some c \<longrightarrow> cached_ok c)"

lemma block_id_inj: "b \<in> range Blk \<Longrightarrow> b' \<in> range Blk \<Longrightarrow> block_id b = block_id b' \<longleftrightarrow> b = b'"
  by auto

lemma many_dget:
  assumes "cached_ok (Many d)" "b \<in> range Blk"
  shows "dget d (block_id b) = (if b \<in> snd ` set d then Some b else None)"
proof -
  from assms have d: "distinct (dkeys d)" and ids: "\<And>i x. (i, x) \<in> set d \<Longrightarrow> i = block_id x \<and> x \<in> range Blk"
    by (auto simp: cached_ok_def list_all_iff)
  show ?thesis
  proof (cases "dget d (block_id b)")
    case None
    with ids have "b \<notin> snd ` set d" by (force simp: map_of_eq_None_iff)
    with None show ?thesis by simp
  next
    case (Some x)
    then have "(block_id b, x) \<in> set d" by (rule map_of_SomeD)
    moreover from this ids assms(2) have "x = b" by (metis block_id_inj)
    ultimately have "b \<in> snd ` set d" by force
    with Some \<open>x = b\<close> show ?thesis by simp
  qed
qed

lemma cached_ok_dset:
  assumes "cached_ok (Many d)" "b \<in> range Blk"
  shows "cached_ok (Many (dset (block_id b) b d))" "snd ` set (dset (block_id b) b d) = insert b (snd ` set d)"
proof -
  have nil: "dset (block_id b) b d \<noteq> []" by (cases d) auto
  have ids: "i = block_id x \<and> x \<in> range Blk" if "(i, x) \<in> set (dset (block_id b) b d)" for i x
    using that assms by (auto dest!: set_dset simp: cached_ok_def list_all_iff)
  from nil ids show ok: "cached_ok (Many (dset (block_id b) b d))"
    using assms(1) by (auto simp: cached_ok_def list_all_iff)
  have real: "snd ` set d \<subseteq> range Blk" "snd ` set (dset (block_id b) b d) \<subseteq> range Blk"
    using assms(1) ids by (auto simp: cached_ok_def list_all_iff)
  show "snd ` set (dset (block_id b) b d) = insert b (snd ` set d)"
  proof (rule set_eqI)
    fix x
    show "x \<in> snd ` set (dset (block_id b) b d) \<longleftrightarrow> x \<in> insert b (snd ` set d)"
    proof (cases "x \<in> range Blk")
      case True
      with many_dget [OF ok True] many_dget [OF assms(1) True] assms(2) show ?thesis
        by (auto simp: block_id_inj simp del: block_id.simps split: if_splits)
    next
      case False
      with real assms(2) show ?thesis by blast
    qed
  qed
qed

lemma cached_ok_ddel:
  assumes "cached_ok (Many d)" "b \<in> range Blk"
  shows "ddel (block_id b) d \<noteq> [] \<Longrightarrow> cached_ok (Many (ddel (block_id b) d))"
    and "snd ` set (ddel (block_id b) d) = snd ` set d - {b}"
proof -
  have ids: "i = block_id x \<and> x \<in> range Blk" if "(i, x) \<in> set d" for i x
    using that assms by (auto simp: cached_ok_def list_all_iff)
  show "cached_ok (Many (ddel (block_id b) d))" if "ddel (block_id b) d \<noteq> []"
    using that assms(1) by (auto simp: cached_ok_def list_all_iff set_ddel)
  have "fst p \<noteq> block_id b \<longleftrightarrow> snd p \<noteq> b" if "p \<in> set d" for p
    using ids [of "fst p" "snd p"] that assms(2) by (simp add: block_id_inj)
  then show "snd ` set (ddel (block_id b) d) = snd ` set d - {b}"
    unfolding set_ddel by blast
qed

lemma entries_dset: "entries (dset k c m) = {(k', b). k' \<noteq> k \<and> (k', b) \<in> entries m} \<union> {k} \<times> set (blocks_of c)"
  by (auto simp: entries_def split: if_splits)

lemma entries_ddel: "entries (ddel k m) = {(k', b). k' \<noteq> k \<and> (k', b) \<in> entries m}"
  by (auto simp: entries_def split: if_splits)

lemma map_ok_dset: "map_ok m \<Longrightarrow> cached_ok c \<Longrightarrow> map_ok (dset k c m)"
  by (auto simp: map_ok_def simp del: map_of_eq_Some_iff)

lemma map_ok_ddel: "map_ok m \<Longrightarrow> map_ok (ddel k m)"
  by (auto simp: map_ok_def simp del: map_of_eq_Some_iff split: if_splits)

lemma dget_entries: "dget m k = Some c \<Longrightarrow> (k, b) \<in> entries m \<longleftrightarrow> b \<in> set (blocks_of c)"
  by (simp add: entries_def)

lemma cached_blocks_nonempty: "cached_ok c \<Longrightarrow> blocks_of c \<noteq> [] \<and> set (blocks_of c) \<subseteq> range Blk"
  by (auto simp: cached_ok_def blocks_of_def list_all_iff split: cached_blocks.splits)

lemma map_insert_ok:
  assumes "map_ok m" "b \<in> range Blk"
  shows "map_ok (map_insert k b m)" "entries (map_insert k b m) = insert (k, b) (entries m)"
proof -
  define c where "c = (case dget m k of None \<Rightarrow> Single b
     | Some (Single b0) \<Rightarrow> Many (dset (block_id b) b [(block_id b0, b0)]) | Some (Many d) \<Rightarrow> Many (dset (block_id b) b d))"
  have ins: "map_insert k b m = dset k c m"
    by (simp add: map_insert_def c_def split: option.splits cached_blocks.splits)
  have c: "cached_ok c \<and> set (blocks_of c) = insert b {x. (k, x) \<in> entries m}"
  proof (cases "dget m k")
    case None
    with assms show ?thesis by (simp add: c_def cached_ok_def blocks_of_def entries_def)
  next
    case (Some c0)
    with assms(1) have ok: "cached_ok c0" by (auto simp: map_ok_def)
    show ?thesis
    proof (cases c0)
      case (Single b0)
      with ok have "cached_ok (Many [(block_id b0, b0)])" by (simp add: cached_ok_def)
      from cached_ok_dset [OF this assms(2)] show ?thesis
        using Some Single by (auto simp: c_def blocks_of_def entries_def)
    next
      case (Many d)
      with ok cached_ok_dset [of d b] assms(2) show ?thesis
        using Some Many by (auto simp: c_def blocks_of_def entries_def)
    qed
  qed
  show "map_ok (map_insert k b m)" using assms(1) c by (simp add: ins map_ok_dset)
  show "entries (map_insert k b m) = insert (k, b) (entries m)"
    using c by (auto simp: ins entries_dset)
qed

lemma map_pop_ok:
  assumes "map_ok m" "b \<in> range Blk"
  shows "map_ok (snd (map_pop k (block_id b) m))"
    and "entries (snd (map_pop k (block_id b) m)) = entries m - {(k, b)}"
    and "fst (map_pop k (block_id b) m) = (if (k, b) \<in> entries m then Some b else None)"
proof -
  have "map_ok (snd (map_pop k (block_id b) m)) \<and>
    entries (snd (map_pop k (block_id b) m)) = entries m - {(k, b)} \<and>
    fst (map_pop k (block_id b) m) = (if (k, b) \<in> entries m then Some b else None)"
  proof (cases "dget m k")
    case None
    with assms show ?thesis by (auto simp: map_pop_def entries_def)
  next
    case (Some c)
    with assms(1) have ok: "cached_ok c" by (auto simp: map_ok_def)
    show ?thesis
    proof (cases c)
      case (Single b0)
      with Some have e: "(k, x) \<in> entries m \<longleftrightarrow> x = b0" for x by (simp add: dget_entries blocks_of_def)
      have pop: "map_pop k (block_id b) m =
          (if b0 = b then (Some b, ddel k m) else (None, dset k (Single b0) (ddel k m)))"
        using Some Single ok assms(2) by (auto simp: map_pop_def cached_ok_def)
      have "entries (snd (map_pop k (block_id b) m)) = entries m - {(k, b)}"
        using e by (auto simp: pop entries_dset entries_ddel blocks_of_def)
      with e show ?thesis using assms(1) ok Single by (simp add: pop map_ok_dset map_ok_ddel)
    next
      case (Many d)
      note del = cached_ok_ddel [of d b, OF _ assms(2)]
      have fst: "fst (map_pop k (block_id b) m) = (if (k, b) \<in> entries m then Some b else None)"
        using Some Many many_dget [of d b] ok assms(2) by (simp add: map_pop_def entries_def blocks_of_def Let_def)
      have snd: "snd (map_pop k (block_id b) m) =
          (if ddel (block_id b) d \<noteq> [] then dset k (Many (ddel (block_id b) d)) (ddel k m) else ddel k m)"
        using Some Many by (simp add: map_pop_def Let_def)
      have "map_ok (snd (map_pop k (block_id b) m))"
        using assms(1) del(1) ok Many by (simp add: snd map_ok_dset map_ok_ddel)
      moreover have "entries (snd (map_pop k (block_id b) m)) = entries m - {(k, b)}"
      proof -
        have e: "(k, x) \<in> entries m \<longleftrightarrow> x \<in> snd ` set d" for x using Some Many by (simp add: dget_entries blocks_of_def)
        have "snd ` set (ddel (block_id b) d) = snd ` set d - {b}" using del(2) ok Many by simp
        with e have "x \<in> snd ` set (ddel (block_id b) d) \<longleftrightarrow> (k, x) \<in> entries m \<and> x \<noteq> b" for x by simp
        then show ?thesis
          by (cases "ddel (block_id b) d = []") (auto simp: snd entries_dset entries_ddel blocks_of_def simp del: e)
      qed
      ultimately show ?thesis using fst by simp
    qed
  qed
  then show "map_ok (snd (map_pop k (block_id b) m))"
    and "entries (snd (map_pop k (block_id b) m)) = entries m - {(k, b)}"
    and "fst (map_pop k (block_id b) m) = (if (k, b) \<in> entries m then Some b else None)" by simp_all
qed

lemma contain_iff:
  assumes "map_ok m" "b \<in> range Blk"
  shows "contain m k (block_id b) \<longleftrightarrow> (k, b) \<in> entries m"
proof (cases "dget m k")
  case (Some c)
  with assms(1) have ok: "cached_ok c" by (auto simp: map_ok_def)
  then show ?thesis
    using Some assms(2) many_dget by (cases c) (auto simp: contain_def entries_def blocks_of_def cached_ok_def)
qed (simp add: contain_def entries_def)

lemma get_one_block_ok:
  assumes "map_ok m"
  shows "\<exists>r. get_one_block m k = Inr r \<and>
    (case r of None \<Rightarrow> \<forall>b. (k, b) \<notin> entries m | Some b \<Rightarrow> (k, b) \<in> entries m)"
proof (cases "dget m k")
  case (Some c)
  with assms have "cached_ok c" by (auto simp: map_ok_def)
  with Some show ?thesis
    by (cases c; cases "case c of Many d \<Rightarrow> d | _ \<Rightarrow> []")
      (auto simp: get_one_block_def entries_def blocks_of_def cached_ok_def split: list.splits)
qed (simp add: get_one_block_def entries_def)


section \<open>The interface\<close>

text \<open>
  What the pool relies on of the index, for any representation of it: a set of entries, with
  insertion, removal, membership and the choice of one block per key.
\<close>

locale block_index =
  fixes ok :: "'m \<Rightarrow> bool" and ents :: "'m \<Rightarrow> ('k \<times> 'b) set" and real :: "'b \<Rightarrow> bool" and ident :: "'b \<Rightarrow> int"
    and ins :: "'k \<Rightarrow> 'b \<Rightarrow> 'm \<Rightarrow> 'm" and pop :: "'k \<Rightarrow> int \<Rightarrow> 'm \<Rightarrow> 'b option \<times> 'm"
    and has :: "'m \<Rightarrow> 'k \<Rightarrow> int \<Rightarrow> bool" and one :: "'m \<Rightarrow> 'k \<Rightarrow> 'b option result"
  assumes ins_ok: "ok m \<Longrightarrow> real b \<Longrightarrow> ok (ins k b m)"
    and ins_ents: "ok m \<Longrightarrow> real b \<Longrightarrow> ents (ins k b m) = insert (k, b) (ents m)"
    and pop_ok: "ok m \<Longrightarrow> real b \<Longrightarrow> ok (snd (pop k (ident b) m))"
    and pop_ents: "ok m \<Longrightarrow> real b \<Longrightarrow> ents (snd (pop k (ident b) m)) = ents m - {(k, b)}"
    and pop_result: "ok m \<Longrightarrow> real b \<Longrightarrow> fst (pop k (ident b) m) = (if (k, b) \<in> ents m then Some b else None)"
    and has_iff: "ok m \<Longrightarrow> real b \<Longrightarrow> has m k (ident b) \<longleftrightarrow> (k, b) \<in> ents m"
    and one_result: "ok m \<Longrightarrow> \<exists>r. one m k = Inr r \<and>
      (case r of None \<Rightarrow> \<forall>b. (k, b) \<notin> ents m | Some b \<Rightarrow> (k, b) \<in> ents m)"
begin

lemma one_hit: "ok m \<Longrightarrow> (k, b) \<in> ents m \<Longrightarrow> \<exists>b'. one m k = Inr (Some b') \<and> (k, b') \<in> ents m"
  using one_result [of m k] by (auto split: option.splits)

lemma one_miss: "ok m \<Longrightarrow> (\<And>b. (k, b) \<notin> ents m) \<Longrightarrow> one m k = Inr None"
  using one_result [of m k] by (auto split: option.splits)

lemma one_sound: "ok m \<Longrightarrow> one m k = Inr (Some b) \<Longrightarrow> (k, b) \<in> ents m"
  using one_result [of m k] by (auto split: option.splits)

lemma ins_then_one: "ok m \<Longrightarrow> real b \<Longrightarrow> \<exists>b'. one (ins k b m) k = Inr (Some b') \<and> (k, b') \<in> insert (k, b) (ents m)"
  using one_hit [of "ins k b m" k b] ins_ok [of m b k] ins_ents [of m b k] by auto

lemma ins_then_pop: "ok m \<Longrightarrow> real b \<Longrightarrow> (k, b) \<notin> ents m \<Longrightarrow>
    fst (pop k (ident b) (ins k b m)) = Some b \<and> ents (snd (pop k (ident b) (ins k b m))) = ents m"
  by (auto simp: ins_ok ins_ents pop_ents pop_result)

end

interpretation bm: block_index map_ok entries "\<lambda>b. b \<in> range Blk" block_id map_insert map_pop contain get_one_block
  by unfold_locales (simp_all only: map_insert_ok map_pop_ok contain_iff get_one_block_ok)

end
