(* ===== verification/Block_Pool.thy ===== *)
theory Block_Pool
  imports Complex_Main Block_Queue Block_Map Block_Hash
begin

text \<open>
  \<^verbatim>\<open>BlockPool\<close> of \<^verbatim>\<open>vllm/v1/core/block_pool.py\<close>: allocation, reference counting, eviction and
  the prefix-cache index over the blocks of the store. Metrics collectors only observe and are
  left out; a Python set is a list without duplicates in insertion order; the medium
  of an event is always the GPU.
\<close>

section \<open>State\<close>

datatype kv_event =
    BlockStored "external_block_hash list" "external_block_hash option" "int list" int "int option" "string option"
      "py_key list option list option" int
  | BlockRemoved "external_block_hash list" int
  | AllBlocksCleared

text \<open>
  The pool extends the store, so that the free queue's operations apply to it.
  \<open>use_int_block_hashes\<close> is the setting \<^verbatim>\<open>VLLM_KV_EVENTS_USE_INT_BLOCK_HASHES\<close>.
\<close>

record block_pool = block_store +
  num_gpu_blocks :: int
  enable_caching :: bool
  hash_block_size :: int
  null_block :: bref
  cached_block_hash_to_block :: block_map
  cached_block_hashes_by_block :: "(int, bytes list) dict"
  enable_kv_cache_events :: bool
  use_int_block_hashes :: bool
  kv_event_queue :: "kv_event list"

definition pool_blocks :: "block_pool \<Rightarrow> bref list" where
  "pool_blocks p = map Blk [0..<nat (num_gpu_blocks p)]"

definition pool_init :: "int \<Rightarrow> bool \<Rightarrow> int \<Rightarrow> bool \<Rightarrow> bool \<Rightarrow> block_pool result" where
  "pool_init n caching hbs events use_int =
     eassert (n > 0)
       (let p0 = \<lparr>heap = (\<lambda>_. new_block), num_free_blocks = 0, num_gpu_blocks = n, enable_caching = caching,
              hash_block_size = hbs, null_block = Blk 0, cached_block_hash_to_block = [],
              cached_block_hashes_by_block = [], enable_kv_cache_events = events,
              use_int_block_hashes = use_int, kv_event_queue = []\<rparr>
        in ebind (popleft (queue_init (pool_blocks p0) p0)) (\<lambda>(nb, p1).
             Inr (upd_block nb (\<lambda>b. b\<lparr>is_null := True\<rparr>) (p1\<lparr>null_block := nb\<rparr>))))"

definition get_num_free_blocks :: "block_pool \<Rightarrow> int" where
  "get_num_free_blocks p = num_free_blocks p"

text \<open>The division of the code is in floating point; the model's is exact.\<close>

definition get_usage :: "block_pool \<Rightarrow> rat" where
  "get_usage p =
     (let total_gpu_blocks = num_gpu_blocks p - 1
      in if total_gpu_blocks = 0 then 0 else 1 - of_int (get_num_free_blocks p) / of_int total_gpu_blocks)"


section \<open>The index of cached blocks\<close>

definition push_event :: "kv_event \<Rightarrow> block_pool \<Rightarrow> block_pool" where
  "push_event e p = p\<lparr>kv_event_queue := kv_event_queue p @ [e]\<rparr>"

definition external_hash :: "block_pool \<Rightarrow> bytes \<Rightarrow> external_block_hash" where
  "external_hash p h = maybe_convert_block_hash (use_int_block_hashes p) h"

fun lookup_groups :: "block_pool \<Rightarrow> bytes \<Rightarrow> int list \<Rightarrow> bref list \<Rightarrow> bref list option result" where
  "lookup_groups p bh [] cached = Inr (Some cached)"
| "lookup_groups p bh (g # gs) cached =
     ebind (make_block_hash_with_group_id bh g) (\<lambda>key.
     ebind (get_one_block (cached_block_hash_to_block p) key) (\<lambda>found.
     (case found of None \<Rightarrow> Inr None | Some b \<Rightarrow> lookup_groups p bh gs (cached @ [b]))))"

definition get_cached_block :: "bytes \<Rightarrow> int list \<Rightarrow> block_pool \<Rightarrow> bref list option result" where
  "get_cached_block bh group_ids p = lookup_groups p bh group_ids []"

text \<open>The loop that takes a block out of the index under each of its hashes.\<close>

fun pop_hashes :: "bref \<Rightarrow> bytes list \<Rightarrow> block_map \<Rightarrow> bytes list \<times> block_map" where
  "pop_hashes b [] m = ([], m)"
| "pop_hashes b (k # ks) m =
     (case map_pop k (block_id b) m of (x, m1) \<Rightarrow>
        (case pop_hashes b ks m1 of (removed, m2) \<Rightarrow> (if x \<noteq> None then k # removed else removed, m2)))"

definition all_hashes :: "bref \<Rightarrow> block_pool \<Rightarrow> bytes list" where
  "all_hashes b p =
     (case block_hash (heap p b) of None \<Rightarrow> [] | Some h \<Rightarrow> [h]) @
     dget_default (cached_block_hashes_by_block p) (block_id b) []"

definition remove_cached_block_hashes :: "bref \<Rightarrow> block_pool \<Rightarrow> bytes list \<times> block_pool" where
  "remove_cached_block_hashes b p =
     (let hashes = all_hashes b p;
          p1 = p\<lparr>cached_block_hashes_by_block := ddel (block_id b) (cached_block_hashes_by_block p)\<rparr>
      in if hashes = [] then ([], p1)
         else case pop_hashes b hashes (cached_block_hash_to_block p1) of (removed, m) \<Rightarrow>
           (removed, upd_block b reset_hash (p1\<lparr>cached_block_hash_to_block := m\<rparr>)))"

definition emit_block_removed_events :: "bytes list \<Rightarrow> block_pool \<Rightarrow> block_pool" where
  "emit_block_removed_events hashes p =
     (if \<not> enable_kv_cache_events p then p
      else fold (\<lambda>h q. push_event (BlockRemoved [external_hash q (get_block_hash h)] (get_group_id h)) q) hashes p)"

definition insert_block_hash :: "bytes \<Rightarrow> bref \<Rightarrow> int option \<Rightarrow> block_pool \<Rightarrow> block_pool result" where
  "insert_block_hash key b ntoks p =
     (if block_hash (heap p b) = Some key then Inr p
      else if contain (cached_block_hash_to_block p) key (block_id b) then Inr p
      else
        ebind (if block_hash (heap p b) = None
               then ebind (set_block_hash key ntoks (heap p b)) (\<lambda>blk. Inr (upd_block b (\<lambda>_. blk) p))
               else
                 (let old = dget_default (cached_block_hashes_by_block p) (block_id b) []
                  in Inr (p\<lparr>cached_block_hashes_by_block :=
                        dset (block_id b) (set_add key old) (cached_block_hashes_by_block p)\<rparr>)))
          (\<lambda>p1. Inr (p1\<lparr>cached_block_hash_to_block := map_insert key b (cached_block_hash_to_block p1)\<rparr>)))"

definition move_block_hashes :: "bref \<Rightarrow> bref \<Rightarrow> block_pool \<Rightarrow> block_pool result" where
  "move_block_hashes src dst p =
     eassert (block_hash (heap p dst) = None)
       (eassert (dget (cached_block_hashes_by_block p) (block_id dst) = None)
          (let ntoks = block_hash_num_tokens (heap p src)
           in case remove_cached_block_hashes src p of (removed, p1) \<Rightarrow>
             efold (\<lambda>h. insert_block_hash h dst ntoks) removed p1))"


section \<open>Caching full blocks\<close>

definition masked_out :: "bool list option \<Rightarrow> nat \<Rightarrow> bool" where
  "masked_out block_mask i = (case block_mask of None \<Rightarrow> False | Some m \<Rightarrow> \<not> m ! i)"

definition cache_one_block ::
    "bytes list \<Rightarrow> int \<Rightarrow> int \<Rightarrow> int \<Rightarrow> bool list option \<Rightarrow> nat \<times> bref \<Rightarrow>
     external_block_hash list \<times> block_pool \<Rightarrow> (external_block_hash list \<times> block_pool) result" where
  "cache_one_block new_block_hashes num_cached_blocks block_size gid block_mask = (\<lambda>(i, blk) (new_hashes, p).
     if is_null (heap p blk) \<or> masked_out block_mask i then Inr (new_hashes, p)
     else
       ebind (py_index new_block_hashes (int i)) (\<lambda>bh.
       ebind (make_block_hash_with_group_id bh gid) (\<lambda>key.
       (let num_hash_tokens = (num_cached_blocks + int i + 1) * block_size in
       ebind (if block_hash (heap p blk) \<noteq> None
              then eassert (case block_hash_num_tokens (heap p blk) of None \<Rightarrow> False | Some t \<Rightarrow> t < num_hash_tokens)
                     (case remove_cached_block_hashes blk p of (removed, p1) \<Rightarrow>
                        Inr (emit_block_removed_events removed p1))
              else Inr p) (\<lambda>p2.
       ebind (insert_block_hash key blk (Some num_hash_tokens) p2) (\<lambda>p3.
       Inr (if enable_kv_cache_events p3 then new_hashes @ [external_hash p3 bh] else new_hashes, p3)))))))"

definition build_block_stored_event ::
    "request \<Rightarrow> external_block_hash list \<Rightarrow> external_block_hash option \<Rightarrow> int \<Rightarrow> int \<Rightarrow> int \<Rightarrow> int \<Rightarrow>
     py_key list option list \<Rightarrow> kv_event" where
  "build_block_stored_event r hashes parent start_token_idx end_token_idx block_size gid extra_keys_list =
     BlockStored hashes parent (py_slice (all_token_ids r) start_token_idx end_token_idx) block_size
       (map_option adapter_id (lora_request r)) (map_option lora_name (lora_request r))
       (if extra_keys_list \<noteq> [] then Some extra_keys_list else None) gid"

text \<open>The extra keys of the blocks in an event; the null and masked-out ones are skipped.\<close>

definition event_extra_keys ::
    "hash_env \<Rightarrow> (int \<Rightarrow> bool result) \<Rightarrow> int \<Rightarrow> int list \<Rightarrow> request \<Rightarrow> (py_key list option list \<times> request) result" where
  "event_extra_keys env skip block_size idxs r =
     ebind (efold (\<lambda>i (r, cur_mm_idx, acc).
         ebind (skip i) (\<lambda>s.
         if s then Inr (r, cur_mm_idx, acc)
         else
           ebind (generate_block_hash_extra_keys env r (i * block_size) (i * block_size + block_size) cur_mm_idx)
             (\<lambda>(extra_keys, idx, r'). Inr (r', idx, acc @ [extra_keys]))))
       idxs (r, 0, []))
     (\<lambda>(r, _, acc). Inr (acc, r))"

definition cache_full_blocks ::
    "hash_env \<Rightarrow> request \<Rightarrow> bref list \<Rightarrow> int \<Rightarrow> int \<Rightarrow> int \<Rightarrow> int \<Rightarrow> bool list option \<Rightarrow> block_pool \<Rightarrow>
     (request \<times> block_pool) result" where
  "cache_full_blocks env r blocks num_cached_blocks num_full_blocks block_size gid block_mask p =
     (if num_cached_blocks \<ge> num_full_blocks then Inr (r, p)
      else
        (let new_full_blocks = py_slice blocks num_cached_blocks num_full_blocks in
        eassert (case block_mask of None \<Rightarrow> True | Some m \<Rightarrow> length m = length new_full_blocks)
        (ebind (resolve_block_hashes (HashList (block_hashes r)) (hash_block_size p) block_size False None) (\<lambda>hs.
        ebind (bhl_slice_from hs num_cached_blocks) (\<lambda>new_block_hashes.
        ebind (efold (cache_one_block new_block_hashes num_cached_blocks block_size gid block_mask)
                 (List.enumerate 0 new_full_blocks) ([], p)) (\<lambda>(new_hashes, p1).
        if \<not> enable_kv_cache_events p1 then Inr (r, p1)
        else
          ebind (if num_cached_blocks = 0 then Inr None
                 else ebind (bhl_get hs (num_cached_blocks - 1)) (\<lambda>h. Inr (Some (external_hash p1 h)))) (\<lambda>parent.
          ebind (event_extra_keys env
                   (\<lambda>i. ebind (py_index blocks i) (\<lambda>b.
                      Inr (is_null (heap p1 b) \<or> masked_out block_mask (nat (i - num_cached_blocks)))))
                   block_size [num_cached_blocks..num_full_blocks - 1] r) (\<lambda>(extra_keys_list, r').
          Inr (r', push_event (build_block_stored_event r' new_hashes parent (num_cached_blocks * block_size)
                     (num_full_blocks * block_size) block_size gid extra_keys_list) p1)))))))))"

definition emit_cached_block_events ::
    "hash_env \<Rightarrow> request \<Rightarrow> int \<Rightarrow> int \<Rightarrow> int \<Rightarrow> block_pool \<Rightarrow> (request \<times> block_pool) result" where
  "emit_cached_block_events env r num_cached_blocks block_size gid p =
     (if \<not> enable_kv_cache_events p \<or> num_cached_blocks = 0 then Inr (r, p)
      else
        ebind (resolve_block_hashes (HashList (block_hashes r)) (hash_block_size p) block_size False None) (\<lambda>hs.
        ebind (emap (\<lambda>i. ebind (bhl_get hs i) (\<lambda>h. Inr (external_hash p h))) [0..num_cached_blocks - 1]) (\<lambda>cached_hashes.
        ebind (event_extra_keys env (\<lambda>_. Inr False) block_size [0..num_cached_blocks - 1] r) (\<lambda>(extra_keys_list, r').
        if cached_hashes = [] then Inr (r', p)
        else
          Inr (r', push_event (build_block_stored_event r' cached_hashes None 0 (num_cached_blocks * block_size)
                     block_size gid extra_keys_list) p)))))"


section \<open>Partial blocks\<close>

definition get_partial_block_hash :: "request \<Rightarrow> int \<Rightarrow> block_pool \<Rightarrow> bytes result" where
  "get_partial_block_hash r ntoks p =
     eassert (ntoks mod hash_block_size p = 0)
       (let num_hash_blocks = ntoks div hash_block_size p
        in eassert (0 < num_hash_blocks \<and> num_hash_blocks \<le> int (length (block_hashes r)))
             (py_index (block_hashes r) (num_hash_blocks - 1)))"

definition get_partial_block_parent_hash_and_start :: "request \<Rightarrow> int \<Rightarrow> block_pool \<Rightarrow> (bytes option \<times> int) result" where
  "get_partial_block_parent_hash_and_start r ntoks p =
     (let num_hash_blocks = ntoks div hash_block_size p
      in ebind (if num_hash_blocks > 1
                then ebind (py_index (block_hashes r) (num_hash_blocks - 2)) (\<lambda>h. Inr (Some h))
                else Inr None)
           (\<lambda>parent. Inr (parent, (num_hash_blocks - 1) * hash_block_size p)))"

text \<open>The hashes of a shorter prefix make way for the new one.\<close>

definition drop_shorter_hashes :: "bool \<Rightarrow> bref \<Rightarrow> int \<Rightarrow> block_pool \<Rightarrow> block_pool" where
  "drop_shorter_hashes already_cached b num_hash_tokens p =
     (if \<not> already_cached \<and> block_hash (heap p b) \<noteq> None \<and>
         (case block_hash_num_tokens (heap p b) of None \<Rightarrow> False | Some t \<Rightarrow> t < num_hash_tokens)
      then (case remove_cached_block_hashes b p of (removed, q) \<Rightarrow> emit_block_removed_events removed q)
      else p)"

definition emit_partial_stored ::
    "hash_env \<Rightarrow> request \<Rightarrow> bytes \<Rightarrow> int \<Rightarrow> int \<Rightarrow> bool \<Rightarrow> block_pool \<Rightarrow> (request \<times> block_pool) result" where
  "emit_partial_stored env r bh ntoks gid already_cached p =
     (if enable_kv_cache_events p \<and> \<not> already_cached then
        ebind (get_partial_block_parent_hash_and_start r ntoks p) (\<lambda>(parent, block_start).
        ebind (generate_block_hash_extra_keys env r block_start ntoks (if block_start > 0 then -1 else 0))
          (\<lambda>(extra_keys, _, r').
        Inr (r', push_event
          (BlockStored [external_hash p bh] (map_option (external_hash p) parent)
             (py_slice (all_token_ids r') block_start ntoks) (ntoks - block_start)
             (map_option adapter_id (lora_request r')) (map_option lora_name (lora_request r'))
             (Some [extra_keys]) gid) p)))
      else Inr (r, p))"

definition cache_partial_block ::
    "hash_env \<Rightarrow> request \<Rightarrow> bref \<Rightarrow> int \<Rightarrow> int \<Rightarrow> int \<Rightarrow> block_pool \<Rightarrow> (bytes option \<times> request \<times> block_pool) result" where
  "cache_partial_block env r b ntoks gid block_size p =
     (if is_null (heap p b) then Inr (None, r, p)
      else
        eassert (block_size > hash_block_size p)
        (eassert (block_size mod hash_block_size p = 0)
        (eassert (ntoks mod block_size \<noteq> 0)
        (ebind (get_partial_block_hash r ntoks p) (\<lambda>bh.
        (let num_hash_blocks = ntoks div hash_block_size p in
        ebind (make_block_hash_with_group_id bh gid) (\<lambda>key.
        (let already_cached = (block_hash (heap p b) = Some key \<or>
               contain (cached_block_hash_to_block p) key (block_id b));
             p1 = drop_shorter_hashes already_cached b (num_hash_blocks * hash_block_size p) p in
        ebind (insert_block_hash key b (Some (num_hash_blocks * hash_block_size p)) p1) (\<lambda>p2.
        ebind (emit_partial_stored env r bh ntoks gid already_cached p2) (\<lambda>(r', p3).
        Inr (Some key, r', p3)))))))))))"


section \<open>Allocation and reference counts\<close>

definition maybe_evict_cached_block :: "bref \<Rightarrow> block_pool \<Rightarrow> bool \<times> block_pool" where
  "maybe_evict_cached_block b p =
     (case remove_cached_block_hashes b p of (evicted, p1) \<Rightarrow>
        if evicted = [] then (False, p1) else (True, emit_block_removed_events evicted p1))"

definition add_ref :: "int \<Rightarrow> bref \<Rightarrow> block_pool \<Rightarrow> block_pool" where
  "add_ref d b = upd_block b (\<lambda>x. x\<lparr>ref_cnt := ref_cnt x + d\<rparr>)"

definition take_new_block :: "bref \<Rightarrow> block_pool \<Rightarrow> block_pool result" where
  "take_new_block b p =
     (let p1 = (if enable_caching p then snd (maybe_evict_cached_block b p) else p)
      in eassert (ref_cnt (heap p1 b) = 0) (Inr (add_ref 1 b p1)))"

definition get_new_blocks :: "int \<Rightarrow> block_pool \<Rightarrow> (bref list \<times> block_pool) result" where
  "get_new_blocks n p =
     (if n > get_num_free_blocks p then Inl ValueError
      else ebind (popleft_n n p) (\<lambda>(ret, p1). ebind (efold take_new_block ret p1) (\<lambda>p2. Inr (ret, p2))))"

definition touch_block :: "bref \<Rightarrow> block_pool \<Rightarrow> block_pool result" where
  "touch_block b p =
     ebind (if ref_cnt (heap p b) = 0 \<and> \<not> is_null (heap p b) then remove b p else Inr p)
       (\<lambda>p1. Inr (add_ref 1 b p1))"

definition touch :: "bref list \<Rightarrow> block_pool \<Rightarrow> block_pool result" where
  "touch blocks p = efold touch_block blocks p"

fun release_blocks :: "bref list \<Rightarrow> bref list \<Rightarrow> bref list \<Rightarrow> block_pool \<Rightarrow> bref list \<times> bref list \<times> block_pool" where
  "release_blocks [] with_hash without_hash p = (with_hash, without_hash, p)"
| "release_blocks (b # bs) with_hash without_hash p =
     (let p1 = add_ref (-1) b p in
      if ref_cnt (heap p1 b) = 0 \<and> \<not> is_null (heap p1 b) then
        (if block_hash (heap p1 b) = None \<and> enable_caching p1
         then release_blocks bs with_hash (without_hash @ [b]) p1
         else release_blocks bs (with_hash @ [b]) without_hash p1)
      else release_blocks bs with_hash without_hash p1)"

definition free_blocks :: "bref list \<Rightarrow> block_pool \<Rightarrow> block_pool result" where
  "free_blocks ordered_blocks p =
     (case release_blocks ordered_blocks [] [] p of (with_hash, without_hash, p1) \<Rightarrow>
        ebind (prepend_n without_hash p1) (append_n with_hash))"

definition evict_blocks :: "int list \<Rightarrow> block_pool \<Rightarrow> block_pool result" where
  "evict_blocks block_ids p =
     efold (\<lambda>bid q. eassert (bid < int (length (pool_blocks q)))
         (ebind (py_index (pool_blocks q) bid) (\<lambda>b. Inr (snd (maybe_evict_cached_block b q)))))
       block_ids p"

definition reset_prefix_cache :: "block_pool \<Rightarrow> bool \<times> block_pool" where
  "reset_prefix_cache p =
     (if num_gpu_blocks p - get_num_free_blocks p \<noteq> 1 then (False, p)
      else
        (let p1 = fold (\<lambda>b. upd_block b reset_hash) (pool_blocks p)
               (p\<lparr>cached_block_hash_to_block := [], cached_block_hashes_by_block := []\<rparr>)
         in (True, if enable_kv_cache_events p1 then push_event AllBlocksCleared p1 else p1)))"

definition take_events :: "block_pool \<Rightarrow> kv_event list \<times> block_pool" where
  "take_events p =
     (if \<not> enable_kv_cache_events p then ([], p) else (kv_event_queue p, p\<lparr>kv_event_queue := []\<rparr>))"

end
