(* ===== verification/Pool_Invariant.thy ===== *)
theory Pool_Invariant
  imports Block_Pool
begin

text \<open>
  The invariant of the block pool and what every operation does under it: the free queue holds
  exactly the unreferenced blocks, and the index holds exactly the hashes the blocks carry.
\<close>

section \<open>The invariant\<close>

definition real_blocks :: "block_pool \<Rightarrow> bref set" where
  "real_blocks p = {b. \<exists>i. b = Blk i \<and> 0 < i \<and> int i < num_gpu_blocks p}"

definition null_ok :: "block_pool \<Rightarrow> bool" where
  "null_ok p \<longleftrightarrow> num_gpu_blocks p > 0 \<and> null_block p = Blk 0 \<and> (\<forall>i. is_null (heap p (Blk i)) \<longleftrightarrow> i = 0)"

definition free_ok :: "block_pool \<Rightarrow> bref list \<Rightarrow> bool" where
  "free_ok p fl \<longleftrightarrow>
     queue_rep p fl \<and> set fl \<subseteq> real_blocks p \<and>
     (\<forall>b \<in> real_blocks p. 0 \<le> ref_cnt (heap p b) \<and> (ref_cnt (heap p b) = 0 \<longleftrightarrow> b \<in> set fl))"

definition cache_ok :: "block_pool \<Rightarrow> bool" where
  "cache_ok p \<longleftrightarrow>
     map_ok (cached_block_hash_to_block p) \<and>
     entries (cached_block_hash_to_block p) = {(k, b). b \<in> real_blocks p \<and> k \<in> set (all_hashes b p)} \<and>
     (\<forall>i. distinct (all_hashes (Blk i) p)) \<and>
     (\<forall>i. Blk i \<notin> real_blocks p \<longrightarrow> block_hash (heap p (Blk i)) = None) \<and>
     (\<forall>i. block_hash (heap p (Blk i)) = None \<longrightarrow>
        block_hash_num_tokens (heap p (Blk i)) = None \<and> dget (cached_block_hashes_by_block p) (int i) = None)"

definition pool_ok :: "block_pool \<Rightarrow> bref list \<Rightarrow> bool" where
  "pool_ok p fl \<longleftrightarrow> null_ok p \<and> free_ok p fl \<and> cache_ok p"

lemma cache_okD:
  assumes "cache_ok p"
  shows "map_ok (cached_block_hash_to_block p)"
    "(k, b) \<in> entries (cached_block_hash_to_block p) \<longleftrightarrow> b \<in> real_blocks p \<and> k \<in> set (all_hashes b p)"
    "b \<in> range Blk \<Longrightarrow> distinct (all_hashes b p)"
    "b \<in> range Blk \<Longrightarrow> b \<notin> real_blocks p \<Longrightarrow> block_hash (heap p b) = None"
    "b \<in> range Blk \<Longrightarrow> block_hash (heap p b) = None \<Longrightarrow> block_hash_num_tokens (heap p b) = None"
    "b \<in> range Blk \<Longrightarrow> block_hash (heap p b) = None \<Longrightarrow> dget (cached_block_hashes_by_block p) (block_id b) = None"
  using assms by (auto simp: cache_ok_def)

lemma cache_okI:
  assumes "map_ok (cached_block_hash_to_block p)"
    "\<And>k b. (k, b) \<in> entries (cached_block_hash_to_block p) \<longleftrightarrow> b \<in> real_blocks p \<and> k \<in> set (all_hashes b p)"
    "\<And>b. b \<in> range Blk \<Longrightarrow> distinct (all_hashes b p)"
    "\<And>b. b \<in> range Blk \<Longrightarrow> b \<notin> real_blocks p \<Longrightarrow> block_hash (heap p b) = None"
    "\<And>b. b \<in> range Blk \<Longrightarrow> block_hash (heap p b) = None \<Longrightarrow>
       block_hash_num_tokens (heap p b) = None \<and> dget (cached_block_hashes_by_block p) (block_id b) = None"
  shows "cache_ok p"
  unfolding cache_ok_def using assms(1-4) assms(5) [OF rangeI] by auto

lemma real_blocks_Blk: "b \<in> real_blocks p \<Longrightarrow> b \<in> range Blk"
  by (auto simp: real_blocks_def)

lemma finite_real_blocks [simp]: "finite (real_blocks p)" and card_real_blocks: "num_gpu_blocks p > 0 \<Longrightarrow> int (card (real_blocks p)) = num_gpu_blocks p - 1"
proof -
  have eq: "real_blocks p = Blk ` {1..<nat (num_gpu_blocks p)}"
    by (auto simp: real_blocks_def image_iff)
  show "finite (real_blocks p)" by (simp add: eq)
  show "int (card (real_blocks p)) = num_gpu_blocks p - 1" if "num_gpu_blocks p > 0"
    using that by (simp add: eq card_image inj_on_def)
qed

lemma null_not_real: "null_ok p \<Longrightarrow> b \<in> real_blocks p \<Longrightarrow> \<not> is_null (heap p b)"
  unfolding null_ok_def real_blocks_def by (elim CollectE exE conjE) simp

lemma all_hashes_Nil: "all_hashes b p = [] \<longleftrightarrow> block_hash (heap p b) = None \<and> dget_default (cached_block_hashes_by_block p) (block_id b) [] = []"
  by (cases "block_hash (heap p b)") (simp_all add: all_hashes_def)


section \<open>Frames\<close>

text \<open>
  \<open>core p\<close> is the pool without what caching changes; \<open>meta p\<close>, of the queue, is the pool without
  what queueing changes.
\<close>

definition core :: "block_pool \<Rightarrow> block_pool" where
  "core p = p\<lparr>heap := (\<lambda>r. reset_hash (heap p r)), cached_block_hash_to_block := [],
     cached_block_hashes_by_block := [], kv_event_queue := []\<rparr>"

lemma reset_hash_fields [simp]:
  "ref_cnt (reset_hash x) = ref_cnt x" "is_null (reset_hash x) = is_null x"
  "prev_free_block (reset_hash x) = prev_free_block x" "next_free_block (reset_hash x) = next_free_block x"
  "block_hash (reset_hash x) = None" "block_hash_num_tokens (reset_hash x) = None"
  by (simp_all add: reset_hash_def)

lemma core_block:
  assumes "core p' = core p"
  shows "ref_cnt (heap p' r) = ref_cnt (heap p r)" "is_null (heap p' r) = is_null (heap p r)"
    "prev_free_block (heap p' r) = prev_free_block (heap p r)" "next_free_block (heap p' r) = next_free_block (heap p r)"
proof -
  have eq: "reset_hash (heap p' r) = reset_hash (heap p r)"
    using arg_cong [OF assms, of "\<lambda>q. heap q r"] by (simp add: core_def)
  from arg_cong [OF eq, of ref_cnt] arg_cong [OF eq, of is_null] arg_cong [OF eq, of prev_free_block]
    arg_cong [OF eq, of next_free_block]
  show "ref_cnt (heap p' r) = ref_cnt (heap p r)" "is_null (heap p' r) = is_null (heap p r)"
    "prev_free_block (heap p' r) = prev_free_block (heap p r)" "next_free_block (heap p' r) = next_free_block (heap p r)"
    by simp_all
qed

lemma core_config:
  assumes "core p' = core p"
  shows "num_free_blocks p' = num_free_blocks p" "num_gpu_blocks p' = num_gpu_blocks p"
    "enable_caching p' = enable_caching p" "hash_block_size p' = hash_block_size p" "null_block p' = null_block p"
    "enable_kv_cache_events p' = enable_kv_cache_events p" "use_int_block_hashes p' = use_int_block_hashes p"
    "real_blocks p' = real_blocks p"
  using arg_cong [OF assms, of num_free_blocks] arg_cong [OF assms, of num_gpu_blocks]
    arg_cong [OF assms, of enable_caching] arg_cong [OF assms, of hash_block_size] arg_cong [OF assms, of null_block]
    arg_cong [OF assms, of enable_kv_cache_events] arg_cong [OF assms, of use_int_block_hashes]
  by (simp_all add: core_def real_blocks_def)

lemma core_ok:
  assumes "core p' = core p"
  shows "null_ok p' = null_ok p" "free_ok p' fl = free_ok p fl" "queue_rep p' = queue_rep p"
proof -
  show q: "queue_rep p' = queue_rep p"
    by (rule queue_rep_cong) (simp_all add: core_block [OF assms] core_config [OF assms])
  show "null_ok p' = null_ok p" "free_ok p' fl = free_ok p fl"
    by (simp_all add: null_ok_def free_ok_def q core_block [OF assms] core_config [OF assms])
qed

lemma meta_pool_config:
  assumes "meta p' = meta (p :: block_pool)"
  shows "num_gpu_blocks p' = num_gpu_blocks p"
    "enable_caching p' = enable_caching p" "hash_block_size p' = hash_block_size p" "null_block p' = null_block p"
    "enable_kv_cache_events p' = enable_kv_cache_events p" "use_int_block_hashes p' = use_int_block_hashes p"
    "cached_block_hash_to_block p' = cached_block_hash_to_block p" "kv_event_queue p' = kv_event_queue p"
    "cached_block_hashes_by_block p' = cached_block_hashes_by_block p" "real_blocks p' = real_blocks p"
    "all_hashes b p' = all_hashes b p"
  using arg_cong [OF assms, of num_gpu_blocks]
    arg_cong [OF assms, of enable_caching] arg_cong [OF assms, of hash_block_size] arg_cong [OF assms, of null_block]
    arg_cong [OF assms, of enable_kv_cache_events] arg_cong [OF assms, of use_int_block_hashes]
    arg_cong [OF assms, of cached_block_hash_to_block] arg_cong [OF assms, of cached_block_hashes_by_block]
    arg_cong [OF assms, of kv_event_queue] meta_fields [OF assms]
  by (simp_all add: meta_def real_blocks_def all_hashes_def)

lemma meta_ok:
  assumes "meta p' = meta (p :: block_pool)"
  shows "null_ok p' = null_ok p" "cache_ok p' = cache_ok p"
  by (simp_all add: null_ok_def cache_ok_def meta_fields [OF assms] meta_pool_config [OF assms])


section \<open>Removing and inserting hashes\<close>

lemma pop_hashes_ok:
  assumes "map_ok m" "b \<in> range Blk" "distinct ks"
  shows "map_ok (snd (pop_hashes b ks m)) \<and> entries (snd (pop_hashes b ks m)) = entries m - set ks \<times> {b} \<and>
    fst (pop_hashes b ks m) = filter (\<lambda>k. (k, b) \<in> entries m) ks"
  using assms
proof (induction ks arbitrary: m)
  case (Cons k ks)
  define m1 where "m1 = snd (map_pop k (block_id b) m)"
  have m1: "map_ok m1" "entries m1 = entries m - {(k, b)}"
    using Cons.prems bm.pop_ok [of m b k] bm.pop_ents [of m b k] by (simp_all add: m1_def)
  have pop: "map_pop k (block_id b) m = (if (k, b) \<in> entries m then Some b else None, m1)"
    using bm.pop_result [of m b k] Cons.prems by (simp add: m1_def prod_eq_iff)
  have "filter (\<lambda>l. (l, b) \<in> entries m1) ks = filter (\<lambda>l. (l, b) \<in> entries m) ks"
    using Cons.prems m1(2) by (auto intro!: filter_cong)
  with Cons.IH [OF m1(1)] Cons.prems m1(2) show ?case
    by (cases "pop_hashes b ks m1") (auto simp: pop)
qed simp

lemma all_hashes_upd:
  "all_hashes b (p\<lparr>cached_block_hash_to_block := m\<rparr>) = all_hashes b p"
  "all_hashes b (p\<lparr>kv_event_queue := e\<rparr>) = all_hashes b p"
  by (simp_all add: all_hashes_def)

lemma remove_hashes_ok:
  assumes ok: "cache_ok p" and b: "b \<in> range Blk" and rem: "remove_cached_block_hashes b p = (removed, p')"
  shows "cache_ok p'" "core p' = core p" "all_hashes b p' = []" "removed = all_hashes b p"
    "c \<in> range Blk \<Longrightarrow> c \<noteq> b \<Longrightarrow> all_hashes c p' = all_hashes c p" "c \<noteq> b \<Longrightarrow> heap p' c = heap p c"
    "kv_event_queue p' = kv_event_queue p" "block_hash (heap p' b) = None"
proof -
  define bb where "bb = ddel (block_id b) (cached_block_hashes_by_block p)"
  define hs where "hs = all_hashes b p"
  define m where "m = (if hs = [] then cached_block_hash_to_block p else snd (pop_hashes b hs (cached_block_hash_to_block p)))"
  have dist: "distinct hs" using cache_okD(3) [OF ok b] by (simp add: hs_def)
  note pop = pop_hashes_ok [OF cache_okD(1) [OF ok] b dist]
  have p': "p' = p\<lparr>cached_block_hashes_by_block := bb, cached_block_hash_to_block := m,
      heap := (if hs = [] then heap p else (heap p)(b := reset_hash (heap p b)))\<rparr>"
    using rem by (auto simp: remove_cached_block_hashes_def bb_def m_def hs_def Let_def upd_block_def split: prod.splits if_splits)
  have real: "b \<in> real_blocks p" if "hs \<noteq> []"
    using that cache_okD(4,6) [OF ok b] by (rule_tac ccontr) (simp add: hs_def all_hashes_Nil)
  have hb: "block_hash (heap p' b) = None" "block_hash_num_tokens (heap p' b) = None"
    using cache_okD(5) [OF ok b] by (auto simp: p' hs_def all_hashes_Nil)
  then show "block_hash (heap p' b) = None" by blast
  show core: "core p' = core p"
    by (auto simp: core_def p' fun_eq_iff reset_hash_def)
  have real': "real_blocks p' = real_blocks p" by (rule core_config [OF core])
  show ab: "all_hashes b p' = []" using hb by (simp add: all_hashes_Nil p' bb_def)
  show other_heap: "heap p' c = heap p c" if "c \<noteq> b" for c using that by (simp add: p')
  have other_by: "dget (cached_block_hashes_by_block p') (block_id c) = dget (cached_block_hashes_by_block p) (block_id c)"
    if "c \<in> range Blk" "c \<noteq> b" for c
    using that b by (auto simp: p' bb_def)
  show other: "all_hashes c p' = all_hashes c p" if "c \<in> range Blk" "c \<noteq> b" for c
    using that other_heap other_by by (simp add: all_hashes_def dget_default_def)
  show "removed = all_hashes b p"
  proof (cases "hs = []")
    case False
    have "removed = filter (\<lambda>k. (k, b) \<in> entries (cached_block_hash_to_block p)) hs"
      using rem pop False by (auto simp: remove_cached_block_hashes_def hs_def Let_def split: prod.splits)
    also have "\<dots> = hs" using cache_okD(2) [OF ok] real [OF False] by (simp add: hs_def)
    finally show ?thesis by (simp add: hs_def)
  qed (use rem in \<open>simp add: remove_cached_block_hashes_def hs_def\<close>)
  show "kv_event_queue p' = kv_event_queue p" by (simp add: p')
  have m: "entries m = entries (cached_block_hash_to_block p) - set hs \<times> {b}" "map_ok m"
    using pop cache_okD(1) [OF ok] by (auto simp: m_def)
  show "cache_ok p'"
  proof (rule cache_okI; (unfold real')?)
    show "map_ok (cached_block_hash_to_block p')" using m by (simp add: p')
    show "(k, c) \<in> entries (cached_block_hash_to_block p') \<longleftrightarrow> c \<in> real_blocks p \<and> k \<in> set (all_hashes c p')" for k c
    proof -
      have "cached_block_hash_to_block p' = m" by (simp add: p')
      then have e: "(k, c) \<in> entries (cached_block_hash_to_block p') \<longleftrightarrow>
          c \<in> real_blocks p \<and> k \<in> set (all_hashes c p) \<and> \<not> (k \<in> set (all_hashes b p) \<and> c = b)"
        by (simp add: m(1) hs_def cache_okD(2) [OF ok])
      show ?thesis
      proof (cases "c = b")
        case True
        then show ?thesis unfolding e by (simp add: ab)
      next
        case False
        then show ?thesis unfolding e using other [OF real_blocks_Blk [of c p] False] by auto
      qed
    qed
  next
    fix c assume c: "c \<in> range Blk"
    show "distinct (all_hashes c p')" using cache_okD(3) [OF ok c] ab other [OF c] by (cases "c = b") auto
    show "block_hash (heap p' c) = None" if "c \<notin> real_blocks p"
      using cache_okD(4) [OF ok c that] hb other_heap [of c] by (cases "c = b") auto
    show "block_hash_num_tokens (heap p' c) = None \<and> dget (cached_block_hashes_by_block p') (block_id c) = None"
      if "block_hash (heap p' c) = None"
    proof (cases "c = b")
      case True
      with hb show ?thesis by (simp add: p' bb_def)
    next
      case False
      with cache_okD(5,6) [OF ok c] that show ?thesis by (simp add: other_heap other_by c)
    qed
  qed
qed


lemma push_event_simps [simp]:
  "heap (push_event e p) = heap p" "num_free_blocks (push_event e p) = num_free_blocks p"
  "cached_block_hash_to_block (push_event e p) = cached_block_hash_to_block p"
  "cached_block_hashes_by_block (push_event e p) = cached_block_hashes_by_block p"
  "core (push_event e p) = core p"
  by (simp_all add: push_event_def core_def)

text \<open>Changing the event queue only.\<close>

definition same_but_events :: "block_pool \<Rightarrow> block_pool \<Rightarrow> bool" where
  "same_but_events p q \<longleftrightarrow> q = p\<lparr>kv_event_queue := kv_event_queue q\<rparr>"

lemma same_but_events_fields:
  assumes "same_but_events p q"
  shows "heap q = heap p" "core q = core p" "all_hashes b q = all_hashes b p" "cache_ok q = cache_ok p"
    "cached_block_hash_to_block q = cached_block_hash_to_block p"
proof -
  from assms have q: "q = p\<lparr>kv_event_queue := kv_event_queue q\<rparr>" by (simp add: same_but_events_def)
  show "heap q = heap p" "core q = core p" "all_hashes b q = all_hashes b p" "cache_ok q = cache_ok p"
    "cached_block_hash_to_block q = cached_block_hash_to_block p"
    by (subst q, simp add: core_def all_hashes_def cache_ok_def real_blocks_def)+
qed

lemma emit_removed_same: "same_but_events p (emit_block_removed_events hs p)"
proof -
  have "same_but_events p (fold (\<lambda>h q. push_event (BlockRemoved [external_hash q (get_block_hash h)] (get_group_id h)) q) hs p)"
  proof (induction hs arbitrary: p)
    case (Cons h hs)
    show ?case
      using Cons.IH [of "push_event (BlockRemoved [external_hash p (get_block_hash h)] (get_group_id h)) p"]
      by (simp add: same_but_events_def push_event_def)
  qed (simp add: same_but_events_def)
  then show ?thesis by (simp add: emit_block_removed_events_def same_but_events_def)
qed

lemma evict_ok:
  assumes ok: "cache_ok p" and b: "b \<in> range Blk"
  defines "p' \<equiv> snd (maybe_evict_cached_block b p)"
  shows "cache_ok p'" "core p' = core p" "all_hashes b p' = []"
    "c \<in> range Blk \<Longrightarrow> c \<noteq> b \<Longrightarrow> all_hashes c p' = all_hashes c p"
    "fst (maybe_evict_cached_block b p) \<longleftrightarrow> all_hashes b p \<noteq> []"
proof -
  obtain removed p1 where r: "remove_cached_block_hashes b p = (removed, p1)"
    by (cases "remove_cached_block_hashes b p")
  note ro = remove_hashes_ok [OF ok b r]
  have p': "p' = (if removed = [] then p1 else emit_block_removed_events removed p1)"
    and f: "fst (maybe_evict_cached_block b p) \<longleftrightarrow> removed \<noteq> []"
    by (auto simp: p'_def maybe_evict_cached_block_def r)
  note se = same_but_events_fields [OF emit_removed_same [of p1 removed]]
  from ro f show "fst (maybe_evict_cached_block b p) \<longleftrightarrow> all_hashes b p \<noteq> []" by simp
  show "cache_ok p'" "core p' = core p" "all_hashes b p' = []"
    "c \<in> range Blk \<Longrightarrow> c \<noteq> b \<Longrightarrow> all_hashes c p' = all_hashes c p"
    using ro se by (auto simp: p')
qed

lemma insert_hash_ok:
  assumes ok: "cache_ok p" and b: "b \<in> real_blocks p"
  shows "\<exists>p'. insert_block_hash key b nt p = Inr p' \<and> cache_ok p' \<and> core p' = core p \<and>
    all_hashes b p' = set_add key (all_hashes b p) \<and>
    (\<forall>c \<in> range Blk. c \<noteq> b \<longrightarrow> all_hashes c p' = all_hashes c p) \<and> (\<forall>c. c \<noteq> b \<longrightarrow> heap p' c = heap p c)"
proof (cases "key \<in> set (all_hashes b p)")
  case True
  have "contain (cached_block_hash_to_block p) key (block_id b)"
    using bm.has_iff [OF cache_okD(1) [OF ok] real_blocks_Blk [OF b]] cache_okD(2) [OF ok] True b by simp
  then have "insert_block_hash key b nt p = Inr p" by (simp add: insert_block_hash_def)
  then show ?thesis using ok True by (simp add: set_add_def)
next
  case False
  have bB: "b \<in> range Blk" using b by (rule real_blocks_Blk)
  define p1 where "p1 = (if block_hash (heap p b) = None
      then upd_block b (\<lambda>x. x\<lparr>block_hash := Some key, block_hash_num_tokens := nt\<rparr>) p
      else p\<lparr>cached_block_hashes_by_block := dset (block_id b)
        (set_add key (dget_default (cached_block_hashes_by_block p) (block_id b) [])) (cached_block_hashes_by_block p)\<rparr>)"
  define p' where "p' = p1\<lparr>cached_block_hash_to_block := map_insert key b (cached_block_hash_to_block p)\<rparr>"
  have ncont: "\<not> contain (cached_block_hash_to_block p) key (block_id b)"
    using bm.has_iff [OF cache_okD(1) [OF ok] bB] cache_okD(2) [OF ok] False by simp
  have nk: "block_hash (heap p b) \<noteq> Some key" using False by (auto simp: all_hashes_def)
  have ins: "insert_block_hash key b nt p = Inr p'"
    using ncont nk cache_okD(5) [OF ok bB]
    by (auto simp: insert_block_hash_def p'_def p1_def set_block_hash_def upd_block_def Let_def)
  have core: "core p' = core p"
    by (auto simp: core_def p'_def p1_def upd_block_def fun_eq_iff reset_hash_def)
  have real': "real_blocks p' = real_blocks p" by (rule core_config [OF core])
  have other_heap: "heap p' c = heap p c" if "c \<noteq> b" for c using that by (simp add: p'_def p1_def upd_block_def)
  have other_by: "dget (cached_block_hashes_by_block p') (block_id c) = dget (cached_block_hashes_by_block p) (block_id c)"
    if "c \<in> range Blk" "c \<noteq> b" for c
    using that bB by (auto simp: p'_def p1_def upd_block_def)
  have other: "all_hashes c p' = all_hashes c p" if "c \<in> range Blk" "c \<noteq> b" for c
    using that other_heap other_by by (simp add: all_hashes_def dget_default_def)
  have ab: "all_hashes b p' = all_hashes b p @ [key]"
    using False cache_okD(6) [OF ok bB]
    by (cases "block_hash (heap p b)")
      (auto simp: all_hashes_def p'_def p1_def upd_block_def set_add_def)
  have bh: "block_hash (heap p' b) \<noteq> None" by (auto simp: p'_def p1_def upd_block_def)
  have m: "map_ok (cached_block_hash_to_block p')"
    "entries (cached_block_hash_to_block p') = insert (key, b) (entries (cached_block_hash_to_block p))"
    using bm.ins_ok [OF cache_okD(1) [OF ok] bB] bm.ins_ents [OF cache_okD(1) [OF ok] bB] by (simp_all add: p'_def)
  have "cache_ok p'"
  proof (rule cache_okI; (unfold real')?)
    show "map_ok (cached_block_hash_to_block p')" by (rule m)
    show "(k, c) \<in> entries (cached_block_hash_to_block p') \<longleftrightarrow> c \<in> real_blocks p \<and> k \<in> set (all_hashes c p')" for k c
      using m(2) cache_okD(2) [OF ok, of k c] other [OF real_blocks_Blk [of c p]] ab b by (cases "c = b") auto
  next
    fix c assume c: "c \<in> range Blk"
    show "distinct (all_hashes c p')" using cache_okD(3) [OF ok c] ab other [OF c] False by (cases "c = b") auto
    show "block_hash (heap p' c) = None" if "c \<notin> real_blocks p"
      using cache_okD(4) [OF ok c that] other_heap [of c] that b by (cases "c = b") auto
    show "block_hash_num_tokens (heap p' c) = None \<and> dget (cached_block_hashes_by_block p') (block_id c) = None"
      if "block_hash (heap p' c) = None"
    proof (cases "c = b")
      case True
      with bh that show ?thesis by simp
    next
      case False
      with cache_okD(5,6) [OF ok c] that show ?thesis by (simp add: other_heap other_by c)
    qed
  qed
  with ins core ab other other_heap False show ?thesis by (auto simp: set_add_def)
qed



section \<open>Reference counts\<close>

definition pool_config :: "block_pool \<Rightarrow> int \<times> bool \<times> int \<times> bref \<times> bool \<times> bool" where
  "pool_config p = (num_gpu_blocks p, enable_caching p, hash_block_size p, null_block p,
     enable_kv_cache_events p, use_int_block_hashes p)"

lemma config_eqs:
  assumes "pool_config q = pool_config p"
  shows "num_gpu_blocks q = num_gpu_blocks p" "enable_caching q = enable_caching p"
    "hash_block_size q = hash_block_size p" "null_block q = null_block p" "real_blocks q = real_blocks p"
    "enable_kv_cache_events q = enable_kv_cache_events p"
  using assms by (simp_all add: pool_config_def real_blocks_def)

lemma core_pool_config:
  assumes "core q = core p"
  shows "pool_config q = pool_config p"
  by (simp add: pool_config_def core_config [OF assms])

lemma meta_config:
  assumes "meta q = meta (p :: block_pool)"
  shows "pool_config q = pool_config p"
  by (simp add: pool_config_def meta_pool_config [OF assms])

lemma add_ref_simps [simp]:
  "ref_cnt (heap (add_ref d b p) c) = (if c = b then ref_cnt (heap p b) + d else ref_cnt (heap p c))"
  "block_hash (heap (add_ref d b p) c) = block_hash (heap p c)"
  "block_hash_num_tokens (heap (add_ref d b p) c) = block_hash_num_tokens (heap p c)"
  "is_null (heap (add_ref d b p) c) = is_null (heap p c)"
  "num_free_blocks (add_ref d b p) = num_free_blocks p"
  "cached_block_hash_to_block (add_ref d b p) = cached_block_hash_to_block p"
  "cached_block_hashes_by_block (add_ref d b p) = cached_block_hashes_by_block p"
  "enable_caching (add_ref d b p) = enable_caching p"
  "all_hashes c (add_ref d b p) = all_hashes c p" "real_blocks (add_ref d b p) = real_blocks p"
  "pool_config (add_ref d b p) = pool_config p" "kv_event_queue (add_ref d b p) = kv_event_queue p"
  by (simp_all add: add_ref_def upd_block_def all_hashes_def real_blocks_def pool_config_def)

lemma add_ref_ok [simp]:
  "queue_rep (add_ref d b p) = queue_rep p" "cache_ok (add_ref d b p) = cache_ok p" "null_ok (add_ref d b p) = null_ok p"
proof -
  show "queue_rep (add_ref d b p) = queue_rep p"
    by (rule queue_rep_cong) (simp_all add: add_ref_def upd_block_def)
  show "cache_ok (add_ref d b p) = cache_ok p" by (simp add: cache_ok_def)
  show "null_ok (add_ref d b p) = null_ok p" by (simp add: null_ok_def) (simp add: add_ref_def upd_block_def)
qed

lemma take_new_block_ok:
  assumes "cache_ok p" "b \<in> range Blk" "ref_cnt (heap p b) = 0"
  shows "\<exists>q. take_new_block b p = Inr q \<and> cache_ok q \<and> queue_rep q = queue_rep p \<and> null_ok q = null_ok p \<and>
    pool_config q = pool_config p \<and> (\<forall>c. ref_cnt (heap q c) = (if c = b then 1 else ref_cnt (heap p c))) \<and>
    (\<forall>c \<in> range Blk. all_hashes c q = (if c = b \<and> enable_caching p then [] else all_hashes c p))"
proof (cases "enable_caching p")
  case True
  note ev = evict_ok [OF assms(1,2)]
  have q: "take_new_block b p = Inr (add_ref 1 b (snd (maybe_evict_cached_block b p)))"
    using True assms(3) core_block(1) [OF ev(2)] by (simp add: take_new_block_def)
  show ?thesis unfolding q
    using ev True assms(3) core_block(1) [OF ev(2)] core_ok [OF ev(2)] core_pool_config [OF ev(2)] by auto
next
  case False
  then have "take_new_block b p = Inr (add_ref 1 b p)" using assms(3) by (simp add: take_new_block_def)
  with assms False show ?thesis by auto
qed

lemma take_new_blocks_ok:
  assumes "cache_ok p" "set bs \<subseteq> range Blk" "distinct bs" "\<And>b. b \<in> set bs \<Longrightarrow> ref_cnt (heap p b) = 0"
  shows "\<exists>q. efold take_new_block bs p = Inr q \<and> cache_ok q \<and> queue_rep q = queue_rep p \<and> null_ok q = null_ok p \<and>
    pool_config q = pool_config p \<and> (\<forall>c. ref_cnt (heap q c) = (if c \<in> set bs then 1 else ref_cnt (heap p c))) \<and>
    (\<forall>c \<in> range Blk. all_hashes c q = (if c \<in> set bs \<and> enable_caching p then [] else all_hashes c p))"
  using assms
proof (induction bs arbitrary: p)
  case (Cons b bs)
  have b: "b \<in> range Blk" "ref_cnt (heap p b) = 0" using Cons.prems(2,4) by auto
  from take_new_block_ok [OF Cons.prems(1) b] obtain p1 where
    p1: "take_new_block b p = Inr p1" "cache_ok p1" "queue_rep p1 = queue_rep p" "null_ok p1 = null_ok p"
      "pool_config p1 = pool_config p" "\<forall>c. ref_cnt (heap p1 c) = (if c = b then 1 else ref_cnt (heap p c))"
      "\<forall>c \<in> range Blk. all_hashes c p1 = (if c = b \<and> enable_caching p then [] else all_hashes c p)"
    by blast
  have z: "ref_cnt (heap p1 c) = 0" if "c \<in> set bs" for c using that Cons.prems(3,4) p1(6) by auto
  have bs: "set bs \<subseteq> range Blk" "distinct bs" using Cons.prems(2,3) by auto
  from Cons.IH [OF p1(2) bs z] obtain q where
    q: "efold take_new_block bs p1 = Inr q" "cache_ok q" "queue_rep q = queue_rep p1" "null_ok q = null_ok p1"
      "pool_config q = pool_config p1" "\<forall>c. ref_cnt (heap q c) = (if c \<in> set bs then 1 else ref_cnt (heap p1 c))"
      "\<forall>c \<in> range Blk. all_hashes c q = (if c \<in> set bs \<and> enable_caching p1 then [] else all_hashes c p1)"
    by blast
  have "efold take_new_block (b # bs) p = Inr q" using p1(1) q(1) by simp
  with q p1 config_eqs(2) [OF p1(5)] show ?case by auto
qed simp

lemma pool_okD:
  assumes "pool_ok p fl"
  shows "null_ok p" "free_ok p fl" "cache_ok p" "queue_rep p fl" "set fl \<subseteq> real_blocks p" "distinct fl"
    "b \<in> real_blocks p \<Longrightarrow> 0 \<le> ref_cnt (heap p b)" "b \<in> real_blocks p \<Longrightarrow> ref_cnt (heap p b) = 0 \<longleftrightarrow> b \<in> set fl"
    "get_num_free_blocks p = int (length fl)"
  using assms queue_rep_length [of p fl] by (auto simp: pool_ok_def free_ok_def get_num_free_blocks_def dest: queue_rep_notin(1))

lemma get_new_blocks_ok:
  assumes ok: "pool_ok p fl" and n: "0 \<le> n" "n \<le> int (length fl)"
  shows "\<exists>q. get_new_blocks n p = Inr (take (nat n) fl, q) \<and> pool_ok q (drop (nat n) fl) \<and> pool_config q = pool_config p \<and>
    (\<forall>c. ref_cnt (heap q c) = (if c \<in> set (take (nat n) fl) then 1 else ref_cnt (heap p c))) \<and>
    (\<forall>c \<in> range Blk. all_hashes c q = (if c \<in> set (take (nat n) fl) \<and> enable_caching p then [] else all_hashes c p))"
proof -
  note D = pool_okD [OF ok]
  obtain p1 where p1: "popleft_n n p = Inr (take (nat n) fl, p1)" "queue_rep p1 (drop (nat n) fl)" "meta p1 = meta p"
    using fq.pop_n_law [OF D(4) n(1)] n(2) by (auto simp: nat_le_iff)
  note mf = meta_fields [OF p1(3)] and mc = meta_pool_config [OF p1(3)] and mo = meta_ok [OF p1(3)]
  have sub: "set (take (nat n) fl) \<subseteq> real_blocks p" using D(5) by (auto dest: in_set_takeD)
  have z: "ref_cnt (heap p1 b) = 0" if "b \<in> set (take (nat n) fl)" for b
    using that D(8) [of b] sub mf(1) by (auto dest: in_set_takeD)
  have t: "set (take (nat n) fl) \<subseteq> range Blk" "distinct (take (nat n) fl)" "cache_ok p1"
    using sub real_blocks_Blk D(3,6) mo(2) by auto
  from take_new_blocks_ok [OF t(3,1,2) z]
  obtain q where q: "efold take_new_block (take (nat n) fl) p1 = Inr q" "cache_ok q" "queue_rep q = queue_rep p1"
      "null_ok q = null_ok p1" "pool_config q = pool_config p1"
      "\<forall>c. ref_cnt (heap q c) = (if c \<in> set (take (nat n) fl) then 1 else ref_cnt (heap p1 c))"
      "\<forall>c \<in> range Blk. all_hashes c q = (if c \<in> set (take (nat n) fl) \<and> enable_caching p1 then [] else all_hashes c p1)"
    by blast
  have real: "real_blocks q = real_blocks p" using config_eqs(5) [OF q(5)] mc by simp
  have split: "set fl = set (take (nat n) fl) \<union> set (drop (nat n) fl)" by (metis append_take_drop_id set_append)
  have disj: "set (take (nat n) fl) \<inter> set (drop (nat n) fl) = {}" using D(6) by (simp add: set_take_disj_set_drop_if_distinct)
  have "free_ok q (drop (nat n) fl)"
    unfolding free_ok_def real
    using p1(2) q(3,6) mf(1) D(5,7,8) split disj by auto
  with q mo D(1,3) have "pool_ok q (drop (nat n) fl)" by (simp add: pool_ok_def)
  moreover have "get_new_blocks n p = Inr (take (nat n) fl, q)"
    using D(9) n p1(1) q(1) by (simp add: get_new_blocks_def)
  ultimately show ?thesis using q(5-7) mf mc meta_config [OF p1(3)] by auto
qed

lemma get_new_blocks_short: "pool_ok p fl \<Longrightarrow> int (length fl) < n \<Longrightarrow> get_new_blocks n p = Inl ValueError"
  by (simp add: get_new_blocks_def pool_okD(9))


lemma null_block_iff: "null_ok p \<Longrightarrow> b \<in> insert (Blk 0) (real_blocks p) \<Longrightarrow> is_null (heap p b) \<longleftrightarrow> b \<notin> real_blocks p"
  using null_not_real [of p b] by (cases "b = Blk 0") (simp_all add: null_ok_def real_blocks_def)

lemma touch_block_ok:
  assumes ok: "pool_ok p fl" and b: "b \<in> insert (Blk 0) (real_blocks p)"
  shows "\<exists>q. touch_block b p = Inr q \<and> pool_ok q (filter (\<lambda>c. c \<noteq> b) fl) \<and> pool_config q = pool_config p \<and>
    (\<forall>c. ref_cnt (heap q c) = ref_cnt (heap p c) + (if c = b then 1 else 0)) \<and> (\<forall>c. all_hashes c q = all_hashes c p)"
proof -
  note D = pool_okD [OF ok] and nb = null_block_iff [OF pool_okD(1) [OF ok] b]
  have "\<exists>p1. (if ref_cnt (heap p b) = 0 \<and> \<not> is_null (heap p b) then remove b p else Inr p) = Inr p1 \<and>
      queue_rep p1 (filter (\<lambda>c. c \<noteq> b) fl) \<and> meta p1 = meta p"
  proof (cases "ref_cnt (heap p b) = 0 \<and> \<not> is_null (heap p b)")
    case True
    then have "b \<in> set fl" using D(8) nb by blast
    from fq.rem_law [OF D(4) this] True show ?thesis
      using D(6) by (simp add: distinct_remove1_removeAll removeAll_filter_not_eq eq_commute [of b])
  next
    case False
    then have "b \<notin> set fl" using D(5) D(8) [of b] nb by auto
    then have "filter (\<lambda>c. c \<noteq> b) fl = fl" by (auto intro: filter_True)
    with False D(4) show ?thesis by auto
  qed
  then obtain p1 where p1: "(if ref_cnt (heap p b) = 0 \<and> \<not> is_null (heap p b) then remove b p else Inr p) = Inr p1"
    "queue_rep p1 (filter (\<lambda>c. c \<noteq> b) fl)" "meta p1 = meta p" by blast
  note mf = meta_fields [OF p1(3)] and mc = meta_pool_config [OF p1(3)] and mo = meta_ok [OF p1(3)]
  have pos: "ref_cnt (heap p b) + 1 \<noteq> 0" if "b \<in> real_blocks p" using D(7) [OF that] by simp
  have "pool_ok (add_ref 1 b p1) (filter (\<lambda>c. c \<noteq> b) fl)"
    unfolding pool_ok_def free_ok_def
    using p1(2) mo D(1,3,5,7,8) mc(10) mf(1) pos by auto
  moreover have "touch_block b p = Inr (add_ref 1 b p1)" using p1(1) by (simp add: touch_block_def)
  ultimately show ?thesis using mf mc meta_config [OF p1(3)] by auto
qed

lemma touch_ok:
  assumes "pool_ok p fl" "set bs \<subseteq> insert (Blk 0) (real_blocks p)"
  shows "\<exists>q. touch bs p = Inr q \<and> pool_ok q (filter (\<lambda>c. c \<notin> set bs) fl) \<and> pool_config q = pool_config p \<and>
    (\<forall>c. ref_cnt (heap q c) = ref_cnt (heap p c) + int (count_list bs c)) \<and> (\<forall>c. all_hashes c q = all_hashes c p)"
  using assms
proof (induction bs arbitrary: p fl)
  case (Cons b bs)
  from touch_block_ok [OF Cons.prems(1), of b] Cons.prems(2) obtain p1 where
    p1: "touch_block b p = Inr p1" "pool_ok p1 (filter (\<lambda>c. c \<noteq> b) fl)" "pool_config p1 = pool_config p"
      "\<forall>c. ref_cnt (heap p1 c) = ref_cnt (heap p c) + (if c = b then 1 else 0)" "\<forall>c. all_hashes c p1 = all_hashes c p"
    by auto
  have "set bs \<subseteq> insert (Blk 0) (real_blocks p1)" using Cons.prems(2) config_eqs(5) [OF p1(3)] by auto
  from Cons.IH [OF p1(2) this] obtain q where
    q: "touch bs p1 = Inr q" "pool_ok q (filter (\<lambda>c. c \<notin> set bs) (filter (\<lambda>c. c \<noteq> b) fl))" "pool_config q = pool_config p1"
      "\<forall>c. ref_cnt (heap q c) = ref_cnt (heap p1 c) + int (count_list bs c)" "\<forall>c. all_hashes c q = all_hashes c p1"
    by blast
  have "filter (\<lambda>c. c \<notin> set bs) (filter (\<lambda>c. c \<noteq> b) fl) = filter (\<lambda>c. c \<notin> set (b # bs)) fl"
    by (auto intro: filter_cong)
  with q p1 show ?case by (auto simp: touch_def)
qed (simp add: touch_def)


section \<open>Freeing\<close>

text \<open>The blocks whose last reference a list of releases gives up, in the order they are given up.\<close>

fun released :: "(bref \<Rightarrow> bool) \<Rightarrow> bref list \<Rightarrow> (bref \<Rightarrow> int) \<Rightarrow> bref list" where
  "released null [] refs = []"
| "released null (b # bs) refs =
     (let refs' = refs(b := refs b - 1)
      in if refs' b = 0 \<and> \<not> null b then b # released null bs refs' else released null bs refs')"

definition unhashed :: "block_pool \<Rightarrow> bref \<Rightarrow> bool" where
  "unhashed p b \<longleftrightarrow> block_hash (heap p b) = None \<and> enable_caching p"

definition released_by :: "bref list \<Rightarrow> block_pool \<Rightarrow> bref list" where
  "released_by bs p = released (\<lambda>b. is_null (heap p b)) bs (\<lambda>b. ref_cnt (heap p b))"

lemma unhashed_add_ref [simp]: "unhashed (add_ref d b p) = unhashed p"
  by (simp add: unhashed_def fun_eq_iff)

lemma released_by_Cons:
  "released_by (b # bs) p =
    (if ref_cnt (heap p b) = 1 \<and> \<not> is_null (heap p b) then b # released_by bs (add_ref (-1) b p)
     else released_by bs (add_ref (-1) b p))"
proof -
  have "(\<lambda>c. ref_cnt (heap p c))(b := ref_cnt (heap p b) - 1) = (\<lambda>c. ref_cnt (heap (add_ref (-1) b p) c))" by auto
  then show ?thesis by (simp add: released_by_def Let_def)
qed

lemma release_blocks_eq:
  "release_blocks bs W U p =
    (W @ filter (\<lambda>b. \<not> unhashed p b) (released_by bs p), U @ filter (unhashed p) (released_by bs p), fold (add_ref (-1)) bs p)"
proof (induction bs arbitrary: W U p)
  case Nil
  then show ?case by (simp add: released_by_def)
next
  case (Cons b bs)
  show ?case using Cons.IH by (simp add: released_by_Cons Let_def) (simp add: unhashed_def)
qed

lemma fold_release_simps [simp]:
  "ref_cnt (heap (fold (add_ref (-1)) bs p) c) = ref_cnt (heap p c) - int (count_list bs c)"
  "all_hashes c (fold (add_ref (-1)) bs p) = all_hashes c p" "real_blocks (fold (add_ref (-1)) bs p) = real_blocks p"
  "pool_config (fold (add_ref (-1)) bs p) = pool_config p" "queue_rep (fold (add_ref (-1)) bs p) = queue_rep p"
  "cache_ok (fold (add_ref (-1)) bs p) = cache_ok p" "null_ok (fold (add_ref (-1)) bs p) = null_ok p"
  by (induction bs arbitrary: p) auto

lemma released_set:
  assumes "\<And>c. c \<in> set bs \<Longrightarrow> \<not> null c \<Longrightarrow> int (count_list bs c) \<le> refs c"
  shows "set (released null bs refs) = {c \<in> set bs. \<not> null c \<and> refs c = int (count_list bs c)} \<and> distinct (released null bs refs)"
  using assms
proof (induction bs arbitrary: refs)
  case (Cons b bs)
  define refs' where "refs' = refs(b := refs b - 1)"
  have prem: "int (count_list bs c) \<le> refs' c" if "c \<in> set bs" "\<not> null c" for c
    using Cons.prems [of c] that by (auto simp: refs'_def split: if_splits)
  note IH = Cons.IH [OF prem]
  have rel: "released null (b # bs) refs = (if refs' b = 0 \<and> \<not> null b then b # released null bs refs' else released null bs refs')"
    by (simp add: refs'_def Let_def)
  have other: "c \<noteq> b \<Longrightarrow> refs' c = int (count_list bs c) \<longleftrightarrow> refs c = int (count_list (b # bs) c)" for c
    by (simp add: refs'_def)
  have self: "refs' b = int (count_list bs b) \<longleftrightarrow> refs b = int (count_list (b # bs) b)" by (auto simp: refs'_def)
  show ?case
  proof (cases "refs' b = 0 \<and> \<not> null b")
    case True
    then have "b \<notin> set bs" "count_list bs b = 0" using prem [of b] count_list_0_iff [of bs b] by auto
    with True IH other self show ?thesis unfolding rel by (auto simp: \<open>count_list bs b = 0\<close>)
  next
    case False
    have "null b \<or> b \<in> set bs \<or> refs' b \<noteq> int (count_list bs b)"
      using False by (auto simp: count_list_0_iff)
    with False IH other self show ?thesis unfolding rel by auto
  qed
qed simp

lemma free_blocks_ok:
  assumes ok: "pool_ok p fl" and bs: "set bs \<subseteq> insert (Blk 0) (real_blocks p)"
    and cnt: "\<And>b. b \<in> real_blocks p \<Longrightarrow> int (count_list bs b) \<le> ref_cnt (heap p b)"
  shows "\<exists>q. free_blocks bs p = Inr q \<and> pool_config q = pool_config p \<and>
    pool_ok q (filter (unhashed p) (released_by bs p) @ fl @ filter (\<lambda>b. \<not> unhashed p b) (released_by bs p)) \<and>
    (\<forall>c. ref_cnt (heap q c) = ref_cnt (heap p c) - int (count_list bs c)) \<and> (\<forall>c. all_hashes c q = all_hashes c p)"
proof -
  note D = pool_okD [OF ok]
  define F where "F = released_by bs p"
  define U W where "U = filter (unhashed p) F" and "W = filter (\<lambda>b. \<not> unhashed p b) F"
  define p1 where "p1 = fold (add_ref (-1)) bs p"
  have "int (count_list bs c) \<le> ref_cnt (heap p c)" if "c \<in> set bs" "\<not> is_null (heap p c)" for c
    using that bs cnt [of c] null_block_iff [OF D(1), of c] by auto
  from released_set [of bs "\<lambda>b. is_null (heap p b)" "\<lambda>b. ref_cnt (heap p b)", OF this]
  have F: "set F = {c \<in> set bs. \<not> is_null (heap p c) \<and> ref_cnt (heap p c) = int (count_list bs c)}" "distinct F"
    by (auto simp: F_def released_by_def)
  have F_real: "set F \<subseteq> real_blocks p" using F bs null_block_iff [OF D(1)] by auto
  have F_off: "b \<notin> set fl" if "b \<in> set F" for b
    using that F(1) D(8) [of b] F_real count_list_0_iff [of bs b] by auto
  have UW: "set U \<union> set W = set F" "set U \<inter> set W = {}" "distinct U" "distinct W"
    using F(2) by (auto simp: U_def W_def)
  obtain p2 where p2: "prepend_n U p1 = Inr p2" "queue_rep p2 (U @ fl)" "meta p2 = meta p1"
    using fq.pre_n_law [of p1 fl U] D(4) UW F_real F_off real_blocks_Blk by (fastforce simp: p1_def)
  obtain q where q: "append_n W p2 = Inr q" "queue_rep q ((U @ fl) @ W)" "meta q = meta p2"
    using fq.app_n_law [OF p2(2) UW(4)] UW F_real F_off real_blocks_Blk by fastforce
  have meta: "meta q = meta p1" using p2 q by simp
  note mf = meta_fields [OF meta] and mc = meta_pool_config [OF meta] and mo = meta_ok [OF meta]
  have fb: "free_blocks bs p = Inr q"
    using p2 q by (simp add: free_blocks_def release_blocks_eq p1_def U_def W_def F_def)
  have "ref_cnt (heap q b) = 0 \<longleftrightarrow> b \<in> set (U @ fl @ W)" if b: "b \<in> real_blocks p" for b
  proof -
    have "b \<in> set (U @ fl @ W) \<longleftrightarrow> b \<in> set F \<or> b \<in> set fl" using UW(1) by auto
    also have "\<dots> \<longleftrightarrow> ref_cnt (heap p b) = int (count_list bs b)"
    proof (cases "b \<in> set bs")
      case True
      then have "count_list bs b \<noteq> 0" by (simp add: count_list_0_iff)
      then have "b \<notin> set fl" using cnt [OF b] D(8) [OF b] by linarith
      then show ?thesis using True F(1) null_not_real [OF D(1) b] by simp
    next
      case False
      then show ?thesis using F(1) D(8) [OF b] by simp
    qed
    finally show ?thesis by (simp add: mf p1_def)
  qed
  moreover have "0 \<le> ref_cnt (heap q b)" if "b \<in> real_blocks p" for b using cnt [OF that] by (simp add: mf p1_def)
  moreover have "set (U @ fl @ W) \<subseteq> real_blocks p" using UW(1) F_real D(5) by auto
  ultimately have "free_ok q (U @ fl @ W)" using q(2) mc(10) by (simp add: free_ok_def p1_def)
  then have "pool_ok q (U @ fl @ W)" using mo D(1,3) by (simp add: pool_ok_def p1_def)
  then show ?thesis using fb mf(1) mc(11) meta_config [OF meta] by (auto simp: U_def W_def F_def p1_def)
qed

lemma released_distinct:
  assumes "distinct bs"
  shows "released_by bs p = filter (\<lambda>b. ref_cnt (heap p b) = 1 \<and> \<not> is_null (heap p b)) bs"
  using assms
proof (induction bs arbitrary: p)
  case (Cons b bs)
  have "filter (\<lambda>c. ref_cnt (heap (add_ref (- 1) b p) c) = 1 \<and> \<not> is_null (heap (add_ref (- 1) b p) c)) bs =
      filter (\<lambda>c. ref_cnt (heap p c) = 1 \<and> \<not> is_null (heap p c)) bs"
    using Cons.prems by (intro filter_cong) auto
  with Cons show ?case by (simp add: released_by_Cons)
qed (simp add: released_by_def)


section \<open>Construction, eviction and reset\<close>

lemma more_fields:
  assumes "block_store.more q = block_store.more (p :: block_pool)"
  shows "num_gpu_blocks q = num_gpu_blocks p" "enable_caching q = enable_caching p" "hash_block_size q = hash_block_size p"
    "null_block q = null_block p" "cached_block_hash_to_block q = cached_block_hash_to_block p"
    "cached_block_hashes_by_block q = cached_block_hashes_by_block p" "enable_kv_cache_events q = enable_kv_cache_events p"
    "use_int_block_hashes q = use_int_block_hashes p" "kv_event_queue q = kv_event_queue p"
proof -
  have "q\<lparr>heap := heap p, num_free_blocks := num_free_blocks p\<rparr> = p"
    by (rule block_store.equality) (simp_all add: assms)
  from arg_cong [OF this, of num_gpu_blocks] arg_cong [OF this, of enable_caching] arg_cong [OF this, of hash_block_size]
    arg_cong [OF this, of null_block] arg_cong [OF this, of cached_block_hash_to_block]
    arg_cong [OF this, of cached_block_hashes_by_block] arg_cong [OF this, of enable_kv_cache_events]
    arg_cong [OF this, of use_int_block_hashes] arg_cong [OF this, of kv_event_queue]
  show "num_gpu_blocks q = num_gpu_blocks p" "enable_caching q = enable_caching p" "hash_block_size q = hash_block_size p"
    "null_block q = null_block p" "cached_block_hash_to_block q = cached_block_hash_to_block p"
    "cached_block_hashes_by_block q = cached_block_hashes_by_block p" "enable_kv_cache_events q = enable_kv_cache_events p"
    "use_int_block_hashes q = use_int_block_hashes p" "kv_event_queue q = kv_event_queue p"
    by simp_all
qed

lemma pool_init_ok:
  assumes "0 < n"
  shows "\<exists>p. pool_init n caching hbs events use_int = Inr p \<and> pool_ok p (map Blk [1..<nat n]) \<and>
    pool_config p = (n, caching, hbs, Blk 0, events, use_int) \<and> (\<forall>i. all_hashes (Blk i) p = []) \<and>
    (\<forall>i. ref_cnt (heap p (Blk i)) = 0) \<and> kv_event_queue p = []"
proof -
  define p0 :: block_pool where "p0 = \<lparr>heap = (\<lambda>_. new_block), num_free_blocks = 0, num_gpu_blocks = n, enable_caching = caching,
      hash_block_size = hbs, null_block = Blk 0, cached_block_hash_to_block = [], cached_block_hashes_by_block = [],
      enable_kv_cache_events = events, use_int_block_hashes = use_int, kv_event_queue = []\<rparr>"
  define bs where "bs = map Blk [0..<nat n]"
  have bs: "bs = Blk 0 # map Blk [1..<nat n]" using assms by (simp add: bs_def upt_conv_Cons)
  have d: "distinct bs" by (simp add: bs_def distinct_map inj_on_def)
  define p1 where "p1 = queue_init bs p0"
  have "queue_rep p1 bs"
    unfolding p1_def by (rule queue_init_ok [OF d]) (auto simp: bs_def p0_def new_block_def)
  from popleft_ok [OF this [unfolded bs]] obtain p2 where
    p2: "popleft p1 = Inr (Blk 0, p2)" "queue_rep p2 (map Blk [1..<nat n])" "meta p2 = meta p1" by blast
  define p where "p = upd_block (Blk 0) (\<lambda>b. b\<lparr>is_null := True\<rparr>) (p2\<lparr>null_block := Blk 0\<rparr>)"
  have init: "pool_init n caching hbs events use_int = Inr p"
    using assms p2(1) by (simp add: pool_init_def Let_def p_def p1_def bs_def pool_blocks_def flip: p0_def) (simp add: p0_def)
  note mf = meta_fields [OF p2(3)] and mc = meta_pool_config [OF p2(3)]
  note qf = queue_init_frame [OF d, of p0, folded p1_def]
  note qi = more_fields [OF qf(5)]
  have blk: "ref_cnt (heap p (Blk i)) = 0" "block_hash (heap p (Blk i)) = None" "block_hash_num_tokens (heap p (Blk i)) = None"
    "is_null (heap p (Blk i)) \<longleftrightarrow> i = 0" for i
    using mf qf by (auto simp: p_def upd_block_def p0_def new_block_def)
  have cfg: "pool_config p = (n, caching, hbs, Blk 0, events, use_int)"
    using mc qi by (simp add: pool_config_def p_def upd_block_def p0_def)
  have maps: "cached_block_hash_to_block p = []" "cached_block_hashes_by_block p = []" "kv_event_queue p = []"
    using mc qi by (simp_all add: p_def upd_block_def p0_def)
  have hs: "all_hashes (Blk i) p = []" for i using blk(2) maps(2) by (simp add: all_hashes_Nil)
  have ng: "num_gpu_blocks p = n" "null_block p = Blk 0" using cfg by (simp_all add: pool_config_def)
  have "queue_rep p (map Blk [1..<nat n])"
    using p2(2) by (subst queue_rep_cong [of p p2]) (auto simp: p_def upd_block_def)
  moreover have "real_blocks p = set (map Blk [1..<nat n])" by (auto simp: real_blocks_def ng)
  ultimately have "free_ok p (map Blk [1..<nat n])" using blk(1) by (auto simp: free_ok_def)
  moreover have "null_ok p" using blk(4) ng assms by (simp add: null_ok_def)
  moreover have "cache_ok p"
    using hs blk maps by (intro cache_okI) (auto simp: map_ok_def entries_def dest!: real_blocks_Blk)
  ultimately have "pool_ok p (map Blk [1..<nat n])" by (simp add: pool_ok_def)
  then show ?thesis using init cfg hs blk(1) maps(3) by blast
qed

end
