(* ===== verification/Pool_Caching.thy ===== *)
theory Pool_Caching
  imports Pool_Invariant
begin

text \<open>
  The caching operations of the block pool under its invariant, the step relation of a pool and its
  clients, and the properties of the pool.
\<close>

section \<open>Eviction, reset and moving hashes\<close>

lemma pool_ok_core: "core q = core p \<Longrightarrow> cache_ok q \<Longrightarrow> pool_ok p fl \<Longrightarrow> pool_ok q fl"
  using core_ok [of q p] by (simp add: pool_ok_def)

lemma pool_block_index:
  assumes "null_ok p" "0 \<le> bid" "bid < num_gpu_blocks p"
  shows "py_index (pool_blocks p) bid = Inr (Blk (nat bid))" "bid < int (length (pool_blocks p))"
  using assms by (simp_all add: py_index_def pool_blocks_def)

lemma evict_blocks_ok:
  assumes "pool_ok p fl" "\<And>i. i \<in> set ids \<Longrightarrow> 0 \<le> i \<and> i < num_gpu_blocks p"
  shows "\<exists>q. evict_blocks ids p = Inr q \<and> pool_ok q fl \<and> core q = core p \<and>
    (\<forall>j. all_hashes (Blk j) q = (if int j \<in> set ids then [] else all_hashes (Blk j) p))"
  using assms
proof (induction ids arbitrary: p)
  case (Cons i ids)
  note D = pool_okD [OF Cons.prems(1)]
  have i: "0 \<le> i" "i < num_gpu_blocks p" using Cons.prems(2) by auto
  define p1 where "p1 = snd (maybe_evict_cached_block (Blk (nat i)) p)"
  note ev = evict_ok [OF D(3), of "Blk (nat i)", folded p1_def]
  have core: "core p1 = core p" using ev(2) by simp
  have h: "all_hashes (Blk j) p1 = (if int j = i then [] else all_hashes (Blk j) p)" for j
    using ev(3) ev(4) [of "Blk j"] i(1) by (cases "int j = i") auto
  have "pool_ok p1 fl" using pool_ok_core [OF core _ Cons.prems(1)] ev(1) by simp
  from Cons.IH [OF this] Cons.prems(2) core_config(2) [OF core] obtain q where
    q: "evict_blocks ids p1 = Inr q" "pool_ok q fl" "core q = core p1"
      "\<forall>j. all_hashes (Blk j) q = (if int j \<in> set ids then [] else all_hashes (Blk j) p1)" by auto
  have "evict_blocks (i # ids) p = Inr q"
    using pool_block_index [OF D(1) i] q(1) by (simp add: evict_blocks_def p1_def)
  with q core h show ?case by auto
qed (simp add: evict_blocks_def)

lemma fold_reset_eq:
  "fold (\<lambda>b. upd_block b reset_hash) bs p = p\<lparr>heap := (\<lambda>c. if c \<in> set bs then reset_hash (heap p c) else heap p c)\<rparr>"
proof (induction bs arbitrary: p)
  case (Cons b bs)
  have "(\<lambda>c. if c \<in> set bs then reset_hash (((heap p)(b := reset_hash (heap p b))) c) else ((heap p)(b := reset_hash (heap p b))) c) =
      (\<lambda>c. if c \<in> set (b # bs) then reset_hash (heap p c) else heap p c)"
    by (auto simp: fun_eq_iff reset_hash_def)
  then show ?case by (simp only: fold.simps o_apply Cons.IH) (simp add: upd_block_def cong: if_cong)
qed simp

lemma card_free_used:
  assumes "pool_ok p fl"
  shows "int (length fl) + int (card {b \<in> real_blocks p. ref_cnt (heap p b) > 0}) + 1 = num_gpu_blocks p"
proof -
  note D = pool_okD [OF assms]
  have "set fl = {b \<in> real_blocks p. ref_cnt (heap p b) = 0}" using D(5,8) by auto
  then have "length fl = card {b \<in> real_blocks p. ref_cnt (heap p b) = 0}" using distinct_card [OF D(6)] by simp
  moreover have "real_blocks p = {b \<in> real_blocks p. ref_cnt (heap p b) = 0} \<union> {b \<in> real_blocks p. ref_cnt (heap p b) > 0}"
    using D(7) by (auto simp: less_le)
  moreover have "card ({b \<in> real_blocks p. ref_cnt (heap p b) = 0} \<union> {b \<in> real_blocks p. ref_cnt (heap p b) > 0}) =
      card {b \<in> real_blocks p. ref_cnt (heap p b) = 0} + card {b \<in> real_blocks p. ref_cnt (heap p b) > 0}"
    by (rule card_Un_disjoint) auto
  moreover have "int (card (real_blocks p)) = num_gpu_blocks p - 1"
    using card_real_blocks D(1) by (simp add: null_ok_def)
  ultimately show ?thesis by simp
qed

lemma reset_ok:
  assumes ok: "pool_ok p fl" and r: "reset_prefix_cache p = (fin, q)"
  shows "pool_ok q fl" "fin \<longleftrightarrow> (\<forall>b \<in> real_blocks p. ref_cnt (heap p b) = 0)" "\<not> fin \<Longrightarrow> q = p"
    "fin \<Longrightarrow> (\<forall>i. all_hashes (Blk i) q = []) \<and> core q = core p"
proof -
  note D = pool_okD [OF ok]
  have d: "fin \<longleftrightarrow> num_gpu_blocks p - int (length fl) = 1"
    using r D(9) by (auto simp: reset_prefix_cache_def Let_def split: if_splits)
  also have "\<dots> \<longleftrightarrow> card {b \<in> real_blocks p. ref_cnt (heap p b) > 0} = 0"
    using card_free_used [OF ok] by linarith
  also have "\<dots> \<longleftrightarrow> (\<forall>b \<in> real_blocks p. ref_cnt (heap p b) = 0)"
    using D(7) by (auto simp: card_eq_0_iff less_le)
  finally show "fin \<longleftrightarrow> (\<forall>b \<in> real_blocks p. ref_cnt (heap p b) = 0)" .
  show "\<not> fin \<Longrightarrow> q = p" using r by (auto simp: reset_prefix_cache_def Let_def split: if_splits)
  have *: "pool_ok q fl \<and> (\<forall>i. all_hashes (Blk i) q = []) \<and> core q = core p" if "fin"
  proof -
    define p1 where "p1 = p\<lparr>cached_block_hash_to_block := [], cached_block_hashes_by_block := [],
      heap := (\<lambda>c. if c \<in> set (pool_blocks p) then reset_hash (heap p c) else heap p c)\<rparr>"
    have q: "q = (if enable_kv_cache_events p1 then push_event AllBlocksCleared p1 else p1)"
      using r that by (auto simp: reset_prefix_cache_def Let_def fold_reset_eq p1_def cong: if_cong split: if_splits)
    have core1: "core p1 = core p" by (auto simp: core_def p1_def fun_eq_iff reset_hash_def)
    have blk: "block_hash (heap p1 (Blk i)) = None \<and> block_hash_num_tokens (heap p1 (Blk i)) = None" for i
    proof (cases "Blk i \<in> set (pool_blocks p)")
      case False
      then have "Blk i \<notin> real_blocks p" by (auto simp: real_blocks_def pool_blocks_def)
      then show ?thesis using False cache_okD(4,5) [OF D(3), of "Blk i"] by (simp add: p1_def)
    qed (simp add: p1_def)
    have hs: "all_hashes (Blk i) p1 = []" for i using blk by (simp add: all_hashes_Nil p1_def)
    have by1: "cached_block_hashes_by_block p1 = []" by (simp add: p1_def)
    have "cache_ok p1"
    proof (rule cache_okI)
      show "map_ok (cached_block_hash_to_block p1)" by (simp add: p1_def map_ok_def)
      show "(k, b) \<in> entries (cached_block_hash_to_block p1) \<longleftrightarrow> b \<in> real_blocks p1 \<and> k \<in> set (all_hashes b p1)" for k b
        using hs real_blocks_Blk [of b p1] by (auto simp: p1_def entries_def)
    qed (use blk hs by1 in auto)
    then have "pool_ok p1 fl" using pool_ok_core [OF core1 _ ok] by simp
    moreover have "same_but_events p1 q" by (simp add: q same_but_events_def push_event_def)
    note se = same_but_events_fields [OF this]
    ultimately show ?thesis using pool_ok_core [OF se(2), of fl] se hs core1 by (simp add: pool_ok_def)
  qed
  show "fin \<Longrightarrow> (\<forall>i. all_hashes (Blk i) q = []) \<and> core q = core p" using * by blast
  show "pool_ok q fl" using * \<open>\<not> fin \<Longrightarrow> q = p\<close> ok by (cases "fin") auto
qed


lemma insert_hashes_ok:
  assumes "cache_ok p" "b \<in> real_blocks p" "distinct ks" "set ks \<inter> set (all_hashes b p) = {}"
  shows "\<exists>q. efold (\<lambda>h. insert_block_hash h b nt) ks p = Inr q \<and> cache_ok q \<and> core q = core p \<and>
    all_hashes b q = all_hashes b p @ ks \<and> (\<forall>c \<in> range Blk. c \<noteq> b \<longrightarrow> all_hashes c q = all_hashes c p)"
  using assms
proof (induction ks arbitrary: p)
  case (Cons k ks)
  from insert_hash_ok [OF Cons.prems(1,2), of k nt] obtain p1 where
    p1: "insert_block_hash k b nt p = Inr p1" "cache_ok p1" "core p1 = core p" "all_hashes b p1 = set_add k (all_hashes b p)"
      "\<forall>c \<in> range Blk. c \<noteq> b \<longrightarrow> all_hashes c p1 = all_hashes c p" by blast
  have h: "all_hashes b p1 = all_hashes b p @ [k]" using p1(4) Cons.prems(4) by (simp add: set_add_def)
  have b: "b \<in> real_blocks p1" using Cons.prems(2) core_config(8) [OF p1(3)] by simp
  from Cons.IH [OF p1(2) b] Cons.prems(3,4) h obtain q where
    q: "efold (\<lambda>h. insert_block_hash h b nt) ks p1 = Inr q" "cache_ok q" "core q = core p1"
      "all_hashes b q = all_hashes b p1 @ ks" "\<forall>c \<in> range Blk. c \<noteq> b \<longrightarrow> all_hashes c q = all_hashes c p1" by auto
  have "efold (\<lambda>h. insert_block_hash h b nt) (k # ks) p = Inr q" using p1(1) q(1) by simp
  then show ?case using q p1 h by auto
qed simp

lemma move_block_hashes_ok:
  assumes ok: "pool_ok p fl" and src: "src \<in> real_blocks p" and dst: "dst \<in> real_blocks p" "src \<noteq> dst"
    and none: "block_hash (heap p dst) = None"
  shows "\<exists>q. move_block_hashes src dst p = Inr q \<and> pool_ok q fl \<and> core q = core p \<and>
    all_hashes src q = [] \<and> all_hashes dst q = all_hashes src p \<and>
    (\<forall>c \<in> range Blk. c \<notin> {src, dst} \<longrightarrow> all_hashes c q = all_hashes c p)"
proof -
  note D = pool_okD [OF ok]
  note srcB = real_blocks_Blk [OF src] and dstB = real_blocks_Blk [OF dst(1)]
  obtain removed p1 where r: "remove_cached_block_hashes src p = (removed, p1)"
    by (cases "remove_cached_block_hashes src p")
  note ro = remove_hashes_ok [OF D(3) srcB r]
  have none_by: "dget (cached_block_hashes_by_block p) (block_id dst) = None" using cache_okD(6) [OF D(3) dstB none] .
  then have hd: "all_hashes dst p = []" using none by (simp add: all_hashes_Nil)
  have hd1: "all_hashes dst p1 = []" using ro(5) [OF dstB] dst(2) hd by auto
  have "dst \<in> real_blocks p1" using dst core_config(8) [OF ro(2)] by simp
  from insert_hashes_ok [OF ro(1) this, of removed "block_hash_num_tokens (heap p src)"] hd1 ro(4) cache_okD(3) [OF D(3) srcB]
  obtain q where q: "efold (\<lambda>h. insert_block_hash h dst (block_hash_num_tokens (heap p src))) removed p1 = Inr q"
      "cache_ok q" "core q = core p1" "all_hashes dst q = removed"
      "\<forall>c \<in> range Blk. c \<noteq> dst \<longrightarrow> all_hashes c q = all_hashes c p1" by auto
  have "move_block_hashes src dst p = Inr q"
    using none none_by r q(1) by (simp add: move_block_hashes_def Let_def)
  moreover have core: "core q = core p" using q(3) ro(2) by simp
  moreover have "pool_ok q fl" by (rule pool_ok_core [OF core q(2) ok])
  moreover have "all_hashes src q = []" using bspec [OF q(5) srcB] dst(2) ro(3) by simp
  moreover have "all_hashes c q = all_hashes c p" if "c \<in> range Blk" "c \<notin> {src, dst}" for c
    using bspec [OF q(5) that(1)] ro(5) [OF that(1)] that(2) by auto
  ultimately show ?thesis using q(4) ro(4) by simp
qed


section \<open>Caching full blocks\<close>

lemma set_py_slice: "set (py_slice xs i j) \<subseteq> set xs"
  by (auto simp: py_slice_def Let_def dest!: in_set_takeD in_set_dropD)

lemma cache_one_block_preserves:
  assumes ok: "cache_ok p" "null_ok p" and b: "blk \<in> insert (Blk 0) (real_blocks p)"
    and res: "cache_one_block nbh nc bs gid msk (i, blk) (nh, p) = Inr (nh', q)"
  shows "cache_ok q" "core q = core p"
proof -
  have "cache_ok q \<and> core q = core p"
  proof (cases "is_null (heap p blk) \<or> masked_out msk i")
    case True
    then show ?thesis using res ok by (simp add: cache_one_block_def)
  next
    case False
    then have real: "blk \<in> real_blocks p" using null_block_iff [OF ok(2) b] by simp
    obtain removed p1 where r: "remove_cached_block_hashes blk p = (removed, p1)"
      by (cases "remove_cached_block_hashes blk p")
    note ro = remove_hashes_ok [OF ok(1) real_blocks_Blk [OF real] r]
    note se = same_but_events_fields [OF emit_removed_same [of p1 removed]]
    define p2 where "p2 = (if block_hash (heap p blk) \<noteq> None then emit_block_removed_events removed p1 else p)"
    have p2: "cache_ok p2" "core p2 = core p" using ok ro se by (auto simp: p2_def)
    have real2: "blk \<in> real_blocks p2" using real core_config(8) [OF p2(2)] by simp
    obtain key n where ins: "insert_block_hash key blk (Some n) p2 = Inr q"
      using res False r by (auto simp: cache_one_block_def p2_def Let_def split: if_splits)
    from insert_hash_ok [OF p2(1) real2, of key "Some n"] ins p2(2) show ?thesis by auto
  qed
  then show "cache_ok q" "core q = core p" by auto
qed

lemma cache_blocks_preserves:
  assumes "cache_ok p" "null_ok p" "set (map snd ibs) \<subseteq> insert (Blk 0) (real_blocks p)"
    and "efold (cache_one_block nbh nc bs gid msk) ibs (nh, p) = Inr (nh', q)"
  shows "cache_ok q \<and> core q = core p"
  using assms
proof (induction ibs arbitrary: nh p)
  case (Cons ib ibs)
  obtain i b where ib: "ib = (i, b)" by (cases ib)
  from Cons.prems(4) ib obtain nh1 p1 where
    s: "cache_one_block nbh nc bs gid msk (i, b) (nh, p) = Inr (nh1, p1)"
      "efold (cache_one_block nbh nc bs gid msk) ibs (nh1, p1) = Inr (nh', q)" by auto
  have b: "b \<in> insert (Blk 0) (real_blocks p)" using Cons.prems(3) ib by simp
  note one = cache_one_block_preserves [OF Cons.prems(1,2) b s(1)]
  have "null_ok p1" "real_blocks p1 = real_blocks p"
    using core_ok(1) [OF one(2)] core_config(8) [OF one(2)] Cons.prems(2) by auto
  with Cons.IH [OF one(1) _ _ s(2)] Cons.prems(3) one(2) show ?case by simp
qed simp

lemma cache_full_blocks_preserves:
  assumes ok: "pool_ok p fl" and b: "set blocks \<subseteq> insert (Blk 0) (real_blocks p)"
    and res: "cache_full_blocks env r blocks nc nf bs gid msk p = Inr (r', q)"
  shows "pool_ok q fl" "core q = core p"
proof -
  have "pool_ok q fl \<and> core q = core p"
  proof (cases "nc \<ge> nf")
    case True
    then show ?thesis using res ok by (simp add: cache_full_blocks_def)
  next
    case False
    note D = pool_okD [OF ok]
    obtain nbh nh p1 where e: "efold (cache_one_block nbh nc bs gid msk) (List.enumerate 0 (py_slice blocks nc nf)) ([], p) = Inr (nh, p1)"
      and q: "q = p1 \<or> (\<exists>e. q = push_event e p1)"
      using res False by (auto simp: cache_full_blocks_def Let_def split: if_splits prod.splits)
    have sub: "set (map snd (List.enumerate 0 (py_slice blocks nc nf))) \<subseteq> insert (Blk 0) (real_blocks p)"
      using b set_py_slice [of blocks nc nf] by simp
    have p1: "cache_ok p1" "core p1 = core p" using cache_blocks_preserves [OF D(3,1) sub e] by auto
    from q have "same_but_events p1 q" by (auto simp: same_but_events_def push_event_def)
    note se = same_but_events_fields [OF this]
    then show ?thesis using p1 pool_ok_core [of q p fl] ok by auto
  qed
  then show "pool_ok q fl" "core q = core p" by auto
qed

lemma drop_shorter_ok:
  assumes "cache_ok p" "b \<in> real_blocks p"
  shows "cache_ok (drop_shorter_hashes already b n p)" "core (drop_shorter_hashes already b n p) = core p"
proof -
  obtain removed p0 where r: "remove_cached_block_hashes b p = (removed, p0)"
    by (cases "remove_cached_block_hashes b p")
  note ro = remove_hashes_ok [OF assms(1) real_blocks_Blk [OF assms(2)] r]
  note se = same_but_events_fields [OF emit_removed_same [of p0 removed]]
  show "cache_ok (drop_shorter_hashes already b n p)" "core (drop_shorter_hashes already b n p) = core p"
    using assms(1) ro se by (auto simp: drop_shorter_hashes_def r)
qed

lemma emit_partial_same:
  "emit_partial_stored env r bh nt gid already p = Inr (r', q) \<Longrightarrow> same_but_events p q"
  by (cases "enable_kv_cache_events p \<and> \<not> already")
    (auto simp: emit_partial_stored_def same_but_events_def push_event_def)

lemma cache_partial_block_preserves:
  assumes ok: "pool_ok p fl" and b: "b \<in> insert (Blk 0) (real_blocks p)"
    and res: "cache_partial_block env r b nt gid bs p = Inr (k, r', q)"
  shows "pool_ok q fl" "core q = core p"
proof -
  have "pool_ok q fl \<and> core q = core p"
  proof (cases "is_null (heap p b)")
    case True
    then show ?thesis using res ok by (simp add: cache_partial_block_def)
  next
    case False
    note D = pool_okD [OF ok]
    have real: "b \<in> real_blocks p" using False null_block_iff [OF D(1) b] by simp
    obtain already key n p2 bh where ins: "insert_block_hash key b (Some n) (drop_shorter_hashes already b n p) = Inr p2"
      and q: "emit_partial_stored env r bh nt gid already p2 = Inr (r', q)"
      using res False by (auto simp: cache_partial_block_def Let_def)
    define p1 where "p1 = drop_shorter_hashes already b n p"
    have p1': "cache_ok p1" "core p1 = core p" using drop_shorter_ok [OF D(3) real] by (simp_all add: p1_def)
    have real1: "b \<in> real_blocks p1" using real core_config(8) [OF p1'(2)] by simp
    from insert_hash_ok [OF p1'(1) real1, of key "Some n"] ins p1'(2) have "cache_ok p2" "core p2 = core p"
      by (auto simp: p1_def)
    moreover note se2 = same_but_events_fields [OF emit_partial_same [OF q]]
    ultimately show ?thesis using pool_ok_core [of q p fl] ok by auto
  qed
  then show "pool_ok q fl" "core q = core p" by auto
qed


section \<open>The effect of caching\<close>

definition block_key :: "bytes \<Rightarrow> int \<Rightarrow> bytes" where
  "block_key h gid = h @ be_bytes 4 gid"

lemma cache_one_block_ok:
  assumes ok: "cache_ok p" "null_ok p" and b: "blk \<in> insert (Blk 0) (real_blocks p)" "\<not> is_null (heap p blk)" "\<not> masked_out msk i"
    and i: "i < length nbh" and gid: "0 \<le> gid" "gid < 2 ^ 32"
    and longer: "block_hash (heap p blk) \<noteq> None \<Longrightarrow>
      \<exists>t. block_hash_num_tokens (heap p blk) = Some t \<and> t < (nc + int i + 1) * bs"
  shows "\<exists>nh' q. cache_one_block nbh nc bs gid msk (i, blk) (nh, p) = Inr (nh', q) \<and> cache_ok q \<and> core q = core p \<and>
    all_hashes blk q = [block_key (nbh ! i) gid] \<and>
    (\<forall>c \<in> range Blk. c \<noteq> blk \<longrightarrow> all_hashes c q = all_hashes c p \<and> heap q c = heap p c)"
proof -
  have real: "blk \<in> real_blocks p" using b(2) null_block_iff [OF ok(2) b(1)] by simp
  note bB = real_blocks_Blk [OF real]
  define key where "key = block_key (nbh ! i) gid"
  define n where "n = (nc + int i + 1) * bs"
  obtain removed p1 where r: "remove_cached_block_hashes blk p = (removed, p1)"
    by (cases "remove_cached_block_hashes blk p")
  note ro = remove_hashes_ok [OF ok(1) bB r]
  note se = same_but_events_fields [OF emit_removed_same [of p1 removed]]
  define p2 where "p2 = (if block_hash (heap p blk) \<noteq> None then emit_block_removed_events removed p1 else p)"
  have p2: "cache_ok p2" "core p2 = core p" using ok ro se by (auto simp: p2_def)
  have h2: "all_hashes blk p2 = []"
  proof (cases "block_hash (heap p blk)")
    case None
    then show ?thesis using cache_okD(6) [OF ok(1) bB] by (simp add: p2_def all_hashes_Nil)
  next
    case (Some h)
    then show ?thesis using ro(3) se(3) by (simp add: p2_def)
  qed
  have o2: "all_hashes c p2 = all_hashes c p \<and> heap p2 c = heap p c" if "c \<in> range Blk" "c \<noteq> blk" for c
    using ro(5) [OF that] ro(6) [OF that(2)] se by (auto simp: p2_def)
  have real2: "blk \<in> real_blocks p2" using real core_config(8) [OF p2(2)] by simp
  from insert_hash_ok [OF p2(1) real2, of key "Some n"] obtain q where
    q: "insert_block_hash key blk (Some n) p2 = Inr q" "cache_ok q" "core q = core p2" "all_hashes blk q = set_add key []"
      "\<forall>c \<in> range Blk. c \<noteq> blk \<longrightarrow> all_hashes c q = all_hashes c p2" "\<forall>c. c \<noteq> blk \<longrightarrow> heap q c = heap p2 c"
    unfolding h2 by blast
  have "\<exists>nh'. cache_one_block nbh nc bs gid msk (i, blk) (nh, p) = Inr (nh', q)"
  proof (cases "block_hash (heap p blk)")
    case None
    then show ?thesis using b(2,3) i q(1) make_block_hash_ok [OF gid]
      by (simp add: cache_one_block_def Let_def key_def block_key_def n_def p2_def)
  next
    case (Some h)
    with longer obtain t where "block_hash_num_tokens (heap p blk) = Some t" "t < (nc + int i + 1) * bs" by auto
    then show ?thesis using Some b(2,3) i q(1) make_block_hash_ok [OF gid] r
      by (simp add: cache_one_block_def Let_def key_def block_key_def n_def p2_def)
  qed
  moreover have "all_hashes blk q = [key]" using q(4) by (simp add: set_add_def)
  moreover have "all_hashes c q = all_hashes c p \<and> heap q c = heap p c" if "c \<in> range Blk" "c \<noteq> blk" for c
    using bspec [OF q(5) that(1)] spec [OF q(6), of c] o2 [OF that] that(2) by simp
  ultimately show ?thesis using q(2,3) p2(2) by (auto simp: key_def)
qed

text \<open>The blocks of a run that caching takes up: neither null nor masked out.\<close>

definition cacheable :: "block_pool \<Rightarrow> bool list option \<Rightarrow> nat \<times> bref \<Rightarrow> bool" where
  "cacheable p msk ib \<longleftrightarrow> \<not> is_null (heap p (snd ib)) \<and> \<not> masked_out msk (fst ib)"

lemma cache_blocks_ok:
  assumes ok: "cache_ok p" "null_ok p" and gid: "0 \<le> gid" "gid < 2 ^ 32"
    and "set (map snd ibs) \<subseteq> insert (Blk 0) (real_blocks p)"
    and "distinct (map snd (filter (cacheable p msk) ibs))"
    and "\<forall>ib \<in> set ibs. cacheable p msk ib \<longrightarrow> fst ib < length nbh \<and>
      (block_hash (heap p (snd ib)) \<noteq> None \<longrightarrow>
        (\<exists>t. block_hash_num_tokens (heap p (snd ib)) = Some t \<and> t < (nc + int (fst ib) + 1) * bs))"
  shows "\<exists>nh' q. efold (cache_one_block nbh nc bs gid msk) ibs (nh, p) = Inr (nh', q) \<and> cache_ok q \<and> core q = core p \<and>
    (\<forall>ib \<in> set ibs. cacheable p msk ib \<longrightarrow> all_hashes (snd ib) q = [block_key (nbh ! fst ib) gid]) \<and>
    (\<forall>c \<in> range Blk. c \<notin> set (map snd (filter (cacheable p msk) ibs)) \<longrightarrow> all_hashes c q = all_hashes c p \<and> heap q c = heap p c)"
  using assms
proof (induction ibs arbitrary: nh p)
  case (Cons ib ibs)
  obtain i b where ib: "ib = (i, b)" by (cases ib)
  have b: "b \<in> insert (Blk 0) (real_blocks p)" using Cons.prems(5) ib by simp
  show ?case
  proof (cases "cacheable p msk ib")
    case False
    then have "cache_one_block nbh nc bs gid msk ib (nh, p) = Inr (nh, p)"
      by (auto simp: cacheable_def cache_one_block_def ib)
    with Cons.IH [OF Cons.prems(1-4), of nh] Cons.prems(5-7) False show ?thesis by simp
  next
    case True
    have pre: "i < length nbh" "block_hash (heap p b) \<noteq> None \<Longrightarrow>
        \<exists>t. block_hash_num_tokens (heap p b) = Some t \<and> t < (nc + int i + 1) * bs"
      using Cons.prems(7) True ib by auto
    have nm: "\<not> is_null (heap p b)" "\<not> masked_out msk i" using True by (simp_all add: cacheable_def ib)
    obtain nh1 p1 where p1: "cache_one_block nbh nc bs gid msk (i, b) (nh, p) = Inr (nh1, p1)" "cache_ok p1" "core p1 = core p"
        "all_hashes b p1 = [block_key (nbh ! i) gid]"
        "\<forall>c \<in> range Blk. c \<noteq> b \<longrightarrow> all_hashes c p1 = all_hashes c p \<and> heap p1 c = heap p c"
      using cache_one_block_ok [OF Cons.prems(1,2) b nm pre(1) gid pre(2), of nh] by blast
    have cab: "cacheable p1 msk = cacheable p msk" using core_block(2) [OF p1(3)] by (simp add: cacheable_def fun_eq_iff)
    have bB: "b \<in> range Blk" using b real_blocks_Blk by blast
    have bn: "b \<notin> set (map snd (filter (cacheable p msk) ibs))" using Cons.prems(6) True ib by auto
    have same: "heap p1 (snd jc) = heap p (snd jc)" if "jc \<in> set ibs" "cacheable p msk jc" for jc
    proof -
      have "snd jc \<noteq> b" using bn that by auto
      moreover have "snd jc \<in> insert (Blk 0) (real_blocks p)" using Cons.prems(5) that(1) by auto
      then have "snd jc \<in> range Blk" using real_blocks_Blk by blast
      ultimately show ?thesis using p1(5) by blast
    qed
    have pr1: "null_ok p1" "set (map snd ibs) \<subseteq> insert (Blk 0) (real_blocks p1)"
      "distinct (map snd (filter (cacheable p1 msk) ibs))"
      using Cons.prems(2,5,6) core_ok(1) [OF p1(3)] core_config(8) [OF p1(3)] True by (auto simp: cab)
    have pr2: "\<forall>ib \<in> set ibs. cacheable p1 msk ib \<longrightarrow> fst ib < length nbh \<and>
        (block_hash (heap p1 (snd ib)) \<noteq> None \<longrightarrow>
          (\<exists>t. block_hash_num_tokens (heap p1 (snd ib)) = Some t \<and> t < (nc + int (fst ib) + 1) * bs))"
      using Cons.prems(7) same by (simp add: cab)
    from Cons.IH [OF p1(2) pr1(1) gid pr1(2,3) pr2, of nh1] obtain nh' q where
      q: "efold (cache_one_block nbh nc bs gid msk) ibs (nh1, p1) = Inr (nh', q)" "cache_ok q" "core q = core p1"
        "\<forall>ib \<in> set ibs. cacheable p msk ib \<longrightarrow> all_hashes (snd ib) q = [block_key (nbh ! fst ib) gid]"
        "\<forall>c \<in> range Blk. c \<notin> set (map snd (filter (cacheable p msk) ibs)) \<longrightarrow> all_hashes c q = all_hashes c p1 \<and> heap q c = heap p1 c"
      unfolding cab by blast
    have hb: "all_hashes b q = [block_key (nbh ! i) gid]" using bspec [OF q(5) bB] bn p1(4) by simp
    have other: "all_hashes c q = all_hashes c p \<and> heap q c = heap p c"
      if "c \<in> range Blk" "c \<notin> set (map snd (filter (cacheable p msk) (ib # ibs)))" for c
      using bspec [OF q(5) that(1)] bspec [OF p1(5) that(1)] that(2) True ib by auto
    show ?thesis
    proof (intro exI conjI ballI impI)
      show "efold (cache_one_block nbh nc bs gid msk) (ib # ibs) (nh, p) = Inr (nh', q)" using p1(1) q(1) ib by simp
      show "cache_ok q" "core q = core p" using q(2,3) p1(3) by simp_all
    next
      fix jc assume "jc \<in> set (ib # ibs)" "cacheable p msk jc"
      then show "all_hashes (snd jc) q = [block_key (nbh ! fst jc) gid]"
        using q(4) hb ib by (cases "jc = ib") simp_all
    next
      fix c assume c: "c \<in> range Blk" "c \<notin> set (map snd (filter (cacheable p msk) (ib # ibs)))"
      from other [OF c] show "all_hashes c q = all_hashes c p" "heap q c = heap p c" by simp_all
    qed
  qed
qed simp



section \<open>The pool and its clients\<close>

text \<open>
  The operations of the pool as steps, with what their callers guarantee: blocks passed in belong to
  the pool, and a caller gives back only references it holds.
\<close>

inductive pool_step :: "block_pool \<Rightarrow> block_pool \<Rightarrow> bool" where
  step_new: "0 \<le> n \<Longrightarrow> get_new_blocks n p = Inr (bs, q) \<Longrightarrow> pool_step p q"
| step_touch: "set bs \<subseteq> insert (null_block p) (real_blocks p) \<Longrightarrow> touch bs p = Inr q \<Longrightarrow> pool_step p q"
| step_free: "set bs \<subseteq> insert (null_block p) (real_blocks p) \<Longrightarrow>
    (\<And>b. b \<in> real_blocks p \<Longrightarrow> int (count_list bs b) \<le> ref_cnt (heap p b)) \<Longrightarrow> free_blocks bs p = Inr q \<Longrightarrow> pool_step p q"
| step_evict: "(\<And>i. i \<in> set ids \<Longrightarrow> 0 \<le> i \<and> i < num_gpu_blocks p) \<Longrightarrow> evict_blocks ids p = Inr q \<Longrightarrow> pool_step p q"
| step_reset: "reset_prefix_cache p = (res, q) \<Longrightarrow> pool_step p q"
| step_events: "take_events p = (evs, q) \<Longrightarrow> pool_step p q"
| step_cache_full: "set blocks \<subseteq> insert (null_block p) (real_blocks p) \<Longrightarrow>
    cache_full_blocks env r blocks nc nf bs gid msk p = Inr (r', q) \<Longrightarrow> pool_step p q"
| step_cache_partial: "b \<in> insert (null_block p) (real_blocks p) \<Longrightarrow>
    cache_partial_block env r b nt gid bs p = Inr (k, r', q) \<Longrightarrow> pool_step p q"
| step_emit: "emit_cached_block_events env r nc bs gid p = Inr (r', q) \<Longrightarrow> pool_step p q"
| step_move: "src \<in> real_blocks p \<Longrightarrow> dst \<in> real_blocks p \<Longrightarrow> src \<noteq> dst \<Longrightarrow>
    move_block_hashes src dst p = Inr q \<Longrightarrow> pool_step p q"

inductive pool_reach :: "block_pool \<Rightarrow> bool" where
  reach_init: "pool_init n caching hbs events use_int = Inr p \<Longrightarrow> pool_reach p"
| reach_step: "pool_reach p \<Longrightarrow> pool_step p q \<Longrightarrow> pool_reach q"

lemma emit_cached_same: "emit_cached_block_events env r nc bs gid p = Inr (r', q) \<Longrightarrow> same_but_events p q"
  by (cases "\<not> enable_kv_cache_events p \<or> nc = 0")
    (auto simp: emit_cached_block_events_def same_but_events_def push_event_def split: if_splits)

lemma same_but_events_ok: "same_but_events p q \<Longrightarrow> pool_ok p fl \<Longrightarrow> pool_ok q fl"
  using same_but_events_fields [of p q] pool_ok_core [of q p fl] by (simp add: pool_ok_def)

lemma pool_step_ok:
  assumes "pool_step p q" "pool_ok p fl"
  shows "\<exists>fl'. pool_ok q fl'"
  using assms
proof (induction rule: pool_step.induct)
  case (step_new n p bs q)
  show ?case
  proof (cases "n \<le> int (length fl)")
    case True
    with get_new_blocks_ok [OF step_new(3,1)] step_new(2) show ?thesis by auto
  next
    case False
    with get_new_blocks_short [OF step_new(3)] step_new(2) show ?thesis by simp
  qed
next
  case (step_touch bs p q)
  then show ?case using touch_ok [of p fl bs] by (auto simp: pool_ok_def null_ok_def)
next
  case (step_free bs p q)
  then have "set bs \<subseteq> insert (Blk 0) (real_blocks p)" by (simp add: pool_ok_def null_ok_def)
  from free_blocks_ok [OF step_free(4) this step_free(2)] step_free(3) show ?case by auto
next
  case (step_evict ids p q)
  then show ?case using evict_blocks_ok [of p fl ids] by auto
next
  case (step_reset p res q)
  then show ?case using reset_ok(1) [OF step_reset(2,1)] by blast
next
  case (step_events p evs q)
  then have "same_but_events p q" by (auto simp: take_events_def same_but_events_def split: if_splits)
  then show ?case using same_but_events_ok step_events(2) by blast
next
  case (step_cache_full blocks p env r nc nf bs gid msk r' q)
  then have "set blocks \<subseteq> insert (Blk 0) (real_blocks p)" by (simp add: pool_ok_def null_ok_def)
  from cache_full_blocks_preserves(1) [OF step_cache_full(3) this step_cache_full(2)] show ?case by blast
next
  case (step_cache_partial b p env r nt gid bs k r' q)
  then have "b \<in> insert (Blk 0) (real_blocks p)" by (simp add: pool_ok_def null_ok_def)
  from cache_partial_block_preserves(1) [OF step_cache_partial(3) this step_cache_partial(2)] show ?case by blast
next
  case (step_emit env r nc bs gid p r' q)
  then show ?case using same_but_events_ok emit_cached_same by blast
next
  case (step_move src p dst q)
  then have "block_hash (heap p dst) = None" by (simp add: move_block_hashes_def)
  from move_block_hashes_ok [OF step_move(5,1-3) this] step_move(4) show ?case by auto
qed

lemma pool_reach_ok: "pool_reach p \<Longrightarrow> \<exists>fl. pool_ok p fl"
proof (induction rule: pool_reach.induct)
  case (reach_init n caching hbs events use_int p)
  then have "0 < n" by (simp add: pool_init_def eassert_def split: if_splits)
  from pool_init_ok [OF this, of caching hbs events use_int] reach_init show ?case by auto
next
  case (reach_step p q)
  then show ?case using pool_step_ok by blast
qed

end
