(* ===== verification/Pool_Properties.thy ===== *)
theory Pool_Properties
  imports Pool_Caching
begin

text \<open>
  What the clients of the block pool rely on: every reachable pool satisfies the invariant; allocation,
  lookup, caching, touching, freeing and resetting do what they promise.
\<close>

section \<open>Lookup\<close>

definition holds_hash :: "block_pool \<Rightarrow> bytes \<Rightarrow> int \<Rightarrow> bref \<Rightarrow> bool" where
  "holds_hash p h g b \<longleftrightarrow> b \<in> real_blocks p \<and> block_key h g \<in> set (all_hashes b p)"

lemma lookup_groups_ok:
  assumes "cache_ok p" "\<forall>g \<in> set gs. 0 \<le> g \<and> g < 2 ^ 32"
  shows "\<exists>r. lookup_groups p h gs acc = Inr r \<and>
    (case r of None \<Rightarrow> \<exists>g \<in> set gs. \<forall>b. \<not> holds_hash p h g b
     | Some bs \<Rightarrow> \<exists>cs. bs = acc @ cs \<and> list_all2 (holds_hash p h) gs cs)"
  using assms(2)
proof (induction gs arbitrary: acc)
  case (Cons g gs)
  have key: "make_block_hash_with_group_id h g = Inr (block_key h g)"
    using Cons.prems by (simp add: make_block_hash_ok block_key_def)
  have e: "(block_key h g, b) \<in> entries (cached_block_hash_to_block p) \<longleftrightarrow> holds_hash p h g b" for b
    by (simp add: holds_hash_def cache_okD(2) [OF assms(1)])
  from bm.one_result [OF cache_okD(1) [OF assms(1)], of "block_key h g"] obtain r where
    r: "get_one_block (cached_block_hash_to_block p) (block_key h g) = Inr r"
      "case r of None \<Rightarrow> \<forall>b. \<not> holds_hash p h g b | Some b \<Rightarrow> holds_hash p h g b" unfolding e by blast
  show ?case
  proof (cases r)
    case None
    with r key show ?thesis by auto
  next
    case (Some b)
    from Cons.IH [of "acc @ [b]"] Cons.prems obtain r' where
      r': "lookup_groups p h gs (acc @ [b]) = Inr r'"
        "case r' of None \<Rightarrow> \<exists>g \<in> set gs. \<forall>b. \<not> holds_hash p h g b
         | Some bs \<Rightarrow> \<exists>cs. bs = (acc @ [b]) @ cs \<and> list_all2 (holds_hash p h) gs cs" by auto
    have "lookup_groups p h (g # gs) acc = Inr r'" using r key Some r'(1) by simp
    moreover have "case r' of None \<Rightarrow> \<exists>g \<in> set (g # gs). \<forall>b. \<not> holds_hash p h g b
         | Some bs \<Rightarrow> \<exists>cs. bs = acc @ cs \<and> list_all2 (holds_hash p h) (g # gs) cs"
      using r'(2) r(2) Some by (cases r') auto
    ultimately show ?thesis by blast
  qed
qed simp

lemma get_cached_block_ok:
  assumes "cache_ok p" "\<forall>g \<in> set gs. 0 \<le> g \<and> g < 2 ^ 32"
  shows "\<exists>r. get_cached_block h gs p = Inr r \<and>
    (case r of None \<Rightarrow> \<exists>g \<in> set gs. \<forall>b. \<not> holds_hash p h g b | Some bs \<Rightarrow> list_all2 (holds_hash p h) gs bs)"
  using lookup_groups_ok [OF assms, of h "[]"] by (simp add: get_cached_block_def cong: option.case_cong)


section \<open>Caching a run of blocks\<close>

lemma slice_at_scale:
  assumes hbs: "0 < hbs" and k: "0 < k" and nc: "0 \<le> nc"
  shows "\<exists>v. resolve_block_hashes (HashList hs) hbs (k * hbs) False None = Inr v \<and>
    bhl_slice_from v nc = Inr (map (\<lambda>i. hs ! nat ((int i + 1) * k - 1)) [nat nc..<nat (int (length hs) div k)]) \<and>
    (\<forall>i. 0 \<le> i \<and> i < int (length hs) div k \<longrightarrow> bhl_get v i = Inr (hs ! nat ((i + 1) * k - 1)))"
proof (cases "k = 1")
  case True
  have "drop (nat nc) hs = map (\<lambda>i. hs ! i) [nat nc..<length hs]"
    by (metis drop_map drop_upt map_nth plus_nat.add_0)
  with True nc show ?thesis by (simp add: resolve_block_hashes_def py_index_def)
next
  case False
  then have ne: "k * hbs \<noteq> hbs" using hbs by simp
  have v: "resolve_block_hashes (HashList hs) hbs (k * hbs) False None = Inr (HashView hs k)"
    using ne hbs by (simp add: resolve_block_hashes_def new_hash_view_def)
  have get: "bhl_get (HashView hs k) i = Inr (hs ! nat ((i + 1) * k - 1))" if "0 \<le> i" "i < int (length hs) div k" for i
    using view_get(1) [OF k that] .
  have "emap (\<lambda>i. bhl_get (HashView hs k) (int i)) [slice_bound (nat (int (length hs) div k)) nc..<nat (int (length hs) div k)] =
      Inr (map (\<lambda>i. hs ! nat ((int i + 1) * k - 1)) [slice_bound (nat (int (length hs) div k)) nc..<nat (int (length hs) div k)])"
    by (rule emap_ok, rule get) auto
  moreover have "[slice_bound (nat (int (length hs) div k)) nc..<nat (int (length hs) div k)] = [nat nc..<nat (int (length hs) div k)]"
    using nc by (auto simp: slice_bound_def min_def)
  ultimately have "bhl_slice_from (HashView hs k) nc = Inr (map (\<lambda>i. hs ! nat ((int i + 1) * k - 1)) [nat nc..<nat (int (length hs) div k)])"
    by (simp add: Let_def del: bhl_get.simps)
  with v get show ?thesis by (intro exI [of _ "HashView hs k"]) blast
qed

lemma generate_keys_returns:
  assumes "0 \<le> idx"
  shows "\<exists>ks j r'. generate_block_hash_extra_keys env r s e idx = Inr (ks, j, r') \<and> 0 \<le> j"
proof -
  have "\<exists>mk j. gen_mm_extra_hash_keys r s e idx = Inr (mk, j) \<and> 0 \<le> j"
    using assms by (cases "mm_loop (mm_features r) s e (nat idx) []") (auto simp: gen_mm_extra_hash_keys_def Let_def)
  then obtain mk j where "gen_mm_extra_hash_keys r s e idx = Inr (mk, j)" "0 \<le> j" by blast
  then show ?thesis by (simp add: generate_block_hash_extra_keys_def Let_def split: prod.splits)
qed

lemma event_extra_keys_returns:
  assumes "\<And>i. i \<in> set idxs \<Longrightarrow> \<exists>s. skip i = Inr s"
  shows "\<exists>ks r'. event_extra_keys env skip bs idxs r = Inr (ks, r')"
proof -
  have "\<exists>r' j acc'. efold (\<lambda>i (r, cur_mm_idx, acc).
         ebind (skip i) (\<lambda>s.
         if s then Inr (r, cur_mm_idx, acc)
         else
           ebind (generate_block_hash_extra_keys env r (i * bs) (i * bs + bs) cur_mm_idx)
             (\<lambda>(extra_keys, idx, r'). Inr (r', idx, acc @ [extra_keys])))) idxs (r, idx, acc) = Inr (r', j, acc')"
    if "0 \<le> idx" for idx acc
    using assms that
  proof (induction idxs arbitrary: r idx acc)
    case (Cons i idxs)
    from Cons.prems(1) [of i] obtain s where s: "skip i = Inr s" by auto
    from generate_keys_returns [OF Cons.prems(2), of env r "i * bs" "i * bs + bs"] obtain ks j r1 where
      g: "generate_block_hash_extra_keys env r (i * bs) (i * bs + bs) idx = Inr (ks, j, r1)" "0 \<le> j" by blast
    show ?case
    proof (cases s)
      case True
      then show ?thesis using Cons.IH [of idx r acc] Cons.prems s by simp
    next
      case False
      then show ?thesis using Cons.IH [of j r1 "acc @ [ks]"] Cons.prems s g by simp
    qed
  qed simp
  from this [of 0 "[]"] show ?thesis by (auto simp: event_extra_keys_def)
qed


text \<open>The entries the loop over the new full blocks is run with.\<close>

lemma cacheable_entries:
  assumes null: "\<And>c. c \<in> set sl \<Longrightarrow> is_null (heap p c) \<longleftrightarrow> c = Blk 0" and d: "distinct (filter (\<lambda>b. b \<noteq> Blk 0) sl)"
  shows "distinct (map snd (filter (cacheable p msk) (List.enumerate 0 sl)))"
proof -
  define ibs where "ibs = List.enumerate 0 sl"
  have "distinct (filter (\<lambda>b. b \<noteq> Blk 0) (map snd ibs))" using d by (simp add: ibs_def)
  then have "distinct (map snd (filter (\<lambda>ib. snd ib \<noteq> Blk 0) ibs))" by (simp add: filter_map o_def)
  moreover have "cacheable p msk ib \<longrightarrow> snd ib \<noteq> Blk 0" if "ib \<in> set ibs" for ib
    using that null [OF nth_mem, of "fst ib"] by (auto simp: cacheable_def ibs_def in_set_enumerate_eq)
  then have "filter (cacheable p msk) ibs = filter (cacheable p msk) (filter (\<lambda>ib. snd ib \<noteq> Blk 0) ibs)"
    by (auto simp: filter_filter intro: filter_cong)
  ultimately show ?thesis unfolding ibs_def by (metis distinct_map_filter)
qed

lemma cache_slice_ok:
  assumes ok: "pool_ok p fl" and gid: "0 \<le> gid" "gid < 2 ^ 32" and len: "length sl \<le> length nbh"
    and b: "set sl \<subseteq> insert (Blk 0) (real_blocks p)" and d: "distinct (filter (\<lambda>b. b \<noteq> Blk 0) sl)"
    and fresh: "\<And>b. b \<in> set sl \<Longrightarrow> block_hash (heap p b) = None"
  shows "\<exists>nh q. efold (cache_one_block nbh nc bs gid msk) (List.enumerate 0 sl) ([], p) = Inr (nh, q) \<and> cache_ok q \<and> core q = core p \<and>
    (\<forall>j < length sl. sl ! j \<noteq> Blk 0 \<and> \<not> masked_out msk j \<longrightarrow> all_hashes (sl ! j) q = [block_key (nbh ! j) gid])"
proof -
  note D = pool_okD [OF ok]
  have null: "is_null (heap p c) \<longleftrightarrow> c = Blk 0" if "c \<in> set sl" for c
    using that b null_block_iff [OF D(1), of c] null_not_real [OF D(1), of c] by (auto simp: real_blocks_def)
  have mem: "ib \<in> set (List.enumerate 0 sl) \<longleftrightarrow> fst ib < length sl \<and> snd ib = sl ! fst ib" for ib
    by (cases ib) (auto simp: in_set_enumerate_eq)
  have "\<forall>ib \<in> set (List.enumerate 0 sl). cacheable p msk ib \<longrightarrow> fst ib < length nbh \<and>
      (block_hash (heap p (snd ib)) \<noteq> None \<longrightarrow>
        (\<exists>t. block_hash_num_tokens (heap p (snd ib)) = Some t \<and> t < (nc + int (fst ib) + 1) * bs))"
    using len fresh by (auto simp: in_set_enumerate_eq)
  then obtain nh q where q: "efold (cache_one_block nbh nc bs gid msk) (List.enumerate 0 sl) ([], p) = Inr (nh, q)"
      "cache_ok q" "core q = core p"
      "\<forall>ib \<in> set (List.enumerate 0 sl). cacheable p msk ib \<longrightarrow> all_hashes (snd ib) q = [block_key (nbh ! fst ib) gid]"
    using cache_blocks_ok [OF D(3,1) gid, of "List.enumerate 0 sl" msk nbh nc bs "[]"] b cacheable_entries [OF null d] by auto
  have "all_hashes (sl ! j) q = [block_key (nbh ! j) gid]" if "j < length sl" "sl ! j \<noteq> Blk 0" "\<not> masked_out msk j" for j
    using bspec [OF q(4), of "(j, sl ! j)"] that null by (simp add: mem cacheable_def)
  with q show ?thesis by blast
qed

lemma cache_full_blocks_ok:
  assumes ok: "pool_ok p fl" and hbs: "0 < hash_block_size p" and k: "0 < k" and gid: "0 \<le> gid" "gid < 2 ^ 32"
    and nc: "0 \<le> nc" "nc < nf" "nf \<le> int (length blocks)" "nf \<le> int (length (block_hashes r)) div k"
    and msk: "case msk of None \<Rightarrow> True | Some m \<Rightarrow> length m = nat (nf - nc)"
    and b: "set blocks \<subseteq> insert (Blk 0) (real_blocks p)"
    and d: "distinct (filter (\<lambda>b. b \<noteq> Blk 0) (py_slice blocks nc nf))"
    and fresh: "\<And>b. b \<in> set (py_slice blocks nc nf) \<Longrightarrow> block_hash (heap p b) = None"
  shows "\<exists>r' q. cache_full_blocks env r blocks nc nf (k * hash_block_size p) gid msk p = Inr (r', q) \<and> pool_ok q fl \<and> core q = core p \<and>
    (\<forall>i. nat nc \<le> i \<and> i < nat nf \<and> blocks ! i \<noteq> Blk 0 \<and> \<not> masked_out msk (i - nat nc) \<longrightarrow>
       all_hashes (blocks ! i) q = [block_key (block_hashes r ! nat ((int i + 1) * k - 1)) gid])"
proof -
  define sl where "sl = py_slice blocks nc nf"
  define nbh where "nbh = map (\<lambda>i. block_hashes r ! nat ((int i + 1) * k - 1)) [nat nc..<nat (int (length (block_hashes r)) div k)]"
  have sl: "sl = take (nat nf - nat nc) (drop (nat nc) blocks)" using nc by (simp add: sl_def py_slice_nat)
  have len: "length sl = nat nf - nat nc" using nc by (simp add: sl)
  have lnbh: "length sl \<le> length nbh" using nc len by (auto simp: nbh_def intro!: diff_le_mono nat_mono)
  obtain v where v: "resolve_block_hashes (HashList (block_hashes r)) (hash_block_size p) (k * hash_block_size p) False None = Inr v"
    and from_v: "bhl_slice_from v nc = Inr nbh"
    and get_v: "\<forall>i. 0 \<le> i \<and> i < int (length (block_hashes r)) div k \<longrightarrow> bhl_get v i = Inr (block_hashes r ! nat ((i + 1) * k - 1))"
    using slice_at_scale [OF hbs k nc(1), of "block_hashes r"] unfolding nbh_def by blast
  have "set sl \<subseteq> insert (Blk 0) (real_blocks p)" using b set_py_slice by (fastforce simp: sl_def)
  from cache_slice_ok [OF ok gid lnbh this d [folded sl_def] fresh [folded sl_def], of nc "k * hash_block_size p" msk]
  obtain nh p1 where e: "efold (cache_one_block nbh nc (k * hash_block_size p) gid msk) (List.enumerate 0 sl) ([], p) = Inr (nh, p1)"
      "cache_ok p1" "core p1 = core p"
      "\<forall>j < length sl. sl ! j \<noteq> Blk 0 \<and> \<not> masked_out msk j \<longrightarrow> all_hashes (sl ! j) p1 = [block_key (nbh ! j) gid]" by blast
  have "\<exists>parent. (if nc = 0 then Inr None else ebind (bhl_get v (nc - 1)) (\<lambda>h. Inr (Some (external_hash p1 h)))) = Inr parent"
    using get_v nc by (cases "nc = 0") auto
  moreover have "\<exists>ks r'. event_extra_keys env (\<lambda>i. ebind (py_index blocks i) (\<lambda>b.
      Inr (is_null (heap p1 b) \<or> masked_out msk (nat (i - nc))))) (k * hash_block_size p) [nc..nf - 1] r = Inr (ks, r')"
    by (rule event_extra_keys_returns) (use nc in \<open>auto simp: py_index_def\<close>)
  moreover have asrt: "case msk of None \<Rightarrow> True | Some m \<Rightarrow> length m = length sl"
    using msk len nc by (auto split: option.splits)
  ultimately obtain r' q where q: "cache_full_blocks env r blocks nc nf (k * hash_block_size p) gid msk p = Inr (r', q)" "same_but_events p1 q"
    using nc v from_v e(1)
    by (cases "enable_kv_cache_events p1") (auto simp: cache_full_blocks_def Let_def same_but_events_def push_event_def simp flip: sl_def)
  note se = same_but_events_fields [OF q(2)]
  have "all_hashes (blocks ! i) q = [block_key (block_hashes r ! nat ((int i + 1) * k - 1)) gid]"
    if i: "nat nc \<le> i" "i < nat nf" "blocks ! i \<noteq> Blk 0" "\<not> masked_out msk (i - nat nc)" for i
  proof -
    have j: "i - nat nc < length sl" using diff_less_mono [OF i(2,1)] len by simp
    then have "sl ! (i - nat nc) = blocks ! i" using i nc by (simp add: sl)
    moreover have "nbh ! (i - nat nc) = block_hashes r ! nat ((int i + 1) * k - 1)" using i j lnbh by (simp add: nbh_def)
    ultimately show ?thesis using spec [OF e(4), of "i - nat nc"] j i se(3) by simp
  qed
  moreover have "pool_ok q fl" using pool_ok_core [of q p, OF _ _ ok] se e(2,3) by simp
  ultimately show ?thesis using q(1) se(2) e(3) by auto
qed


section \<open>Properties\<close>

text \<open>
  C8. Every pool the operations can reach is consistent: the linked free list holds exactly the blocks
  nobody references, each once and never the null block; reference counts are not negative; and the
  index of cached blocks has exactly the hashes the blocks carry.
\<close>

theorem reachable_pool_consistent:
  assumes "pool_reach p"
  shows "\<exists>fl. get_all_free_blocks p = Some (Inr fl) \<and> pool_ok p fl \<and> distinct fl \<and>
    set fl = {b \<in> real_blocks p. ref_cnt (heap p b) = 0} \<and> get_num_free_blocks p = int (length fl)"
proof -
  obtain fl where ok: "pool_ok p fl" using pool_reach_ok [OF assms] by blast
  note D = pool_okD [OF ok]
  have "set fl = {b \<in> real_blocks p. ref_cnt (heap p b) = 0}" using D(5,8) by auto
  then show ?thesis using get_all_free_blocks_ok [OF D(4)] ok D(6,9) by (auto simp: get_num_free_blocks_def)
qed

definition demo_pool :: "block_pool result" where
  "demo_pool = pool_init 4 True 2 True False"

lemma demo_pool_ok:
  "\<exists>p. demo_pool = Inr p \<and> pool_ok p [Blk 1, Blk 2, Blk 3] \<and> pool_config p = (4, True, 2, Blk 0, True, False) \<and>
    (\<forall>i. all_hashes (Blk i) p = []) \<and> (\<forall>i. ref_cnt (heap p (Blk i)) = 0) \<and> pool_reach p"
proof -
  have l: "map Blk [1..<nat 4] = [Blk 1, Blk 2, Blk 3]" by (simp add: upt_rec)
  obtain p where p: "demo_pool = Inr p" "pool_ok p [Blk 1, Blk 2, Blk 3]" "pool_config p = (4, True, 2, Blk 0, True, False)"
      "\<forall>i. all_hashes (Blk i) p = []" "\<forall>i. ref_cnt (heap p (Blk i)) = 0"
    using pool_init_ok [of 4 True 2 True False] unfolding l demo_pool_def by auto
  then show ?thesis using reach_init [OF p(1) [unfolded demo_pool_def]] by blast
qed

lemma demo_pool_alloc:
  "\<exists>p q. demo_pool = Inr p \<and> get_new_blocks 2 p = Inr ([Blk 1, Blk 2], q) \<and> pool_ok q [Blk 3] \<and>
    pool_config q = (4, True, 2, Blk 0, True, False) \<and> (\<forall>i. all_hashes (Blk i) q = []) \<and>
    (\<forall>i. ref_cnt (heap q (Blk i)) = (if i = 1 \<or> i = 2 then 1 else 0)) \<and> pool_reach q"
proof -
  obtain p where p: "demo_pool = Inr p" "pool_ok p [Blk 1, Blk 2, Blk 3]" "pool_config p = (4, True, 2, Blk 0, True, False)"
      "\<forall>i. all_hashes (Blk i) p = []" "\<forall>i. ref_cnt (heap p (Blk i)) = 0" "pool_reach p" using demo_pool_ok by blast
  have t: "take (nat 2) [Blk 1, Blk 2, Blk 3] = [Blk 1, Blk 2]" "drop (nat 2) [Blk 1, Blk 2, Blk 3] = [Blk 3]"
    by (simp_all add: numeral_2_eq_2)
  obtain q where q: "get_new_blocks 2 p = Inr ([Blk 1, Blk 2], q)" "pool_ok q [Blk 3]" "pool_config q = pool_config p"
      "\<forall>c. ref_cnt (heap q c) = (if c \<in> set [Blk 1, Blk 2] then 1 else ref_cnt (heap p c))"
      "\<forall>c \<in> range Blk. all_hashes c q = (if c \<in> set [Blk 1, Blk 2] \<and> enable_caching p then [] else all_hashes c p)"
    using get_new_blocks_ok [OF p(2), of 2] unfolding t by auto
  have "all_hashes (Blk i) q = []" for i using bspec [OF q(5), of "Blk i"] p(4) by simp
  moreover have "ref_cnt (heap q (Blk i)) = (if i = 1 \<or> i = 2 then 1 else 0)" for i using q(4) p(5) by auto
  moreover have "pool_reach q" using reach_step [OF p(6) step_new [OF _ q(1)]] by simp
  moreover have "pool_config q = (4, True, 2, Blk 0, True, False)" using q(3) p(3) by simp
  ultimately show ?thesis using p(1) q(1,2) by blast
qed

theorem reachable_pool_consistent_witness:
  "\<exists>p q fl. demo_pool = Inr p \<and> get_new_blocks 2 p = Inr ([Blk 1, Blk 2], q) \<and> get_all_free_blocks q = Some (Inr fl) \<and> pool_ok q fl"
proof -
  obtain p q where "demo_pool = Inr p" "get_new_blocks 2 p = Inr ([Blk 1, Blk 2], q)" "pool_reach q" using demo_pool_alloc by blast
  with reachable_pool_consistent [of q] show ?thesis by blast
qed

text \<open>
  C10. Allocating \<open>n\<close> blocks takes the first \<open>n\<close> of the free list, which nobody held; they come back with
  one reference, and with caching on without any hash, while every other block keeps its references and
  hashes. Asking for more blocks than are free raises \<^verbatim>\<open>ValueError\<close>.
\<close>

theorem allocation_is_fresh:
  assumes "pool_ok p fl" "0 \<le> n"
  shows "if n \<le> int (length fl)
    then \<exists>q. get_new_blocks n p = Inr (take (nat n) fl, q) \<and> pool_ok q (drop (nat n) fl) \<and>
      (\<forall>b. ref_cnt (heap q b) = (if b \<in> set (take (nat n) fl) then 1 else ref_cnt (heap p b))) \<and>
      (\<forall>i. all_hashes (Blk i) q = (if Blk i \<in> set (take (nat n) fl) \<and> enable_caching p then [] else all_hashes (Blk i) p))
    else get_new_blocks n p = Inl ValueError"
proof (cases "n \<le> int (length fl)")
  case True
  from get_new_blocks_ok [OF assms True] obtain q where "get_new_blocks n p = Inr (take (nat n) fl, q)" "pool_ok q (drop (nat n) fl)"
    "\<forall>b. ref_cnt (heap q b) = (if b \<in> set (take (nat n) fl) then 1 else ref_cnt (heap p b))"
    "\<forall>b \<in> range Blk. all_hashes b q = (if b \<in> set (take (nat n) fl) \<and> enable_caching p then [] else all_hashes b p)" by blast
  then show ?thesis unfolding if_P [OF True] by blast
qed (simp add: get_new_blocks_short [OF assms(1)])

theorem allocation_is_fresh_witness:
  "\<exists>p q. demo_pool = Inr p \<and> get_new_blocks 1 p = Inr ([Blk 1], q) \<and> pool_ok q [Blk 2, Blk 3] \<and> get_new_blocks 4 p = Inl ValueError"
proof -
  obtain p where p: "demo_pool = Inr p" "pool_ok p [Blk 1, Blk 2, Blk 3]" using demo_pool_ok by blast
  have "\<exists>q. get_new_blocks 1 p = Inr ([Blk 1], q) \<and> pool_ok q [Blk 2, Blk 3]"
    using allocation_is_fresh [OF p(2), of 1] by simp blast
  moreover have "get_new_blocks 4 p = Inl ValueError" using allocation_is_fresh [OF p(2), of 4] by simp
  ultimately show ?thesis using p(1) by blast
qed

text \<open>
  C15. No block is lost or counted twice: free blocks, referenced blocks and the null block add up to the
  size of the pool, and the reported usage is the referenced fraction, between zero and one.
\<close>

theorem blocks_conserved:
  assumes "pool_ok p fl"
  shows "get_num_free_blocks p + int (card {b \<in> real_blocks p. ref_cnt (heap p b) > 0}) + 1 = num_gpu_blocks p \<and>
    get_usage p * of_int (num_gpu_blocks p - 1) = of_nat (card {b \<in> real_blocks p. ref_cnt (heap p b) > 0}) \<and>
    0 \<le> get_usage p \<and> get_usage p \<le> 1"
proof -
  define u where "u = card {b \<in> real_blocks p. ref_cnt (heap p b) > 0}"
  define t :: rat where "t = of_int (num_gpu_blocks p - 1)"
  have sum: "int (length fl) + int u + 1 = num_gpu_blocks p" using card_free_used [OF assms] by (simp add: u_def)
  have free: "get_num_free_blocks p = int (length fl)" using pool_okD(9) [OF assms] by (simp add: get_num_free_blocks_def)
  have t: "t = of_nat (length fl) + of_nat u" using arg_cong [OF sum, of "\<lambda>x. of_int (x - 1) :: rat"] by (simp add: t_def)
  have usage: "get_usage p = (if t = 0 then 0 else 1 - of_nat (length fl) / t)"
    by (simp add: get_usage_def free t_def)
  have "get_usage p * t = of_nat u \<and> 0 \<le> get_usage p \<and> get_usage p \<le> 1"
    using t by (cases "t = 0") (auto simp: usage field_simps)
  then show ?thesis using sum free by (simp add: u_def t_def)
qed

theorem blocks_conserved_witness:
  "\<exists>p q. demo_pool = Inr p \<and> get_new_blocks 2 p = Inr ([Blk 1, Blk 2], q) \<and>
    get_num_free_blocks q + int (card {b \<in> real_blocks q. ref_cnt (heap q b) > 0}) + 1 = num_gpu_blocks q"
proof -
  obtain p q where "demo_pool = Inr p" "get_new_blocks 2 p = Inr ([Blk 1, Blk 2], q)" "pool_ok q [Blk 3]" using demo_pool_alloc by blast
  with blocks_conserved [of q] show ?thesis by blast
qed

text \<open>
  C11. Looking a block hash up for a list of cache groups returns one block per group, each carrying that
  hash for its group, exactly when every group has such a block; otherwise it returns no blocks. It never raises.
\<close>

theorem lookup_sound_and_complete:
  assumes "pool_ok p fl" "\<forall>g \<in> set gs. 0 \<le> g \<and> g < 2 ^ 32"
  shows "\<exists>r. get_cached_block h gs p = Inr r \<and> (r \<noteq> None \<longleftrightarrow> (\<forall>g \<in> set gs. \<exists>b. holds_hash p h g b)) \<and>
    (\<forall>bs. r = Some bs \<longrightarrow> list_all2 (holds_hash p h) gs bs)"
proof -
  obtain r where r: "get_cached_block h gs p = Inr r"
    "case r of None \<Rightarrow> \<exists>g \<in> set gs. \<forall>b. \<not> holds_hash p h g b | Some bs \<Rightarrow> list_all2 (holds_hash p h) gs bs"
    using get_cached_block_ok [OF pool_okD(3) [OF assms(1)] assms(2)] by blast
  show ?thesis
  proof (cases r)
    case (Some bs)
    with r(2) have "list_all2 (holds_hash p h) gs bs" by simp
    then have "\<forall>g \<in> set gs. \<exists>b. holds_hash p h g b" by (metis in_set_conv_nth list_all2_conv_all_nth)
    with r Some show ?thesis by auto
  qed (use r in auto)
qed

theorem lookup_sound_and_complete_witness:
  "\<exists>p r. demo_pool = Inr p \<and> get_cached_block [1] [0, 1] p = Inr r \<and> (r \<noteq> None \<longleftrightarrow> (\<forall>g \<in> {0, 1}. \<exists>b. holds_hash p [1] g b))"
proof -
  obtain p where p: "demo_pool = Inr p" "pool_ok p [Blk 1, Blk 2, Blk 3]" using demo_pool_ok by blast
  then show ?thesis using lookup_sound_and_complete [OF p(2), of "[0, 1]" "[1]"] by auto
qed

text \<open>
  C9. Caching the full blocks \<open>nc\<close> to \<open>nf\<close> of a request whose hashes are at hand succeeds, event included,
  and keeps references and free list; afterwards each of these blocks that is neither the null block nor masked
  out is filed under the hash of the prefix it ends, at the manager's block size of \<open>k\<close> hash blocks, and a lookup of that hash hits.
\<close>

theorem cached_blocks_are_found:
  assumes "pool_ok p fl" "0 < hash_block_size p" "0 < k" "0 \<le> gid" "gid < 2 ^ 32"
    "0 \<le> nc" "nc < nf" "nf \<le> int (length blocks)" "nf \<le> int (length (block_hashes r)) div k"
    "case msk of None \<Rightarrow> True | Some m \<Rightarrow> length m = nat (nf - nc)"
    "set blocks \<subseteq> insert (Blk 0) (real_blocks p)"
    "distinct (filter (\<lambda>b. b \<noteq> Blk 0) (py_slice blocks nc nf))"
    "\<forall>b \<in> set (py_slice blocks nc nf). block_hash (heap p b) = None"
  shows "\<exists>r' q. cache_full_blocks env r blocks nc nf (k * hash_block_size p) gid msk p = Inr (r', q) \<and> pool_ok q fl \<and>
    (\<forall>b. ref_cnt (heap q b) = ref_cnt (heap p b)) \<and>
    (\<forall>i. nat nc \<le> i \<and> i < nat nf \<and> blocks ! i \<noteq> Blk 0 \<and> \<not> masked_out msk (i - nat nc) \<longrightarrow>
       holds_hash q (block_hashes r ! nat ((int i + 1) * k - 1)) gid (blocks ! i) \<and>
       (\<exists>b. get_cached_block (block_hashes r ! nat ((int i + 1) * k - 1)) [gid] q = Inr (Some [b])))"
proof -
  obtain r' q where q: "cache_full_blocks env r blocks nc nf (k * hash_block_size p) gid msk p = Inr (r', q)" "pool_ok q fl" "core q = core p"
    "\<forall>i. nat nc \<le> i \<and> i < nat nf \<and> blocks ! i \<noteq> Blk 0 \<and> \<not> masked_out msk (i - nat nc) \<longrightarrow>
       all_hashes (blocks ! i) q = [block_key (block_hashes r ! nat ((int i + 1) * k - 1)) gid]"
    using cache_full_blocks_ok [OF assms(1-12)] assms(13) by blast
  have rb: "real_blocks q = real_blocks p" using q(3) config_eqs(5) core_pool_config by blast
  have "holds_hash q (block_hashes r ! nat ((int i + 1) * k - 1)) gid (blocks ! i) \<and>
      (\<exists>b. get_cached_block (block_hashes r ! nat ((int i + 1) * k - 1)) [gid] q = Inr (Some [b]))"
    if i: "nat nc \<le> i \<and> i < nat nf \<and> blocks ! i \<noteq> Blk 0 \<and> \<not> masked_out msk (i - nat nc)" for i
  proof -
    have "blocks ! i \<in> set blocks" using i assms by (intro nth_mem) linarith
    then have h: "holds_hash q (block_hashes r ! nat ((int i + 1) * k - 1)) gid (blocks ! i)"
      using q(4) i assms(11) rb by (auto simp: holds_hash_def)
    moreover obtain z where "get_cached_block (block_hashes r ! nat ((int i + 1) * k - 1)) [gid] q = Inr z"
      "case z of None \<Rightarrow> \<exists>g \<in> set [gid]. \<forall>b. \<not> holds_hash q (block_hashes r ! nat ((int i + 1) * k - 1)) g b
       | Some bs \<Rightarrow> list_all2 (holds_hash q (block_hashes r ! nat ((int i + 1) * k - 1))) [gid] bs"
      using get_cached_block_ok [OF pool_okD(3) [OF q(2)], of "[gid]"] assms(4,5) by auto
    ultimately show ?thesis by (cases z) (auto simp: list_all2_Cons1)
  qed
  moreover have "ref_cnt (heap q b) = ref_cnt (heap p b)" for b using core_block [OF q(3), of b] by simp
  ultimately show ?thesis using q(1,2) by blast
qed

theorem cached_blocks_are_found_witness:
  "\<exists>p q r r' p'. demo_pool = Inr p \<and> get_new_blocks 2 p = Inr ([Blk 1, Blk 2], q) \<and> demo_request 2 [1, 2, 3, 4, 5] [] None None = Inr r \<and>
    cache_full_blocks demo_env r [Blk 1, Blk 2] 0 2 2 0 None q = Inr (r', p') \<and>
    (\<exists>b. get_cached_block (block_hashes r ! 1) [0] p' = Inr (Some [b]))"
proof -
  obtain p q where q: "demo_pool = Inr p" "get_new_blocks 2 p = Inr ([Blk 1, Blk 2], q)" "pool_ok q [Blk 3]"
    "pool_config q = (4, True, 2, Blk 0, True, False)" "\<forall>i. all_hashes (Blk i) q = []" using demo_pool_alloc by blast
  have "case demo_request 2 [1, 2, 3, 4, 5] [] None None of Inl _ \<Rightarrow> False | Inr r \<Rightarrow> length (block_hashes r) = 2" by code_simp
  then obtain r where r: "demo_request 2 [1, 2, 3, 4, 5] [] None None = Inr r" "length (block_hashes r) = 2" by (auto split: sum.splits)
  have hbs: "hash_block_size q = 2" and rb: "real_blocks q = {b. \<exists>i. b = Blk i \<and> 0 < i \<and> int i < 4}"
    using q(4) by (simp_all add: pool_config_def real_blocks_def)
  have none: "block_hash (heap q (Blk i)) = None" for i using q(5) by (auto simp: all_hashes_def split: option.splits)
  have sl: "py_slice [Blk (Suc 0), Blk 2] 0 2 = [Blk 1, Blk 2]" by (simp add: py_slice_nat numeral_2_eq_2)
  have "\<exists>r' p'. cache_full_blocks demo_env r [Blk 1, Blk 2] 0 2 (1 * hash_block_size q) 0 None q = Inr (r', p') \<and> pool_ok p' [Blk 3] \<and>
    (\<forall>b. ref_cnt (heap p' b) = ref_cnt (heap q b)) \<and>
    (\<forall>i. nat 0 \<le> i \<and> i < nat 2 \<and> [Blk 1, Blk 2] ! i \<noteq> Blk 0 \<and> \<not> masked_out None (i - nat 0) \<longrightarrow>
       holds_hash p' (block_hashes r ! nat ((int i + 1) * 1 - 1)) 0 ([Blk 1, Blk 2] ! i) \<and>
       (\<exists>b. get_cached_block (block_hashes r ! nat ((int i + 1) * 1 - 1)) [0] p' = Inr (Some [b])))"
    by (rule cached_blocks_are_found [OF q(3)]) (use r hbs rb none in \<open>auto simp: sl\<close>)
  then obtain r' p' where c: "cache_full_blocks demo_env r [Blk 1, Blk 2] 0 2 (1 * hash_block_size q) 0 None q = Inr (r', p')"
    "\<forall>i. nat 0 \<le> i \<and> i < nat 2 \<and> [Blk 1, Blk 2] ! i \<noteq> Blk 0 \<and> \<not> masked_out None (i - nat 0) \<longrightarrow>
       (\<exists>b. get_cached_block (block_hashes r ! nat ((int i + 1) * 1 - 1)) [0] p' = Inr (Some [b]))" by blast
  then have "cache_full_blocks demo_env r [Blk 1, Blk 2] 0 2 2 0 None q = Inr (r', p')" by (simp add: hbs)
  moreover have "\<exists>b. get_cached_block (block_hashes r ! 1) [0] p' = Inr (Some [b])"
    using c(2) [rule_format, of 1] by (simp add: masked_out_def)
  ultimately show ?thesis using q(1,2) r(1) by blast
qed

text \<open>
  C12. Giving back one reference of each of distinct blocks always succeeds. Exactly the blocks whose count reaches zero become free,
  in the order given: with caching enabled those without a hash go to the front of the free list and are reused first, and those with a
  hash to the back, so that a cached block is evicted only after every block that was free before it; with caching disabled all of
  them go to the back. Hashes stay, so a freed block can still be found.
\<close>

theorem freed_blocks_order:
  assumes "pool_ok p fl" "set bs \<subseteq> insert (Blk 0) (real_blocks p)" "distinct bs"
    "\<forall>b \<in> set bs. b \<noteq> Blk 0 \<longrightarrow> 0 < ref_cnt (heap p b)"
  defines "gone \<equiv> filter (\<lambda>b. b \<noteq> Blk 0 \<and> ref_cnt (heap p b) = 1) bs"
  shows "\<exists>q. free_blocks bs p = Inr q \<and>
    pool_ok q (if enable_caching p
      then filter (\<lambda>b. block_hash (heap p b) = None) gone @ fl @ filter (\<lambda>b. block_hash (heap p b) \<noteq> None) gone
      else fl @ gone) \<and>
    (\<forall>b. ref_cnt (heap q b) = ref_cnt (heap p b) - (if b \<in> set bs then 1 else 0)) \<and> (\<forall>b. all_hashes b q = all_hashes b p)"
proof -
  have null: "is_null (heap p b) \<longleftrightarrow> b = Blk 0" if "b \<in> set bs" for b
    using that assms(2) null_block_iff [OF pool_okD(1) [OF assms(1)], of b] null_not_real [OF pool_okD(1) [OF assms(1)], of b]
    by (auto simp: real_blocks_def)
  have cnt: "int (count_list bs b) = (if b \<in> set bs then 1 else 0)" for b
    using assms(3) by (induction bs) auto
  have "int (count_list bs b) \<le> ref_cnt (heap p b)" if "b \<in> real_blocks p" for b
    using that assms(4) pool_okD(7) [OF assms(1) that] by (auto simp: cnt real_blocks_def)
  moreover have "released_by bs p = gone"
    unfolding released_distinct [OF assms(3)] gone_def using null by (intro filter_cong) auto
  moreover have "(if enable_caching p then filter (\<lambda>b. block_hash (heap p b) = None) gone @ fl @ filter (\<lambda>b. block_hash (heap p b) \<noteq> None) gone
      else fl @ gone) = filter (unhashed p) gone @ fl @ filter (\<lambda>b. \<not> unhashed p b) gone"
    by (simp add: unhashed_def [abs_def])
  ultimately show ?thesis using free_blocks_ok [OF assms(1,2)] by (auto simp: cnt)
qed

theorem freed_blocks_order_witness:
  "\<exists>p q p'. demo_pool = Inr p \<and> get_new_blocks 2 p = Inr ([Blk 1, Blk 2], q) \<and> free_blocks [Blk 2, Blk 1] q = Inr p' \<and>
    pool_ok p' [Blk 2, Blk 1, Blk 3]"
proof -
  obtain p q where q: "demo_pool = Inr p" "get_new_blocks 2 p = Inr ([Blk 1, Blk 2], q)" "pool_ok q [Blk 3]"
    "pool_config q = (4, True, 2, Blk 0, True, False)" "\<forall>i. all_hashes (Blk i) q = []"
    "\<forall>i. ref_cnt (heap q (Blk i)) = (if i = 1 \<or> i = 2 then 1 else 0)" using demo_pool_alloc by blast
  have rb: "real_blocks q = {b. \<exists>i. b = Blk i \<and> 0 < i \<and> int i < 4}"
    using q(4) by (simp add: pool_config_def real_blocks_def)
  have un: "block_hash (heap q (Blk i)) = None" "enable_caching q" for i using q(4) q(5) [rule_format, of i] by (auto simp: pool_config_def all_hashes_def split: option.splits)
  have "\<exists>p'. free_blocks [Blk 2, Blk 1] q = Inr p' \<and> pool_ok p' ([Blk 2, Blk 1] @ [Blk 3] @ [])"
    using freed_blocks_order [OF q(3), of "[Blk 2, Blk 1]"] by (auto simp: rb q(6) un)
  with q(1,2) show ?thesis by auto
qed

text \<open>
  C13. Touching blocks and freeing them again restores every reference count and keeps every hash, and the same
  blocks are free as before; while they are touched none of them is in the free list, so none can be evicted.
\<close>

theorem touch_then_free:
  assumes "pool_ok p fl" "set bs \<subseteq> insert (Blk 0) (real_blocks p)"
  shows "\<exists>q p'. touch bs p = Inr q \<and> pool_ok q (filter (\<lambda>b. b \<notin> set bs) fl) \<and> free_blocks bs q = Inr p' \<and>
    (\<exists>fl'. pool_ok p' fl' \<and> set fl' = set fl) \<and> (\<forall>b. ref_cnt (heap p' b) = ref_cnt (heap p b)) \<and> (\<forall>b. all_hashes b p' = all_hashes b p)"
proof -
  from touch_ok [OF assms] obtain q where q: "touch bs p = Inr q" "pool_ok q (filter (\<lambda>b. b \<notin> set bs) fl)" "pool_config q = pool_config p"
    "\<forall>b. ref_cnt (heap q b) = ref_cnt (heap p b) + int (count_list bs b)" "\<forall>b. all_hashes b q = all_hashes b p" by blast
  have rb: "real_blocks q = real_blocks p" using config_eqs(5) [OF q(3)] .
  have le: "int (count_list bs b) \<le> ref_cnt (heap q b)" if "b \<in> real_blocks q" for b
    using that q(4) pool_okD(7) [OF assms(1), of b] by (simp add: rb)
  from free_blocks_ok [OF q(2) assms(2) [folded rb] le] obtain p' fl' where
    p': "free_blocks bs q = Inr p'" "pool_config p' = pool_config q" "pool_ok p' fl'"
      "\<forall>b. ref_cnt (heap p' b) = ref_cnt (heap q b) - int (count_list bs b)" "\<forall>b. all_hashes b p' = all_hashes b q" by blast
  have ref: "ref_cnt (heap p' b) = ref_cnt (heap p b)" for b using p'(4) q(4) by simp
  have "set fl' = {b \<in> real_blocks p'. ref_cnt (heap p' b) = 0}" using pool_okD(5,8) [OF p'(3)] by auto
  moreover have "set fl = {b \<in> real_blocks p. ref_cnt (heap p b) = 0}" using pool_okD(5,8) [OF assms(1)] by auto
  ultimately have "set fl' = set fl" using ref rb config_eqs(5) [OF p'(2)] by simp
  then show ?thesis using q p' ref by auto
qed

theorem touch_then_free_witness:
  "\<exists>p q p'. demo_pool = Inr p \<and> touch [Blk 2, Blk 2] p = Inr q \<and> pool_ok q [Blk 1, Blk 3] \<and> free_blocks [Blk 2, Blk 2] q = Inr p'"
proof -
  obtain p where p: "demo_pool = Inr p" "pool_ok p [Blk 1, Blk 2, Blk 3]" "pool_config p = (4, True, 2, Blk 0, True, False)"
    using demo_pool_ok by blast
  have "set [Blk 2, Blk 2] \<subseteq> insert (Blk 0) (real_blocks p)" using p(3) by (simp add: pool_config_def real_blocks_def)
  from touch_then_free [OF p(2) this] obtain q p' where "touch [Blk 2, Blk 2] p = Inr q" "pool_ok q [Blk 1, Blk 3]"
    "free_blocks [Blk 2, Blk 2] q = Inr p'" by auto
  with p(1) show ?thesis by blast
qed

text \<open>
  C14. Resetting the prefix cache succeeds exactly when no block is referenced; then no block carries a hash, no lookup
  hits and the free list and reference counts are unchanged. When it fails the pool is unchanged.
\<close>

theorem reset_forgets_all:
  assumes "pool_ok p fl"
  shows "\<exists>q. reset_prefix_cache p = ((\<forall>b \<in> real_blocks p. ref_cnt (heap p b) = 0), q) \<and> pool_ok q fl \<and>
    (if \<forall>b \<in> real_blocks p. ref_cnt (heap p b) = 0
     then \<forall>h g. 0 \<le> g \<and> g < 2 ^ 32 \<longrightarrow> get_cached_block h [g] q = Inr None
     else q = p)"
proof -
  obtain fin q where r: "reset_prefix_cache p = (fin, q)" by fastforce
  note R = reset_ok [OF assms r]
  have "get_cached_block h [g] q = Inr None" if g: "fin" "0 \<le> g" "g < 2 ^ 32" for h g
  proof -
    have "\<not> holds_hash q h g b" for b using R(4) [OF g(1)] by (auto simp: holds_hash_def real_blocks_def)
    moreover obtain z where "get_cached_block h [g] q = Inr z"
      "case z of None \<Rightarrow> \<exists>g \<in> set [g]. \<forall>b. \<not> holds_hash q h g b | Some bs \<Rightarrow> list_all2 (holds_hash q h) [g] bs"
      using get_cached_block_ok [OF pool_okD(3) [OF R(1)], of "[g]" h] g by auto
    ultimately show ?thesis by (cases z) (auto simp: list_all2_Cons1)
  qed
  then show ?thesis using r R(1-3) by (cases "fin") auto
qed

theorem reset_forgets_all_witness:
  "\<exists>p q p' q'. demo_pool = Inr p \<and> reset_prefix_cache p = (True, p') \<and> get_cached_block [1] [0] p' = Inr None \<and>
    get_new_blocks 2 p = Inr ([Blk 1, Blk 2], q) \<and> reset_prefix_cache q = (False, q') \<and> q' = q"
proof -
  obtain p q where q: "get_new_blocks 2 p = Inr ([Blk 1, Blk 2], q)" "pool_ok q [Blk 3]" "pool_config q = (4, True, 2, Blk 0, True, False)"
    "\<forall>i. ref_cnt (heap q (Blk i)) = (if i = 1 \<or> i = 2 then 1 else 0)" "demo_pool = Inr p" using demo_pool_alloc by blast
  have p: "demo_pool = Inr p" "pool_ok p [Blk 1, Blk 2, Blk 3]" "\<forall>i. ref_cnt (heap p (Blk i)) = 0"
    using demo_pool_ok q(5) by (metis Inr_inject)+
  have z: "\<forall>b \<in> real_blocks p. ref_cnt (heap p b) = 0" using p(3) by (auto simp: real_blocks_def)
  have nz: "\<not> (\<forall>b \<in> real_blocks q. ref_cnt (heap q b) = 0)"
    using q(3,4) by (auto simp: pool_config_def real_blocks_def intro!: exI [of _ "Blk 1"])
  have "\<exists>p'. reset_prefix_cache p = (True, p') \<and> get_cached_block [1] [0] p' = Inr None"
    using reset_forgets_all [OF p(2)] z by auto
  moreover have "\<exists>q'. reset_prefix_cache q = (False, q') \<and> q' = q" using reset_forgets_all [OF q(2)] nz by simp
  ultimately show ?thesis using p(1) q(1) by blast
qed

end
