(* ===== verification/Heapq.thy ===== *)
theory Heapq
  imports Prelude "HOL-Library.Multiset"
begin

text \<open>
  Python's \<^verbatim>\<open>heapq\<close>: binary heaps in a list, over any comparison \<open>lt\<close> the elements define with
  \<^verbatim>\<open>__lt__\<close>. The locale fixes a strict weak order and shows that every operation keeps the heap
  shape and the elements.
\<close>

section \<open>Operations\<close>

function siftdown_loop :: "('a \<Rightarrow> 'a \<Rightarrow> bool) \<Rightarrow> 'a list \<Rightarrow> nat \<Rightarrow> nat \<Rightarrow> 'a \<Rightarrow> 'a list" where
  "siftdown_loop lt h startpos pos newitem =
     (if pos > startpos then
        (let parentpos = (pos - 1) div 2; parent = h ! parentpos in
         if lt newitem parent then siftdown_loop lt (h[pos := parent]) startpos parentpos newitem
         else h[pos := newitem])
      else h[pos := newitem])"
  by pat_completeness auto
termination by (relation "measure (\<lambda>(lt, h, s, pos, x). pos)") auto

declare siftdown_loop.simps [simp del]

definition siftdown :: "('a \<Rightarrow> 'a \<Rightarrow> bool) \<Rightarrow> 'a list \<Rightarrow> nat \<Rightarrow> nat \<Rightarrow> 'a list" where
  "siftdown lt h startpos pos = siftdown_loop lt h startpos pos (h ! pos)"

text \<open>The smaller child moves up until the hole is at a leaf.\<close>

definition smaller_child :: "('a \<Rightarrow> 'a \<Rightarrow> bool) \<Rightarrow> 'a list \<Rightarrow> nat \<Rightarrow> nat" where
  "smaller_child lt h pos =
     (let childpos = 2 * pos + 1; rightpos = childpos + 1
      in if rightpos < length h \<and> \<not> lt (h ! childpos) (h ! rightpos) then rightpos else childpos)"

lemma smaller_child_less: "2 * pos + 1 < length h \<Longrightarrow> smaller_child lt h pos < length h \<and> pos < smaller_child lt h pos"
  by (simp add: smaller_child_def Let_def)

lemma smaller_child_parent: "(smaller_child lt h pos - 1) div 2 = pos"
  by (simp add: smaller_child_def Let_def)

function siftup_loop :: "('a \<Rightarrow> 'a \<Rightarrow> bool) \<Rightarrow> 'a list \<Rightarrow> nat \<Rightarrow> 'a list \<times> nat" where
  "siftup_loop lt h pos =
     (if 2 * pos + 1 < length h
      then siftup_loop lt (h[pos := h ! smaller_child lt h pos]) (smaller_child lt h pos)
      else (h, pos))"
  by pat_completeness auto
termination by (relation "measure (\<lambda>(lt, h, pos). length h - pos)") (auto simp: smaller_child_def Let_def)

declare siftup_loop.simps [simp del]

definition siftup :: "('a \<Rightarrow> 'a \<Rightarrow> bool) \<Rightarrow> 'a list \<Rightarrow> nat \<Rightarrow> 'a list" where
  "siftup lt h pos =
     (let newitem = h ! pos
      in case siftup_loop lt h pos of (h', p) \<Rightarrow> siftdown lt (h'[p := newitem]) pos p)"

definition heappush :: "('a \<Rightarrow> 'a \<Rightarrow> bool) \<Rightarrow> 'a list \<Rightarrow> 'a \<Rightarrow> 'a list" where
  "heappush lt h x = siftdown lt (h @ [x]) 0 (length h)"

definition heappop :: "('a \<Rightarrow> 'a \<Rightarrow> bool) \<Rightarrow> 'a list \<Rightarrow> ('a \<times> 'a list) result" where
  "heappop lt h =
     (if h = [] then Inl IndexError
      else
        (let lastelt = last h; h1 = butlast h
         in if h1 \<noteq> [] then Inr (h1 ! 0, siftup lt (h1[0 := lastelt]) 0) else Inr (lastelt, h1)))"

definition heapify :: "('a \<Rightarrow> 'a \<Rightarrow> bool) \<Rightarrow> 'a list \<Rightarrow> 'a list" where
  "heapify lt x = fold (\<lambda>i h. siftup lt h i) (rev [0..<length x div 2]) x"

lemma length_siftdown_loop [simp]: "length (siftdown_loop lt h s pos x) = length h"
  by (induction lt h s pos x rule: siftdown_loop.induct) (subst siftdown_loop.simps, simp add: Let_def)

lemma length_siftdown [simp]: "length (siftdown lt h s pos) = length h"
  by (simp add: siftdown_def)

lemma length_siftup_loop [simp]: "length (fst (siftup_loop lt h pos)) = length h"
  by (induction lt h pos rule: siftup_loop.induct) (subst siftup_loop.simps, simp)

lemma length_siftup [simp]: "length (siftup lt h pos) = length h"
  using length_siftup_loop [of lt h pos] by (cases "siftup_loop lt h pos") (simp add: siftup_def Let_def)

lemma heappop_length: "heappop lt h = Inr (x, h') \<Longrightarrow> length h = Suc (length h')"
  by (cases h rule: rev_cases) (auto simp: heappop_def Let_def split: if_splits)


section \<open>Heap order\<close>

text \<open>No element is smaller than its parent, for the parents from \<open>s\<close> on.\<close>

definition heap_edge :: "('a \<Rightarrow> 'a \<Rightarrow> bool) \<Rightarrow> 'a list \<Rightarrow> nat \<Rightarrow> bool" where
  "heap_edge lt h i \<longleftrightarrow> \<not> lt (h ! i) (h ! ((i - 1) div 2))"

definition heap_from :: "('a \<Rightarrow> 'a \<Rightarrow> bool) \<Rightarrow> nat \<Rightarrow> 'a list \<Rightarrow> bool" where
  "heap_from lt s h \<longleftrightarrow> (\<forall>i. 0 < i \<and> i < length h \<and> s \<le> (i - 1) div 2 \<longrightarrow> heap_edge lt h i)"

abbreviation is_heap :: "('a \<Rightarrow> 'a \<Rightarrow> bool) \<Rightarrow> 'a list \<Rightarrow> bool" where
  "is_heap lt \<equiv> heap_from lt 0"

text \<open>
  The loops carry the item in a hole; \<open>h[pos := x]\<close> is the list with the item put back. \<open>hole_up\<close> holds
  while the hole rises: only the edge above the hole may be out of order. \<open>hole_down\<close> holds while it sinks:
  the edges at the hole may be. In both the hole's children are no smaller than its parent.
\<close>

function below :: "nat \<Rightarrow> nat \<Rightarrow> bool" where
  "below s i = (if s < i then below s ((i - 1) div 2) else i = s)"
  by pat_completeness auto
termination by (relation "measure snd") auto

declare below.simps [simp del]

lemma below_refl [simp]: "below s s" by (simp add: below.simps [of s s])

lemma below_zero [simp]: "below 0 i"
proof (induction i rule: less_induct)
  case (less i)
  then show ?case by (cases "i = 0") (simp_all add: below.simps [of 0 i])
qed

lemma below_le: "below s i \<Longrightarrow> s \<le> i"
  by (simp add: below.simps [of s i] split: if_splits)

lemma below_parent: "below s i \<Longrightarrow> s < i \<Longrightarrow> below s ((i - 1) div 2)"
  by (simp add: below.simps [of s i])

lemma below_child: "below s ((i - 1) div 2) \<Longrightarrow> 0 < i \<Longrightarrow> below s i"
  using below_le [of s "(i - 1) div 2"] by (auto simp: below.simps [of s i])

definition over_hole :: "('a \<Rightarrow> 'a \<Rightarrow> bool) \<Rightarrow> nat \<Rightarrow> 'a list \<Rightarrow> nat \<Rightarrow> bool" where
  "over_hole lt s h pos \<longleftrightarrow>
     below s pos \<and> (pos > s \<longrightarrow> (\<forall>d. 0 < d \<and> d < length h \<and> (d - 1) div 2 = pos \<longrightarrow> \<not> lt (h ! d) (h ! ((pos - 1) div 2))))"

definition hole_up :: "('a \<Rightarrow> 'a \<Rightarrow> bool) \<Rightarrow> nat \<Rightarrow> 'a list \<Rightarrow> nat \<Rightarrow> bool" where
  "hole_up lt s h pos \<longleftrightarrow> pos < length h \<and> over_hole lt s h pos \<and>
     (\<forall>i. 0 < i \<and> i < length h \<and> s \<le> (i - 1) div 2 \<and> i \<noteq> pos \<longrightarrow> heap_edge lt h i)"

definition hole_down :: "('a \<Rightarrow> 'a \<Rightarrow> bool) \<Rightarrow> nat \<Rightarrow> 'a list \<Rightarrow> nat \<Rightarrow> bool" where
  "hole_down lt s h pos \<longleftrightarrow> pos < length h \<and> over_hole lt s h pos \<and>
     (\<forall>i. 0 < i \<and> i < length h \<and> s \<le> (i - 1) div 2 \<and> i \<noteq> pos \<and> (i - 1) div 2 \<noteq> pos \<longrightarrow> heap_edge lt h i)"

lemma over_holeD:
  "over_hole lt s h pos \<Longrightarrow> s < pos \<Longrightarrow> 0 < d \<Longrightarrow> d < length h \<Longrightarrow> (d - 1) div 2 = pos \<Longrightarrow> \<not> lt (h ! d) (h ! ((pos - 1) div 2))"
  by (simp add: over_hole_def)

lemma mset_move_hole:
  "i < length h \<Longrightarrow> j < length h \<Longrightarrow> i \<noteq> j \<Longrightarrow> mset (h[i := h ! j, j := x]) = mset (h[i := x])"
  using mset_swap [of j "h[i := x]" i] by (simp add: list_update_swap)

lemma mset_siftdown_loop: "pos < length h \<Longrightarrow> mset (siftdown_loop lt h s pos x) = mset (h[pos := x])"
proof (induction lt h s pos x rule: siftdown_loop.induct)
  case (1 lt h s pos x)
  show ?case
  proof (cases "pos > s \<and> lt x (h ! ((pos - 1) div 2))")
    case True
    then have "(pos - 1) div 2 < pos" by auto
    with 1 True show ?thesis
      by (subst siftdown_loop.simps) (simp add: Let_def mset_move_hole)
  qed (subst siftdown_loop.simps, auto simp: Let_def)
qed

lemma siftup_loop_props:
  "pos < length h \<Longrightarrow> siftup_loop lt h pos = (h', p) \<Longrightarrow>
    p < length h \<and> pos \<le> p \<and> length h \<le> 2 * p + 1 \<and> mset (h'[p := x]) = mset (h[pos := x])"
proof (induction lt h pos arbitrary: h' p rule: siftup_loop.induct)
  case (1 lt h pos)
  show ?case
  proof (cases "2 * pos + 1 < length h")
    case True
    with 1(3) have "siftup_loop lt (h[pos := h ! smaller_child lt h pos]) (smaller_child lt h pos) = (h', p)"
      by (simp add: siftup_loop.simps [of lt h pos])
    with 1(1) [OF True, of h' p] smaller_child_less [OF True, of lt] show ?thesis
      using mset_move_hole [of pos h "smaller_child lt h pos" x] by simp
  next
    case False
    with 1(2,3) show ?thesis by (simp add: siftup_loop.simps [of lt h pos])
  qed
qed

lemma mset_siftdown [simp]: "pos < length h \<Longrightarrow> mset (siftdown lt h s pos) = mset h"
  by (simp add: siftdown_def mset_siftdown_loop)

lemma mset_siftup [simp]:
  assumes "pos < length h"
  shows "mset (siftup lt h pos) = mset h"
proof -
  obtain h' p where e: "siftup_loop lt h pos = (h', p)" by fastforce
  have "length h' = length h" using length_siftup_loop [of lt h pos] e by simp
  with siftup_loop_props [OF assms e, of "h ! pos"] show ?thesis by (simp add: siftup_def e)
qed

lemma mset_heappush [simp]: "mset (heappush lt h x) = add_mset x (mset h)"
  by (simp add: heappush_def)

lemma mset_heappop: "heappop lt h = Inr (x, h') \<Longrightarrow> mset h = add_mset x (mset h')"
proof (cases h rule: rev_cases)
  case (snoc ys y)
  assume "heappop lt h = Inr (x, h')"
  with snoc show ?thesis by (cases ys) (auto simp: heappop_def Let_def)
qed (simp add: heappop_def)

lemma mset_siftups: "\<forall>i \<in> set is. i < length h \<Longrightarrow> mset (fold (\<lambda>i h. siftup lt h i) is h) = mset h"
  by (induction "is" arbitrary: h) auto

lemma mset_heapify [simp]: "mset (heapify lt h) = mset h"
  unfolding heapify_def by (rule mset_siftups) auto

locale weak_order =
  fixes lt :: "'a \<Rightarrow> 'a \<Rightarrow> bool"
  assumes asym: "lt x y \<Longrightarrow> \<not> lt y x"
    and neg_trans: "\<not> lt y x \<Longrightarrow> \<not> lt z y \<Longrightarrow> \<not> lt z x"
begin

lemma hole_up_step:
  assumes inv: "hole_up lt s (h[pos := x]) pos" and lt: "lt x (h ! ((pos - 1) div 2))" and pos: "s < pos"
  shows "hole_up lt s (h[pos := h ! ((pos - 1) div 2), (pos - 1) div 2 := x]) ((pos - 1) div 2)"
proof -
  define p where "p = (pos - 1) div 2"
  define H where "H = h[pos := x]"
  define H' where "H' = h[pos := h ! p, p := x]"
  have p: "p < pos" and len: "pos < length h" "length H = length h" "length H' = length h" and bp: "below s pos"
    using pos inv by (auto simp: p_def hole_up_def over_hole_def H_def H'_def)
  have sp: "below s p" "s \<le> p" using below_parent [OF bp pos] below_le by (auto simp: p_def)
  have nth: "H ! pos = x" "H ! p = h ! p" "H' ! pos = h ! p" "H' ! p = x" "\<And>i. i \<noteq> pos \<Longrightarrow> i \<noteq> p \<Longrightarrow> H' ! i = H ! i"
    using p len by (auto simp: H_def H'_def)
  have edge: "\<not> lt (H ! i) (H ! ((i - 1) div 2))" if "0 < i" "i < length h" "s \<le> (i - 1) div 2" "i \<noteq> pos" for i
    using inv that by (simp add: hole_up_def heap_edge_def H_def)
  have over: "\<not> lt (H ! d) (h ! p)" if "0 < d" "d < length h" "(d - 1) div 2 = pos" for d
  proof -
    have "\<not> lt (H ! d) (H ! p)" using over_holeD [of lt s H pos d] inv that pos len by (simp add: hole_up_def H_def p_def)
    then show ?thesis using nth by simp
  qed
  have "heap_edge lt H' i" if i: "0 < i" "i < length h" "s \<le> (i - 1) div 2" "i \<noteq> p" for i
  proof -
    consider "i = pos" | "i \<noteq> pos" "(i - 1) div 2 = p" | "(i - 1) div 2 = pos" "i \<noteq> pos"
      | "i \<noteq> pos" "(i - 1) div 2 \<noteq> p" "(i - 1) div 2 \<noteq> pos" by blast
    then show ?thesis
    proof cases
      case 1
      then show ?thesis using nth lt asym by (simp add: heap_edge_def p_def)
    next
      case 2
      then have "\<not> lt (H ! i) (h ! p)" using edge [OF i(1-3)] nth by simp
      then show ?thesis using neg_trans [OF asym [OF lt [folded p_def]]] 2 i nth by (simp add: heap_edge_def)
    next
      case 3
      then show ?thesis using over [OF i(1,2)] i nth by (simp add: heap_edge_def)
    next
      case 4
      then show ?thesis using edge [OF i(1-3)] i nth by (simp add: heap_edge_def)
    qed
  qed
  moreover have "\<not> lt (H' ! d) (H' ! ((p - 1) div 2))"
    if p': "p > s" and d: "0 < d" "d < length h" "(d - 1) div 2 = p" for d
  proof -
    have "s \<le> (p - 1) div 2" using below_le [OF below_parent [OF sp(1) p']] .
    then have up: "\<not> lt (h ! p) (H ! ((p - 1) div 2))" using edge [of p] p' p len nth by auto
    have pp: "H' ! ((p - 1) div 2) = H ! ((p - 1) div 2)" using p' p by (intro nth) auto
    show ?thesis
    proof (cases "d = pos")
      case False
      then have "\<not> lt (H ! d) (h ! p)" using edge [of d] d sp nth by auto
      then have "\<not> lt (H ! d) (H ! ((p - 1) div 2))" by (rule neg_trans [OF up])
      moreover have "H' ! d = H ! d" using False d p' by (intro nth) auto
      ultimately show ?thesis using pp by simp
    qed (use up pp nth in simp)
  qed
  ultimately have "hole_up lt s H' p" using p len sp by (auto simp: hole_up_def over_hole_def)
  then show ?thesis by (simp add: H'_def p_def)
qed

lemma siftdown_loop_heap: "hole_up lt s (h[pos := x]) pos \<Longrightarrow> heap_from lt s (siftdown_loop lt h s pos x)"
proof (induction pos arbitrary: h rule: less_induct)
  case (less pos)
  define p where "p = (pos - 1) div 2"
  show ?case
  proof (cases "s < pos \<and> lt x (h ! p)")
    case True
    then have "siftdown_loop lt h s pos x = siftdown_loop lt (h[pos := h ! p]) s p x"
      by (simp add: siftdown_loop.simps [of lt h s pos x] p_def Let_def)
    moreover have "hole_up lt s (h[pos := h ! p, p := x]) p"
      using hole_up_step [OF less.prems] True by (simp add: p_def)
    moreover have "p < pos" using True by (auto simp: p_def)
    ultimately show ?thesis using less.IH by simp
  next
    case False
    then have e: "siftdown_loop lt h s pos x = h[pos := x]"
      by (auto simp: siftdown_loop.simps [of lt h s pos x] p_def Let_def)
    have "heap_edge lt (h[pos := x]) pos" if "0 < pos" "s \<le> p"
    proof -
      have "p < pos" using that by (auto simp: p_def)
      then show ?thesis using False that less.prems by (simp add: heap_edge_def hole_up_def p_def)
    qed
    then show ?thesis using less.prems unfolding e heap_from_def hole_up_def p_def by metis
  qed
qed

lemma hole_down_step:
  assumes inv: "hole_down lt s (h[pos := x]) pos" and c: "2 * pos + 1 < length h"
  shows "hole_down lt s (h[pos := h ! smaller_child lt h pos, smaller_child lt h pos := x]) (smaller_child lt h pos)"
proof -
  define c where "c = smaller_child lt h pos"
  define H where "H = h[pos := x]"
  define H' where "H' = h[pos := h ! c, c := x]"
  have cp: "(c - 1) div 2 = pos" and cl: "c < length h" "pos < c" and bp: "below s pos" and len: "pos < length h" "length H' = length h"
    using smaller_child_parent [of lt h pos] smaller_child_less [OF assms(2), of lt] inv
    by (auto simp: c_def hole_down_def over_hole_def H'_def)
  have bc: "below s c" using below_child [of s c] bp cp cl by simp
  have sp: "s \<le> pos" using below_le [OF bp] .
  have nth: "H ! c = h ! c" "H' ! pos = h ! c" "H' ! c = x" "\<And>i. i \<noteq> pos \<Longrightarrow> i \<noteq> c \<Longrightarrow> H' ! i = H ! i"
    using cl len by (auto simp: H_def H'_def)
  have edge: "\<not> lt (H ! i) (H ! ((i - 1) div 2))" if "0 < i" "i < length h" "s \<le> (i - 1) div 2" "i \<noteq> pos" "(i - 1) div 2 \<noteq> pos" for i
    using inv that by (simp add: hole_down_def heap_edge_def H_def)
  have sib: "\<not> lt (H ! i) (h ! c)" if "0 < i" "i < length h" "(i - 1) div 2 = pos" for i
  proof -
    have "i = 2 * pos + 1 \<or> i = 2 * pos + 2" using that by linarith
    then show ?thesis using that asym [of "h ! i" "h ! c"] asym [of "h ! i" "h ! i"] assms(2) len
      by (auto simp: c_def H_def smaller_child_def Let_def split: if_splits)
  qed
  have "heap_edge lt H' i" if i: "0 < i" "i < length h" "s \<le> (i - 1) div 2" "i \<noteq> c" "(i - 1) div 2 \<noteq> c" for i
  proof (cases "i = pos")
    case True
    have "s < pos" using i True by linarith
    then have "\<not> lt (H ! c) (H ! ((pos - 1) div 2))"
      using over_holeD [of lt s H pos c] inv cl cp by (simp add: hole_down_def H_def)
    then show ?thesis using True i nth by (simp add: heap_edge_def)
  next
    case False
    then show ?thesis using edge [OF i(1-3)] sib [OF i(1,2)] i nth
      by (cases "(i - 1) div 2 = pos") (simp_all add: heap_edge_def)
  qed
  moreover have "\<not> lt (H' ! d) (H' ! ((c - 1) div 2))" if d: "0 < d" "d < length h" "(d - 1) div 2 = c" for d
  proof -
    have "\<not> lt (H ! d) (H ! c)" using edge [of d] d cl sp by auto
    moreover have "H' ! d = H ! d" using d cl by (intro nth) auto
    ultimately show ?thesis using nth cp by simp
  qed
  ultimately have "hole_down lt s H' c" using len cl bc by (auto simp: hole_down_def over_hole_def)
  then show ?thesis by (simp add: H'_def c_def)
qed

lemma siftup_loop_hole:
  "hole_down lt s (h[pos := x]) pos \<Longrightarrow> siftup_loop lt h pos = (h', p) \<Longrightarrow> hole_down lt s (h'[p := x]) p"
proof (induction "length h - pos" arbitrary: h pos rule: less_induct)
  case less
  show ?case
  proof (cases "2 * pos + 1 < length h")
    case True
    define c where "c = smaller_child lt h pos"
    have "hole_down lt s (h[pos := h ! c, c := x]) c" using hole_down_step [OF less.prems(1) True] by (simp add: c_def)
    moreover have "siftup_loop lt (h[pos := h ! c]) c = (h', p)"
      using less.prems(2) True by (simp add: siftup_loop.simps [of lt h pos] c_def)
    moreover have "length (h[pos := h ! c]) - c < length h - pos"
      using smaller_child_less [OF True, of lt] by (auto simp: c_def)
    ultimately show ?thesis by (rule less.hyps [rotated])
  next
    case False
    with less.prems show ?thesis by (simp add: siftup_loop.simps [of lt h pos])
  qed
qed

lemma siftup_heap:
  assumes "heap_from lt (Suc s) h" "s < length h"
  shows "heap_from lt s (siftup lt h s)"
proof -
  obtain h' p where e: "siftup_loop lt h s = (h', p)" by fastforce
  have len: "length h' = length h" using length_siftup_loop [of lt h s] e by simp
  note props = siftup_loop_props [OF assms(2) e, of "h ! s"]
  have "hole_down lt s (h[s := h ! s]) s"
    using assms by (auto simp: hole_down_def over_hole_def heap_from_def)
  from siftup_loop_hole [OF this e] have d: "hole_down lt s (h'[p := h ! s]) p" .
  have "hole_up lt s (h'[p := h ! s]) p" unfolding hole_up_def
  proof (intro conjI allI impI)
    fix i assume i: "0 < i \<and> i < length (h'[p := h ! s]) \<and> s \<le> (i - 1) div 2 \<and> i \<noteq> p"
    then have "(i - 1) div 2 \<noteq> p" using props len by auto
    with i d show "heap_edge lt (h'[p := h ! s]) i" by (simp add: hole_down_def)
  qed (use d in \<open>simp_all add: hole_down_def\<close>)
  then show ?thesis
    using siftdown_loop_heap [of s "h'[p := h ! s]" p "h ! s"] props len by (simp add: siftup_def e siftdown_def Let_def)
qed

lemma heappush_heap:
  assumes "is_heap lt h"
  shows "is_heap lt (heappush lt h x)"
proof -
  have "(d - 1) div 2 < length h" if "0 < d" "d < Suc (length h)" for d using that by linarith
  then have "over_hole lt 0 (h @ [x]) (length h)" by (fastforce simp: over_hole_def)
  moreover have "heap_edge lt (h @ [x]) i" if "0 < i" "i < length h" for i
    using assms that \<open>\<And>d. 0 < d \<Longrightarrow> d < Suc (length h) \<Longrightarrow> (d - 1) div 2 < length h\<close> [of i]
    by (simp add: heap_from_def heap_edge_def nth_append)
  ultimately have "hole_up lt 0 ((h @ [x])[length h := x]) (length h)" by (auto simp: hole_up_def)
  from siftdown_loop_heap [OF this] show ?thesis by (simp add: heappush_def siftdown_def)
qed

lemma heappop_heap:
  assumes "is_heap lt h" "heappop lt h = Inr (x, h')"
  shows "is_heap lt h'"
proof (cases h rule: rev_cases)
  case (snoc ys y)
  show ?thesis
  proof (cases "ys = []")
    case False
    have "heap_from lt (Suc 0) (ys[0 := y])"
      unfolding heap_from_def
    proof (intro allI impI)
      fix i assume i: "0 < i \<and> i < length (ys[0 := y]) \<and> Suc 0 \<le> (i - 1) div 2"
      then have "(i - 1) div 2 < length ys" "0 < (i - 1) div 2" by auto
      moreover have "heap_edge lt h i" using assms(1) i by (simp add: heap_from_def snoc)
      ultimately show "heap_edge lt (ys[0 := y]) i" using i by (simp add: snoc heap_edge_def nth_append)
    qed
    from siftup_heap [OF this] show ?thesis using False assms(2) snoc by (auto simp: heappop_def Let_def)
  qed (use assms snoc in \<open>auto simp: heappop_def Let_def heap_from_def\<close>)
qed (use assms in \<open>simp add: heappop_def\<close>)

lemma siftups_heap: "n \<le> length h \<Longrightarrow> heap_from lt n h \<Longrightarrow> is_heap lt (fold (\<lambda>i h. siftup lt h i) (rev [0..<n]) h)"
  by (induction n arbitrary: h) (simp_all add: siftup_heap)

lemma heapify_heap: "is_heap lt (heapify lt h)"
proof -
  have "heap_from lt (length h div 2) h" by (auto simp: heap_from_def)
  then show ?thesis unfolding heapify_def by (rule siftups_heap [rotated]) simp
qed

lemma heap_root_least: "is_heap lt h \<Longrightarrow> i < length h \<Longrightarrow> \<not> lt (h ! i) (h ! 0)"
proof (induction i rule: less_induct)
  case (less i)
  show ?case
  proof (cases "i = 0")
    case False
    then have "\<not> lt (h ! ((i - 1) div 2)) (h ! 0)" using less by simp
    moreover have "\<not> lt (h ! i) (h ! ((i - 1) div 2))" using less.prems False by (simp add: heap_from_def heap_edge_def)
    ultimately show ?thesis by (rule neg_trans)
  qed (use asym in blast)
qed

lemma heappop_least: "is_heap lt h \<Longrightarrow> heappop lt h = Inr (x, h') \<Longrightarrow> y \<in> set h \<Longrightarrow> \<not> lt y x"
proof -
  assume h: "is_heap lt h" and p: "heappop lt h = Inr (x, h')" and y: "y \<in> set h"
  have "x = h ! 0" using p by (cases h rule: rev_cases) (auto simp: heappop_def Let_def nth_append split: if_splits)
  with heap_root_least [OF h] y show ?thesis by (auto simp: in_set_conv_nth)
qed

end

end
