(* ===== verification/Request_Queue.thy ===== *)
theory Request_Queue
  imports Heapq Request_Model "HOL-Library.Product_Lexorder" "HOL-Library.List_Lexorder" "HOL-Library.Char_ord"
begin

text \<open>
  The waiting queues of \<^verbatim>\<open>vllm/v1/core/sched/request_queue.py\<close>: first come first served over a deque and
  priority order over a \<^verbatim>\<open>heapq\<close>. Requests are objects: \<^verbatim>\<open>==\<close>, \<^verbatim>\<open>in\<close> and \<^verbatim>\<open>remove\<close> compare
  identities, which the model has as \<open>py_id\<close>.
\<close>

section \<open>Order of requests\<close>

definition request_lt :: "request \<Rightarrow> request \<Rightarrow> bool" where
  "request_lt r other =
     (if priority r \<noteq> priority other then priority r < priority other
      else if arrival_time r \<noteq> arrival_time other then arrival_time r < arrival_time other
      else if request_id r \<noteq> request_id other then request_id r < request_id other
      else py_id r < py_id other)"

text \<open>The key the comparison orders by, lexicographically.\<close>

definition request_key :: "request \<Rightarrow> int \<times> int \<times> string \<times> nat" where
  "request_key r = (priority r, arrival_time r, request_id r, py_id r)"

lemma request_lt_key: "request_lt r s \<longleftrightarrow> request_key r < request_key s"
  by (auto simp: request_lt_def request_key_def less_prod_def)

interpretation rq: weak_order request_lt
  by unfold_locales (auto simp: request_lt_key)


section \<open>Python's deque and list operations\<close>

text \<open>\<^verbatim>\<open>xs.remove(x)\<close>: the first element that is the object goes, otherwise \<^verbatim>\<open>ValueError\<close>.\<close>

fun remove_object :: "request \<Rightarrow> request list \<Rightarrow> request list result" where
  "remove_object x [] = Inl ValueError"
| "remove_object x (y # ys) = (if py_id y = py_id x then Inr ys else ebind (remove_object x ys) (\<lambda>zs. Inr (y # zs)))"

definition in_objects :: "request \<Rightarrow> request list \<Rightarrow> bool" where
  "in_objects x ys = list_ex (\<lambda>y. py_id y = py_id x) ys"


section \<open>First come, first served\<close>

definition fcfs_add_request :: "request \<Rightarrow> request list \<Rightarrow> request list" where
  "fcfs_add_request r q = q @ [r]"

definition fcfs_pop_request :: "request list \<Rightarrow> (request \<times> request list) result" where
  "fcfs_pop_request q = (case q of [] \<Rightarrow> Inl IndexError | r # rs \<Rightarrow> Inr (r, rs))"

definition fcfs_peek_request :: "request list \<Rightarrow> request result" where
  "fcfs_peek_request q = (if q = [] then Inl IndexError else Inr (q ! 0))"

definition fcfs_prepend_request :: "request \<Rightarrow> request list \<Rightarrow> request list" where
  "fcfs_prepend_request r q = r # q"

definition fcfs_prepend_requests :: "request list \<Rightarrow> request list \<Rightarrow> request list" where
  "fcfs_prepend_requests requests q = fold (\<lambda>r q. r # q) requests q"

definition fcfs_remove_request :: "request \<Rightarrow> request list \<Rightarrow> request list result" where
  "fcfs_remove_request r q = remove_object r q"

definition fcfs_remove_requests :: "request list \<Rightarrow> request list \<Rightarrow> request list" where
  "fcfs_remove_requests requests q = filter (\<lambda>req. \<not> in_objects req requests) q"


section \<open>Priority\<close>

definition prio_add_request :: "request \<Rightarrow> request list \<Rightarrow> request list" where
  "prio_add_request r hp = heappush request_lt hp r"

definition prio_pop_request :: "request list \<Rightarrow> (request \<times> request list) result" where
  "prio_pop_request hp = (if hp = [] then Inl IndexError else heappop request_lt hp)"

definition prio_peek_request :: "request list \<Rightarrow> request result" where
  "prio_peek_request hp = (if hp = [] then Inl IndexError else Inr (hp ! 0))"

definition prio_prepend_request :: "request \<Rightarrow> request list \<Rightarrow> request list" where
  "prio_prepend_request r hp = prio_add_request r hp"

definition prio_prepend_requests :: "request list \<Rightarrow> request list \<Rightarrow> request list" where
  "prio_prepend_requests requests hp = fold prio_add_request requests hp"

definition prio_remove_request :: "request \<Rightarrow> request list \<Rightarrow> request list result" where
  "prio_remove_request r hp = ebind (remove_object r hp) (\<lambda>hp'. Inr (heapify request_lt hp'))"

definition prio_remove_requests :: "request list \<Rightarrow> request list \<Rightarrow> request list" where
  "prio_remove_requests requests hp = heapify request_lt (filter (\<lambda>r. \<not> in_objects r requests) hp)"

text \<open>Iteration pops a copy of the heap until it is empty.\<close>

function prio_iter :: "request list \<Rightarrow> request list" where
  "prio_iter hp = (case heappop request_lt hp of Inl _ \<Rightarrow> [] | Inr (r, hp') \<Rightarrow> r # prio_iter hp')"
  by pat_completeness auto
termination by (relation "measure length") (auto dest: heappop_length)

declare prio_iter.simps [simp del]


section \<open>Dispatch on the policy\<close>

datatype scheduling_policy = FCFS | PRIORITY

datatype request_queue = FCFSQueue "request list" | PriorityQueue "request list"

fun create_request_queue :: "scheduling_policy \<Rightarrow> request_queue" where
  "create_request_queue PRIORITY = PriorityQueue []"
| "create_request_queue FCFS = FCFSQueue []"

fun add_request :: "request \<Rightarrow> request_queue \<Rightarrow> request_queue" where
  "add_request r (FCFSQueue q) = FCFSQueue (fcfs_add_request r q)"
| "add_request r (PriorityQueue h) = PriorityQueue (prio_add_request r h)"

fun pop_request :: "request_queue \<Rightarrow> (request \<times> request_queue) result" where
  "pop_request (FCFSQueue q) = ebind (fcfs_pop_request q) (\<lambda>(r, q'). Inr (r, FCFSQueue q'))"
| "pop_request (PriorityQueue h) = ebind (prio_pop_request h) (\<lambda>(r, h'). Inr (r, PriorityQueue h'))"

fun peek_request :: "request_queue \<Rightarrow> request result" where
  "peek_request (FCFSQueue q) = fcfs_peek_request q"
| "peek_request (PriorityQueue h) = prio_peek_request h"

fun prepend_request :: "request \<Rightarrow> request_queue \<Rightarrow> request_queue" where
  "prepend_request r (FCFSQueue q) = FCFSQueue (fcfs_prepend_request r q)"
| "prepend_request r (PriorityQueue h) = PriorityQueue (prio_prepend_request r h)"

fun queue_iter :: "request_queue \<Rightarrow> request list" where
  "queue_iter (FCFSQueue q) = q"
| "queue_iter (PriorityQueue h) = prio_iter h"

fun prepend_requests :: "request_queue \<Rightarrow> request_queue \<Rightarrow> request_queue" where
  "prepend_requests rs (FCFSQueue q) = FCFSQueue (fcfs_prepend_requests (queue_iter rs) q)"
| "prepend_requests rs (PriorityQueue h) = PriorityQueue (prio_prepend_requests (queue_iter rs) h)"

fun remove_request :: "request \<Rightarrow> request_queue \<Rightarrow> request_queue result" where
  "remove_request r (FCFSQueue q) = ebind (fcfs_remove_request r q) (\<lambda>q'. Inr (FCFSQueue q'))"
| "remove_request r (PriorityQueue h) = ebind (prio_remove_request r h) (\<lambda>h'. Inr (PriorityQueue h'))"

fun remove_requests :: "request list \<Rightarrow> request_queue \<Rightarrow> request_queue" where
  "remove_requests rs (FCFSQueue q) = FCFSQueue (fcfs_remove_requests rs q)"
| "remove_requests rs (PriorityQueue h) = PriorityQueue (prio_remove_requests rs h)"

fun queue_len :: "request_queue \<Rightarrow> int" where
  "queue_len (FCFSQueue q) = int (length q)"
| "queue_len (PriorityQueue h) = int (length h)"

definition queue_bool :: "request_queue \<Rightarrow> bool" where
  "queue_bool q \<longleftrightarrow> queue_len q > 0"



section \<open>What a queue promises\<close>

text \<open>
  \<open>rep q xs\<close>: the queue \<open>q\<close> will hand out the requests \<open>xs\<close> in this order. \<open>place\<close> and \<open>front\<close> say where the
  policy puts an added and a prepended request.
\<close>

locale waiting_queue =
  fixes rep :: "'q \<Rightarrow> request list \<Rightarrow> bool"
    and place front :: "request \<Rightarrow> request list \<Rightarrow> request list"
    and add prepend :: "request \<Rightarrow> 'q \<Rightarrow> 'q"
    and pop :: "'q \<Rightarrow> (request \<times> 'q) result"
    and peek :: "'q \<Rightarrow> request result"
    and remove_one :: "request \<Rightarrow> 'q \<Rightarrow> 'q result"
    and remove_many :: "request list \<Rightarrow> 'q \<Rightarrow> 'q"
    and iter :: "'q \<Rightarrow> request list"
  assumes rep_distinct: "rep q xs \<Longrightarrow> distinct (map py_id xs)"
    and place_ids: "set (map py_id (place r xs)) = insert (py_id r) (set (map py_id xs))"
    and front_ids: "set (map py_id (front r xs)) = insert (py_id r) (set (map py_id xs))"
    and add_law: "rep q xs \<Longrightarrow> py_id r \<notin> set (map py_id xs) \<Longrightarrow> rep (add r q) (place r xs)"
    and prepend_law: "rep q xs \<Longrightarrow> py_id r \<notin> set (map py_id xs) \<Longrightarrow> rep (prepend r q) (front r xs)"
    and pop_empty: "rep q [] \<Longrightarrow> pop q = Inl IndexError"
    and pop_law: "rep q (r # xs) \<Longrightarrow> \<exists>q'. pop q = Inr (r, q') \<and> rep q' xs"
    and peek_empty: "rep q [] \<Longrightarrow> peek q = Inl IndexError"
    and peek_law: "rep q (r # xs) \<Longrightarrow> peek q = Inr r"
    and remove_absent: "rep q xs \<Longrightarrow> py_id r \<notin> set (map py_id xs) \<Longrightarrow> remove_one r q = Inl ValueError"
    and remove_law: "rep q xs \<Longrightarrow> py_id r \<in> set (map py_id xs) \<Longrightarrow>
      \<exists>q'. remove_one r q = Inr q' \<and> rep q' (filter (\<lambda>x. py_id x \<noteq> py_id r) xs)"
    and remove_many_law: "rep q xs \<Longrightarrow> rep (remove_many rs q) (filter (\<lambda>x. \<not> in_objects x rs) xs)"
    and iter_law: "rep q xs \<Longrightarrow> iter q = xs"
begin

text \<open>Popping as often as the queue has requests hands out what iteration shows.\<close>

primrec pop_n :: "nat \<Rightarrow> 'q \<Rightarrow> (request list \<times> 'q) result" where
  "pop_n 0 q = Inr ([], q)"
| "pop_n (Suc n) q = ebind (pop q) (\<lambda>(r, q1). ebind (pop_n n q1) (\<lambda>(rs, q2). Inr (r # rs, q2)))"

lemma pop_n_ok: "rep q xs \<Longrightarrow> n \<le> length xs \<Longrightarrow> \<exists>q'. pop_n n q = Inr (take n xs, q') \<and> rep q' (drop n xs)"
proof (induction n arbitrary: q xs)
  case (Suc n)
  then obtain r rs where xs: "xs = r # rs" by (cases xs) auto
  from Suc.prems pop_law obtain q1 where q1: "pop q = Inr (r, q1)" "rep q1 rs" unfolding xs by blast
  from Suc.IH [OF q1(2)] Suc.prems xs obtain q' where "pop_n n q1 = Inr (take n rs, q')" "rep q' (drop n rs)" by auto
  with q1 xs show ?case by simp
qed simp

lemma drain_is_iter: "rep q xs \<Longrightarrow> \<exists>q'. pop_n (length (iter q)) q = Inr (iter q, q') \<and> rep q' []"
  using pop_n_ok [of q xs "length xs"] iter_law [of q xs] by simp

lemma add_many: 
  "rep q xs \<Longrightarrow> distinct (map py_id rs) \<Longrightarrow> set (map py_id rs) \<inter> set (map py_id xs) = {} \<Longrightarrow> rep (fold add rs q) (fold place rs xs)"
proof (induction rs arbitrary: q xs)
  case (Cons r rs)
  then have "rep (add r q) (place r xs)" by (intro add_law) auto
  moreover have "set (map py_id rs) \<inter> set (map py_id (place r xs)) = {}" using Cons.prems unfolding place_ids by auto
  ultimately show ?case using Cons by simp
qed simp

lemma prepend_many:
  "rep q xs \<Longrightarrow> distinct (map py_id rs) \<Longrightarrow> set (map py_id rs) \<inter> set (map py_id xs) = {} \<Longrightarrow> rep (fold prepend rs q) (fold front rs xs)"
proof (induction rs arbitrary: q xs)
  case (Cons r rs)
  then have "rep (prepend r q) (front r xs)" by (intro prepend_law) auto
  moreover have "set (map py_id rs) \<inter> set (map py_id (front r xs)) = {}" using Cons.prems unfolding front_ids by auto
  ultimately show ?case using Cons by simp
qed simp

end

lemma remove_object_ok:
  "distinct (map py_id xs) \<Longrightarrow> remove_object r xs =
    (if py_id r \<in> set (map py_id xs) then Inr (filter (\<lambda>x. py_id x \<noteq> py_id r) xs) else Inl ValueError)"
proof (induction xs)
  case (Cons x xs)
  have "filter (\<lambda>y. py_id y \<noteq> py_id x) xs = xs" using Cons.prems by (auto simp: filter_id_conv image_iff)
  with Cons show ?case by auto
qed simp

definition fcfs_rep :: "request list \<Rightarrow> request list \<Rightarrow> bool" where
  "fcfs_rep q xs \<longleftrightarrow> xs = q \<and> distinct (map py_id q)"

interpretation fcfs: waiting_queue fcfs_rep "\<lambda>r xs. xs @ [r]" Cons fcfs_add_request fcfs_prepend_request
    fcfs_pop_request fcfs_peek_request fcfs_remove_request fcfs_remove_requests id
  by unfold_locales
    (auto simp: fcfs_rep_def fcfs_add_request_def fcfs_prepend_request_def fcfs_pop_request_def fcfs_peek_request_def
       fcfs_remove_request_def fcfs_remove_requests_def remove_object_ok distinct_map_filter)

definition prio_rep :: "request list \<Rightarrow> request list \<Rightarrow> bool" where
  "prio_rep h xs \<longleftrightarrow> is_heap request_lt h \<and> distinct (map py_id xs) \<and> sorted (map request_key xs) \<and> mset xs = mset h"

lemma request_key_inj: "distinct (map py_id xs) \<Longrightarrow> inj_on request_key (set xs)"
  by (auto simp: distinct_map inj_on_def request_key_def)

lemma distinct_ids_mset: "mset xs = mset ys \<Longrightarrow> distinct (map py_id xs) = distinct (map py_id ys)"
  by (metis mset_eq_imp_distinct_iff mset_map)

lemma prio_rep_pop:
  assumes "prio_rep h (r # xs)"
  shows "\<exists>h'. heappop request_lt h = Inr (r, h') \<and> prio_rep h' xs"
proof -
  have h: "is_heap request_lt h" "mset h = add_mset r (mset xs)" "sorted (map request_key (r # xs))" "distinct (map py_id (r # xs))"
    using assms by (auto simp: prio_rep_def)
  then have "h \<noteq> []" by auto
  then obtain x h' where p: "heappop request_lt h = Inr (x, h')"
    by (cases "butlast h = []") (auto simp: heappop_def Let_def)
  note m = mset_heappop [OF p]
  have mem: "r \<in> set h" "x \<in> set (r # xs)" using m h(2) by (metis mset_eq_setD set_mset_mset union_single_eq_member mset.simps(2))+
  then have "request_key x \<le> request_key r" using rq.heappop_least [OF h(1) p] by (simp add: request_lt_key not_less)
  moreover have "request_key r \<le> request_key x" using h(3) mem(2) by auto
  ultimately have "x = r" using request_key_inj [OF h(4)] mem(2) by (simp add: inj_on_def) (metis antisym)
  then show ?thesis using p m h rq.heappop_heap [OF h(1) p] by (simp add: prio_rep_def)
qed

lemma prio_rep_iter: "prio_rep h xs \<Longrightarrow> prio_iter h = xs"
proof (induction xs arbitrary: h)
  case Nil
  then have "h = []" by (simp add: prio_rep_def)
  then show ?case by (simp add: prio_iter.simps [of "[]"] heappop_def)
next
  case (Cons r xs)
  from prio_rep_pop [OF Cons.prems] Cons.IH show ?case by (auto simp: prio_iter.simps [of h])
qed

lemma prio_rep_add:
  assumes "prio_rep h xs" "py_id r \<notin> set (map py_id xs)"
  shows "prio_rep (prio_add_request r h) (insort_key request_key r xs)"
proof -
  have "distinct (map py_id (r # xs))" using assms by (auto simp: prio_rep_def)
  then have "distinct (map py_id (insort_key request_key r xs))"
    using distinct_ids_mset [of "insort_key request_key r xs" "r # xs"] by simp
  then show ?thesis
    using assms rq.heappush_heap by (simp add: prio_rep_def prio_add_request_def sorted_insort_key)
qed

lemma prio_rep_heapify:
  assumes "prio_rep h xs"
  shows "prio_rep (heapify request_lt (filter P h)) (filter P xs)"
  using assms rq.heapify_heap by (auto simp: prio_rep_def distinct_map_filter sorted_filter)

lemma prio_rep_remove:
  assumes "prio_rep h xs"
  shows "prio_remove_request r h = (if py_id r \<in> set (map py_id xs)
    then Inr (heapify request_lt (filter (\<lambda>x. py_id x \<noteq> py_id r) h)) else Inl ValueError)"
proof -
  have "distinct (map py_id h)" "set h = set xs" using assms distinct_ids_mset [of xs h] by (auto simp: prio_rep_def dest: mset_eq_setD)
  then show ?thesis by (simp add: prio_remove_request_def remove_object_ok)
qed

interpretation prio: waiting_queue prio_rep "insort_key request_key" "insort_key request_key" prio_add_request prio_prepend_request
    prio_pop_request prio_peek_request prio_remove_request prio_remove_requests prio_iter
proof unfold_locales
  fix h xs r rs
  show "prio_rep h xs \<Longrightarrow> distinct (map py_id xs)" by (simp add: prio_rep_def)
  show "set (map py_id (insort_key request_key r xs)) = insert (py_id r) (set (map py_id xs))" by (simp add: set_insort_key)
  show "prio_rep (prio_add_request r h) (insort_key request_key r xs)" if "prio_rep h xs" "py_id r \<notin> set (map py_id xs)"
    using prio_rep_add [OF that] .
  then show "prio_rep (prio_prepend_request r h) (insort_key request_key r xs)" if "prio_rep h xs" "py_id r \<notin> set (map py_id xs)"
    using that by (simp add: prio_prepend_request_def)
  show "prio_rep h [] \<Longrightarrow> prio_pop_request h = Inl IndexError" "prio_rep h [] \<Longrightarrow> prio_peek_request h = Inl IndexError"
    by (simp_all add: prio_rep_def prio_pop_request_def prio_peek_request_def)
  show "\<exists>h'. prio_pop_request h = Inr (r, h') \<and> prio_rep h' xs" if "prio_rep h (r # xs)"
    using prio_rep_pop [OF that] by (auto simp: prio_pop_request_def heappop_def)
  show "prio_peek_request h = Inr r" if "prio_rep h (r # xs)"
    using prio_rep_pop [OF that]
    by (cases h rule: rev_cases) (auto simp: prio_peek_request_def heappop_def Let_def nth_append split: if_splits)
  show "prio_rep h xs \<Longrightarrow> py_id r \<notin> set (map py_id xs) \<Longrightarrow> prio_remove_request r h = Inl ValueError"
    by (simp only: prio_rep_remove if_False)
  show "prio_rep h xs \<Longrightarrow> py_id r \<in> set (map py_id xs) \<Longrightarrow>
      \<exists>h'. prio_remove_request r h = Inr h' \<and> prio_rep h' (filter (\<lambda>x. py_id x \<noteq> py_id r) xs)"
    using prio_rep_heapify by (simp only: prio_rep_remove if_True) blast
  show "prio_rep h xs \<Longrightarrow> prio_rep (prio_remove_requests rs h) (filter (\<lambda>x. \<not> in_objects x rs) xs)"
    by (simp add: prio_remove_requests_def prio_rep_heapify)
  show "prio_rep h xs \<Longrightarrow> prio_iter h = xs" by (rule prio_rep_iter)
qed


section \<open>Sequences of calls\<close>

datatype rq_call =
    Add request | Pop | Peek | Prepend request | PrependAll request_queue | Remove request | RemoveAll "request list" | Iter | Len

datatype rq_out = Done | OneRequest request | Requests "request list" | Size int

text \<open>A call and what it returns; one that raises leaves the queue as it was.\<close>

fun rq_exec :: "rq_call \<Rightarrow> request_queue \<Rightarrow> rq_out result \<times> request_queue" where
  "rq_exec (Add r) q = (Inr Done, add_request r q)"
| "rq_exec Pop q = (case pop_request q of Inl e \<Rightarrow> (Inl e, q) | Inr (r, q') \<Rightarrow> (Inr (OneRequest r), q'))"
| "rq_exec Peek q = (ebind (peek_request q) (\<lambda>r. Inr (OneRequest r)), q)"
| "rq_exec (Prepend r) q = (Inr Done, prepend_request r q)"
| "rq_exec (PrependAll rs) q = (Inr Done, prepend_requests rs q)"
| "rq_exec (Remove r) q = (case remove_request r q of Inl e \<Rightarrow> (Inl e, q) | Inr q' \<Rightarrow> (Inr Done, q'))"
| "rq_exec (RemoveAll rs) q = (Inr Done, remove_requests rs q)"
| "rq_exec Iter q = (Inr (Requests (queue_iter q)), q)"
| "rq_exec Len q = (Inr (Size (queue_len q)), q)"

text \<open>The same call on the list of waiting requests in the order they will be served.\<close>

fun place_by :: "scheduling_policy \<Rightarrow> request \<Rightarrow> request list \<Rightarrow> request list" where
  "place_by FCFS r xs = xs @ [r]"
| "place_by PRIORITY r xs = insort_key request_key r xs"

fun front_by :: "scheduling_policy \<Rightarrow> request \<Rightarrow> request list \<Rightarrow> request list" where
  "front_by FCFS r xs = r # xs"
| "front_by PRIORITY r xs = insort_key request_key r xs"

fun rq_spec :: "scheduling_policy \<Rightarrow> rq_call \<Rightarrow> request list \<Rightarrow> rq_out result \<times> request list" where
  "rq_spec pol (Add r) xs = (Inr Done, place_by pol r xs)"
| "rq_spec pol Pop xs = (case xs of [] \<Rightarrow> (Inl IndexError, []) | r # rs \<Rightarrow> (Inr (OneRequest r), rs))"
| "rq_spec pol Peek xs = (case xs of [] \<Rightarrow> (Inl IndexError, []) | r # rs \<Rightarrow> (Inr (OneRequest r), xs))"
| "rq_spec pol (Prepend r) xs = (Inr Done, front_by pol r xs)"
| "rq_spec pol (PrependAll rs) xs = (Inr Done, fold (front_by pol) (queue_iter rs) xs)"
| "rq_spec pol (Remove r) xs =
     (if py_id r \<in> set (map py_id xs) then (Inr Done, filter (\<lambda>x. py_id x \<noteq> py_id r) xs) else (Inl ValueError, xs))"
| "rq_spec pol (RemoveAll rs) xs = (Inr Done, filter (\<lambda>x. \<not> in_objects x rs) xs)"
| "rq_spec pol Iter xs = (Inr (Requests xs), xs)"
| "rq_spec pol Len xs = (Inr (Size (int (length xs))), xs)"

text \<open>A request is added only while it is not waiting already.\<close>

fun rq_valid :: "rq_call \<Rightarrow> request list \<Rightarrow> bool" where
  "rq_valid (Add r) xs = (py_id r \<notin> set (map py_id xs))"
| "rq_valid (Prepend r) xs = (py_id r \<notin> set (map py_id xs))"
| "rq_valid (PrependAll rs) xs =
     (distinct (map py_id (queue_iter rs)) \<and> (\<forall>r \<in> set (queue_iter rs). py_id r \<notin> set (map py_id xs)))"
| "rq_valid _ xs = True"

fun rq_run :: "rq_call list \<Rightarrow> request_queue \<Rightarrow> rq_out result list" where
  "rq_run [] q = []"
| "rq_run (c # cs) q = (case rq_exec c q of (out, q') \<Rightarrow> out # rq_run cs q')"

fun rq_spec_run :: "scheduling_policy \<Rightarrow> rq_call list \<Rightarrow> request list \<Rightarrow> rq_out result list" where
  "rq_spec_run pol [] xs = []"
| "rq_spec_run pol (c # cs) xs = (case rq_spec pol c xs of (out, xs') \<Rightarrow> out # rq_spec_run pol cs xs')"

fun rq_valid_run :: "scheduling_policy \<Rightarrow> rq_call list \<Rightarrow> request list \<Rightarrow> bool" where
  "rq_valid_run pol [] xs = True"
| "rq_valid_run pol (c # cs) xs = (rq_valid c xs \<and> rq_valid_run pol cs (snd (rq_spec pol c xs)))"

fun rq_rep :: "scheduling_policy \<Rightarrow> request_queue \<Rightarrow> request list \<Rightarrow> bool" where
  "rq_rep FCFS (FCFSQueue q) xs = fcfs_rep q xs"
| "rq_rep PRIORITY (PriorityQueue h) xs = prio_rep h xs"
| "rq_rep _ _ _ = False"

lemma fcfs_exec:
  assumes "fcfs_rep q xs" "rq_valid c xs"
  shows "\<exists>q'. rq_exec c (FCFSQueue q) = (fst (rq_spec FCFS c xs), FCFSQueue q') \<and> fcfs_rep q' (snd (rq_spec FCFS c xs))"
proof (cases c)
  case Pop
  with assms fcfs.pop_empty [of q] fcfs.pop_law [of q] show ?thesis by (cases xs) fastforce+
next
  case Peek
  with assms fcfs.peek_empty [of q] fcfs.peek_law [of q] show ?thesis by (cases xs) auto
next
  case (Remove r)
  with assms fcfs.remove_absent [of q xs r] fcfs.remove_law [of q xs r] show ?thesis by (cases "py_id r \<in> set (map py_id xs)") auto
next
  case (PrependAll rs)
  have "fcfs_prepend_request = Cons" and "front_by FCFS = Cons" by (auto simp: fcfs_prepend_request_def fun_eq_iff)
  moreover from this have "fcfs_prepend_requests rs' q' = fold fcfs_prepend_request rs' q'" for rs' q'
    by (simp add: fcfs_prepend_requests_def)
  ultimately have "fcfs_prepend_requests (queue_iter rs) q = fold fcfs_prepend_request (queue_iter rs) q" and "front_by FCFS = Cons"
    by auto
  with PrependAll assms fcfs.prepend_many [of q xs "queue_iter rs"] show ?thesis by auto
qed (use assms fcfs.add_law fcfs.prepend_law fcfs.remove_many_law in \<open>auto simp: fcfs_rep_def\<close>)

lemma prio_exec:
  assumes "prio_rep q xs" "rq_valid c xs"
  shows "\<exists>q'. rq_exec c (PriorityQueue q) = (fst (rq_spec PRIORITY c xs), PriorityQueue q') \<and> prio_rep q' (snd (rq_spec PRIORITY c xs))"
proof (cases c)
  case Pop
  with assms prio.pop_empty [of q] prio.pop_law [of q] show ?thesis by (cases xs) fastforce+
next
  case Peek
  with assms prio.peek_empty [of q] prio.peek_law [of q] show ?thesis by (cases xs) auto
next
  case (Remove r)
  with assms prio.remove_absent [of q xs r] prio.remove_law [of q xs r] show ?thesis by (cases "py_id r \<in> set (map py_id xs)") auto
next
  case (PrependAll rs)
  have "front_by PRIORITY = insort_key request_key" by (simp add: fun_eq_iff)
  with PrependAll assms prio.add_many [of q xs "queue_iter rs"] show ?thesis by (auto simp: prio_prepend_requests_def)
next
  case Len
  have "length q = length xs" using assms by (auto simp: prio_rep_def dest: mset_eq_length)
  with Len assms show ?thesis by simp
qed (use assms prio.add_law prio.prepend_law prio.remove_many_law prio.iter_law in auto)

lemma rq_exec_ok:
  "rq_rep pol q xs \<Longrightarrow> rq_valid c xs \<Longrightarrow> fst (rq_exec c q) = fst (rq_spec pol c xs) \<and> rq_rep pol (snd (rq_exec c q)) (snd (rq_spec pol c xs))"
  using fcfs_exec prio_exec by (cases pol; cases q) fastforce+

lemma rq_run_ok: "rq_rep pol q xs \<Longrightarrow> rq_valid_run pol cs xs \<Longrightarrow> rq_run cs q = rq_spec_run pol cs xs"
proof (induction cs arbitrary: q xs)
  case (Cons c cs)
  with rq_exec_ok [of pol q xs c] show ?case by (auto split: prod.splits)
qed simp

text \<open>
  C28. A waiting queue of either policy answers every sequence of calls, exceptions included, like the list of
  waiting requests in the order they are to be served: arrival order with prepended requests in front under FCFS,
  and the order of priority, arrival time, request id and object identity under the priority policy, whatever
  the history of the heap.
\<close>

theorem waiting_queue_serves_in_order:
  assumes "rq_valid_run pol cs []"
  shows "rq_run cs (create_request_queue pol) = rq_spec_run pol cs []"
proof (rule rq_run_ok [OF _ assms])
  show "rq_rep pol (create_request_queue pol) []" by (cases pol) (auto simp: fcfs_rep_def prio_rep_def heap_from_def)
qed

definition queued :: "nat \<Rightarrow> int \<Rightarrow> request" where
  "queued i prio = (init_request i ''r'' (Some []) None None (int i) None [] None None prio False 1 WAITING 0)"

theorem waiting_queue_serves_in_order_witness:
  "rq_run [Add (queued 1 5), Add (queued 2 0), Prepend (queued 3 2), Remove (queued 2 0), Pop, Pop, Pop] (create_request_queue PRIORITY) =
     [Inr Done, Inr Done, Inr Done, Inr Done, Inr (OneRequest (queued 3 2)), Inr (OneRequest (queued 1 5)), Inl IndexError]"
  by (subst waiting_queue_serves_in_order)
    (simp_all add: queued_def init_request_def request_key_def less_eq_prod_def)

end
