(* ===== verification/Stop_Check.thy ===== *)
theory Stop_Check
  imports Request_Model "HOL-Library.Sublist"
begin

text \<open>
  The helpers of \<^verbatim>\<open>vllm/v1/core/sched/utils.py\<close>: repetition detection in the output, removal of
  requests from a list, and the decision whether a request is finished.
\<close>

section \<open>Repetition detection\<close>

fun row_matches :: "int list \<Rightarrow> int \<Rightarrow> int \<Rightarrow> int \<Rightarrow> int list \<Rightarrow> bool result" where
  "row_matches token_ids pattern_len n target_token [] = Inr True"
| "row_matches token_ids pattern_len n target_token (m # ms) =
     ebind (py_index token_ids (- (pattern_len * m + n))) (\<lambda>t.
       if t \<noteq> target_token then Inr False else row_matches token_ids pattern_len n target_token ms)"

fun rows_match :: "int list \<Rightarrow> int \<Rightarrow> int \<Rightarrow> int list \<Rightarrow> bool result" where
  "rows_match token_ids pattern_len repetition_min_count [] = Inr True"
| "rows_match token_ids pattern_len repetition_min_count (n # ns) =
     ebind (py_index token_ids (- n)) (\<lambda>target_token.
     ebind (row_matches token_ids pattern_len n target_token [1..repetition_min_count - 1]) (\<lambda>same.
       if same then rows_match token_ids pattern_len repetition_min_count ns else Inr False))"

definition has_repeating_pattern :: "int list \<Rightarrow> int \<Rightarrow> int \<Rightarrow> bool result" where
  "has_repeating_pattern token_ids pattern_len repetition_min_count =
     rows_match token_ids pattern_len repetition_min_count [1..pattern_len]"

fun repetition_loop :: "int list \<Rightarrow> int \<Rightarrow> int list \<Rightarrow> bool result" where
  "repetition_loop token_ids cnt [] = Inr False"
| "repetition_loop token_ids cnt (pattern_len # ls) =
     (if pattern_len * cnt > int (length token_ids) then Inr False
      else ebind (has_repeating_pattern token_ids pattern_len cnt) (\<lambda>found.
        if found then Inr True else repetition_loop token_ids cnt ls))"

definition check_sequence_repetition :: "int list \<Rightarrow> repetition_params \<Rightarrow> bool result" where
  "check_sequence_repetition token_ids params =
     (let mx = max_pattern_size params; cnt = min_count params;
          mn = (if min_pattern_size params \<le> 0 then 1 else min_pattern_size params)
      in if mx \<le> 0 \<or> cnt < 2 \<or> mn > mx then Inr False
         else repetition_loop token_ids cnt [mn..mx])"


section \<open>Removing requests\<close>

text \<open>
  \<open>remove_all lst items\<close> returns the resulting list and the contents of \<open>lst\<close> afterwards: with one item the list is changed
  in place and is itself the result. The items are a set, here a list without duplicates.
\<close>

definition remove_all :: "'a list \<Rightarrow> 'a list \<Rightarrow> 'a list \<times> 'a list" where
  "remove_all lst items =
     (if items = [] then (lst, lst)
      else if length items = 1 then
        (let item = items ! 0; lst' = remove1 item lst in (lst', lst'))
      else (filter (\<lambda>x. x \<notin> set items) lst, lst))"


section \<open>Stopping\<close>

definition check_stop :: "request \<Rightarrow> int \<Rightarrow> (bool \<times> request) result" where
  "check_stop r max_model_len =
     eassert (pooling_params r = None)
     (case sampling_params r of
        None \<Rightarrow> Inl AssertionError
      | Some sp \<Rightarrow>
          if num_output_tokens r < min_tokens sp then Inr (False, r)
          else
            ebind (py_index (output_token_ids r) (-1)) (\<lambda>last_token_id.
            if eos_token_id sp = Some last_token_id then Inr (True, r\<lparr>status := FINISHED_STOPPED\<rparr>)
            else if last_token_id \<in> set (case stop_token_ids sp of None \<Rightarrow> [] | Some l \<Rightarrow> l)
            then Inr (True, r\<lparr>status := FINISHED_STOPPED, stop_reason := Some (StopToken last_token_id)\<rparr>)
            else if num_tokens r \<ge> max_model_len \<or> num_output_tokens r \<ge> max_tokens r
            then Inr (True, r\<lparr>status := FINISHED_LENGTH_CAPPED\<rparr>)
            else
              (case repetition_detection sp of
                 None \<Rightarrow> Inr (False, r)
               | Some rd \<Rightarrow>
                   ebind (check_sequence_repetition (output_token_ids r) rd) (\<lambda>rep.
                   if rep
                   then Inr (True, r\<lparr>status := FINISHED_REPETITION, stop_reason := Some (StopString ''repetition_detected'')\<rparr>)
                   else Inr (False, r)))))"


section \<open>Correctness of the repetition check\<close>

lemma py_index_neg: "0 < n \<Longrightarrow> n \<le> int (length xs) \<Longrightarrow> py_index xs (- n) = Inr (rev xs ! nat (n - 1))"
  by (auto simp: py_index_def rev_nth Let_def nat_diff_distrib intro!: arg_cong [where f = "(!) xs"])

lemma row_matches_ok:
  assumes "0 < n" "0 \<le> pl" "\<forall>m \<in> set ms. 0 \<le> m \<and> pl * m + n \<le> int (length xs)"
  shows "row_matches xs pl n t ms = Inr (\<forall>m \<in> set ms. rev xs ! nat (pl * m + n - 1) = t)"
  using assms(3)
proof (induction ms)
  case (Cons m ms)
  then have "py_index xs (- (pl * m + n)) = Inr (rev xs ! nat (pl * m + n - 1))"
    using assms(1,2) by (intro py_index_neg) (auto simp: add_nonneg_pos)
  with Cons show ?case by simp
qed simp

lemma rows_match_ok:
  assumes "0 < pl" "0 < cnt" "pl * cnt \<le> int (length xs)" "set ns \<subseteq> {1..pl}"
  shows "rows_match xs pl cnt ns = Inr (\<forall>n \<in> set ns. \<forall>m \<in> {1..cnt - 1}. rev xs ! nat (pl * m + n - 1) = rev xs ! nat (n - 1))"
  using assms(4)
proof (induction ns)
  case (Cons n ns)
  have b: "pl * m + n \<le> int (length xs)" if "m \<le> cnt - 1" for m
  proof -
    have "pl * m \<le> pl * (cnt - 1)" using that assms(1) by simp
    moreover have "n \<le> pl" using Cons.prems by simp
    ultimately show ?thesis using assms(3) by (simp add: algebra_simps)
  qed
  have "py_index xs (- n) = Inr (rev xs ! nat (n - 1))"
    using b [of 0] assms(2) Cons.prems by (intro py_index_neg) auto
  moreover have "row_matches xs pl n (rev xs ! nat (n - 1)) [1..cnt - 1] =
      Inr (\<forall>m \<in> {1..cnt - 1}. rev xs ! nat (pl * m + n - 1) = rev xs ! nat (n - 1))"
    using row_matches_ok [of n pl "[1..cnt - 1]" xs "rev xs ! nat (n - 1)"] assms(1) Cons.prems b by auto
  ultimately show ?case using Cons by auto
qed simp

lemma length_concat_replicate: "length (concat (replicate k w)) = k * length w"
  by (induction k) auto

lemma nth_concat_replicate: "i < k * length w \<Longrightarrow> concat (replicate k w) ! i = w ! (i mod length w)"
proof (induction k arbitrary: i)
  case (Suc k)
  then show ?case by (auto simp: nth_append le_mod_geq)
qed simp

lemma rev_concat_replicate: "rev (concat (replicate k w)) = concat (replicate k (rev w))"
  by (simp add: rev_concat)

text \<open>The tail of a sequence repeats when it ends in \<open>cnt\<close> copies of a pattern.\<close>

definition repeats :: "int list \<Rightarrow> nat \<Rightarrow> nat \<Rightarrow> bool" where
  "repeats xs pl cnt \<longleftrightarrow> (\<exists>w. length w = pl \<and> suffix (concat (replicate cnt w)) xs)"

lemma repeats_index:
  assumes "0 < pl" "pl * cnt \<le> length xs" "0 < cnt"
  shows "repeats xs pl cnt \<longleftrightarrow> (\<forall>i < pl * cnt. rev xs ! i = rev xs ! (i mod pl))"
proof
  assume "repeats xs pl cnt"
  then obtain w where w: "length w = pl" "prefix (concat (replicate cnt (rev w))) (rev xs)"
    by (auto simp: repeats_def suffix_to_prefix rev_concat_replicate)
  then obtain zs where z: "rev xs = concat (replicate cnt (rev w)) @ zs" by (auto simp: prefix_def)
  have "rev xs ! i = rev w ! (i mod pl)" if "i < pl * cnt" for i
    using that w(1) by (simp add: z nth_append length_concat_replicate nth_concat_replicate mult.commute)
  moreover have "i mod pl < pl * cnt" for i
    using less_le_trans [OF mod_less_divisor [OF assms(1), of i], of "pl * cnt"] assms(3) by simp
  ultimately show "\<forall>i < pl * cnt. rev xs ! i = rev xs ! (i mod pl)" by simp
next
  assume a: "\<forall>i < pl * cnt. rev xs ! i = rev xs ! (i mod pl)"
  define w where "w = rev (take pl (rev xs))"
  have le: "pl \<le> length xs" using le_trans [of pl "pl * cnt" "length xs"] assms by simp
  then have lw: "length w = pl" by (simp add: w_def)
  have "take (pl * cnt) (rev xs) = concat (replicate cnt (rev w))"
  proof (rule nth_equalityI)
    show "length (take (pl * cnt) (rev xs)) = length (concat (replicate cnt (rev w)))"
      using assms lw by (simp add: length_concat_replicate)
    fix i assume "i < length (take (pl * cnt) (rev xs))"
    then have "i < pl * cnt" by simp
    then show "take (pl * cnt) (rev xs) ! i = concat (replicate cnt (rev w)) ! i"
      using a lw assms(1) by (simp add: nth_concat_replicate mult.commute) (simp add: w_def)
  qed
  then have "prefix (concat (replicate cnt (rev w))) (rev xs)" by (metis take_is_prefix)
  then show "repeats xs pl cnt" using lw by (auto simp: repeats_def suffix_to_prefix rev_concat_replicate)
qed


lemma has_repeating_pattern_ok:
  assumes "0 < pl" "0 < cnt" "pl * cnt \<le> int (length xs)"
  shows "has_repeating_pattern xs pl cnt = Inr (repeats xs (nat pl) (nat cnt))"
proof -
  have len: "nat pl * nat cnt \<le> length xs" using assms by (simp flip: nat_mult_distrib)
  have "(\<forall>n \<in> {1..pl}. \<forall>m \<in> {1..cnt - 1}. rev xs ! nat (pl * m + n - 1) = rev xs ! nat (n - 1)) \<longleftrightarrow>
      (\<forall>i < nat pl * nat cnt. rev xs ! i = rev xs ! (i mod nat pl))" (is "?l = ?r")
  proof
    assume l: ?l
    show ?r
    proof (intro allI impI)
      fix i assume i: "i < nat pl * nat cnt"
      define m n where "m = int (i div nat pl)" and "n = int (i mod nat pl) + 1"
      have e: "nat (pl * m + n - 1) = i" "nat (n - 1) = i mod nat pl"
        using assms(1) by (auto simp: m_def n_def nat_eq_iff zdiv_int zmod_int)
      have "n \<in> {1..pl}" using assms(1) by (auto simp: n_def zmod_int add1_zle_eq)
      moreover have "i div nat pl < nat cnt" using i by (simp add: less_mult_imp_div_less mult.commute)
      then have "m \<le> cnt - 1" "0 \<le> m" using assms(2) by (auto simp: m_def)
      ultimately have "m = 0 \<or> rev xs ! nat (pl * m + n - 1) = rev xs ! nat (n - 1)" using l by (cases "m = 0") fastforce+
      then show "rev xs ! i = rev xs ! (i mod nat pl)" using e by auto
    qed
  next
    assume r: ?r
    show ?l
    proof (intro ballI)
      fix n m assume nm: "n \<in> {1..pl}" "m \<in> {1..cnt - 1}"
      define i where "i = nat (pl * m + n - 1)"
      have "pl * m \<le> pl * (cnt - 1)" using nm assms(1) by simp
      then have "pl * m + n - 1 < pl * cnt" using nm by (simp add: algebra_simps)
      moreover have nn: "0 \<le> pl * m" using nm assms(1) by simp
      ultimately have "i < nat pl * nat cnt" using nm assms by (simp add: i_def zless_nat_eq_int_zless flip: nat_mult_distrib)
      moreover have "i mod nat pl = nat (n - 1)"
      proof -
        have "(pl * m + n - 1) mod pl = (n - 1) mod pl" by (metis add.commute add_diff_eq mod_mult_self2)
        also have "\<dots> = n - 1" using nm by (intro mod_pos_pos_trivial) auto
        finally show ?thesis using nm nn add_nonneg_pos [OF nn, of n] assms(1) nat_mod_distrib [of "pl * m + n - 1" pl] by (simp add: i_def)
      qed
      ultimately show "rev xs ! nat (pl * m + n - 1) = rev xs ! nat (n - 1)" using r by (auto simp: i_def)
    qed
  qed
  then show ?thesis
    using rows_match_ok [OF assms, of "[1..pl]"] repeats_index [of "nat pl" "nat cnt" xs] len assms
    by (simp add: has_repeating_pattern_def)
qed

lemma repeats_length: "repeats xs pl cnt \<Longrightarrow> pl * cnt \<le> length xs"
  by (auto simp: repeats_def length_concat_replicate mult.commute dest!: suffix_length_le)

lemma repetition_loop_ok:
  assumes "0 < cnt" "sorted ls" "\<forall>l \<in> set ls. 0 < l"
  shows "repetition_loop xs cnt ls = Inr (\<exists>l \<in> set ls. repeats xs (nat l) (nat cnt))"
  using assms(2,3)
proof (induction ls)
  case (Cons l ls)
  show ?case
  proof (cases "l * cnt > int (length xs)")
    case True
    have "\<not> repeats xs (nat l') (nat cnt)" if "l' \<in> set (l # ls)" for l'
    proof
      assume "repeats xs (nat l') (nat cnt)"
      then have "nat l' * nat cnt \<le> length xs" by (rule repeats_length)
      moreover have "0 < l'" using that Cons.prems by auto
      ultimately have "l' * cnt \<le> int (length xs)" using assms(1) by (simp flip: nat_mult_distrib)
      moreover have "l * cnt \<le> l' * cnt" using that Cons.prems assms(1) by auto
      ultimately show False using True by simp
    qed
    with True show ?thesis by auto
  next
    case False
    with Cons has_repeating_pattern_ok [of l cnt xs] assms(1) show ?thesis by auto
  qed
qed simp

lemma check_sequence_repetition_ok:
  "check_sequence_repetition xs params =
    Inr (min_count params \<ge> 2 \<and> (\<exists>l. 1 \<le> l \<and> min_pattern_size params \<le> l \<and> l \<le> max_pattern_size params \<and>
      repeats xs (nat l) (nat (min_count params))))"
proof -
  define mn where "mn = (if min_pattern_size params \<le> 0 then 1 else min_pattern_size params)"
  have "repetition_loop xs (min_count params) [mn..max_pattern_size params] =
      Inr (\<exists>l \<in> {mn..max_pattern_size params}. repeats xs (nat l) (nat (min_count params)))" if "min_count params \<ge> 2"
    using repetition_loop_ok [of "min_count params" "[mn..max_pattern_size params]" xs] that
    by (auto simp: mn_def)
  moreover have "(\<exists>l \<in> {mn..max_pattern_size params}. P l) \<longleftrightarrow> (\<exists>l. 1 \<le> l \<and> min_pattern_size params \<le> l \<and> l \<le> max_pattern_size params \<and> P l)" for P
    unfolding Bex_def by (rule iff_exI) (auto simp: mn_def)
  ultimately show ?thesis
    by (auto simp: check_sequence_repetition_def Let_def simp flip: mn_def)
qed

lemma repetition_check_pattern:
  "check_sequence_repetition xs params =
    Inr (min_count params \<ge> 2 \<and> (\<exists>w. w \<noteq> [] \<and> min_pattern_size params \<le> int (length w) \<and> int (length w) \<le> max_pattern_size params \<and>
      suffix (concat (replicate (nat (min_count params)) w)) xs))"
proof -
  have "(\<exists>l. 1 \<le> l \<and> min_pattern_size params \<le> l \<and> l \<le> max_pattern_size params \<and> repeats xs (nat l) (nat (min_count params))) \<longleftrightarrow>
    (\<exists>w. w \<noteq> [] \<and> min_pattern_size params \<le> int (length w) \<and> int (length w) \<le> max_pattern_size params \<and>
      suffix (concat (replicate (nat (min_count params)) w)) xs)" (is "?l = ?r")
  proof
    assume ?l
    then obtain l w where "1 \<le> l" "min_pattern_size params \<le> l" "l \<le> max_pattern_size params" "length w = nat l"
      "suffix (concat (replicate (nat (min_count params)) w)) xs" by (auto simp: repeats_def)
    then show ?r by (intro exI [of _ w]) auto
  next
    assume ?r
    then obtain w where "w \<noteq> []" "min_pattern_size params \<le> int (length w)" "int (length w) \<le> max_pattern_size params"
      "suffix (concat (replicate (nat (min_count params)) w)) xs" by blast
    then show ?l by (intro exI [of _ "int (length w)"]) (auto simp: repeats_def Suc_le_eq)
  qed
  then show ?thesis by (simp add: check_sequence_repetition_ok)
qed


section \<open>Properties of stopping and removal\<close>

definition repetition_found :: "request \<Rightarrow> sampling_params \<Rightarrow> bool" where
  "repetition_found r sp \<longleftrightarrow>
     (\<exists>rd w. repetition_detection sp = Some rd \<and> 2 \<le> min_count rd \<and> w \<noteq> [] \<and> min_pattern_size rd \<le> int (length w) \<and>
        int (length w) \<le> max_pattern_size rd \<and> suffix (concat (replicate (nat (min_count rd)) w)) (output_token_ids r))"

text \<open>When, and with which status and reason, a generating request stops; the first that applies counts.\<close>

definition stop_outcome :: "request \<Rightarrow> sampling_params \<Rightarrow> int \<Rightarrow> (request_status \<times> stop_reason option) option" where
  "stop_outcome r sp max_model_len =
     (let t = last (output_token_ids r) in
      if num_output_tokens r < min_tokens sp then None
      else if eos_token_id sp = Some t then Some (FINISHED_STOPPED, stop_reason r)
      else if t \<in> set (case stop_token_ids sp of None \<Rightarrow> [] | Some l \<Rightarrow> l) then Some (FINISHED_STOPPED, Some (StopToken t))
      else if max_model_len \<le> num_tokens r \<or> max_tokens r \<le> num_output_tokens r
      then Some (FINISHED_LENGTH_CAPPED, stop_reason r)
      else if repetition_found r sp
      then Some (FINISHED_REPETITION, Some (StopString ''repetition_detected''))
      else None)"

lemma py_index_last: "xs \<noteq> [] \<Longrightarrow> py_index xs (-1) = Inr (last xs)"
  by (auto simp: py_index_def last_conv_nth Let_def nat_diff_distrib Suc_le_eq intro!: arg_cong [where f = "(!) xs"])

text \<open>
  C33. The repetition check never raises, and it reports a repetition exactly when the output ends in at least the
  configured number of copies of some pattern whose length is within the configured bounds.
\<close>

theorem repetition_check_exact:
  "check_sequence_repetition xs params =
    Inr (min_count params \<ge> 2 \<and> (\<exists>w. w \<noteq> [] \<and> min_pattern_size params \<le> int (length w) \<and> int (length w) \<le> max_pattern_size params \<and>
      suffix (concat (replicate (nat (min_count params)) w)) xs))"
  by (rule repetition_check_pattern)

text \<open>
  C32. For a generating request with output, the stop check returns without raising; it stops the request exactly for the first
  of these that applies once the minimum output length is reached: end-of-sequence token, a stop token, the model or
  request length limit, a detected repetition. It sets the matching finished status and stop reason and changes nothing else.
\<close>

theorem check_stop_exact:
  assumes "pooling_params r = None" "sampling_params r = Some sp" "output_token_ids r \<noteq> []"
  shows "check_stop r max_model_len =
    (case stop_outcome r sp max_model_len of
       None \<Rightarrow> Inr (False, r)
     | Some (st, why) \<Rightarrow> Inr (True, r\<lparr>status := st, stop_reason := why\<rparr>))"
proof -
  have t: "py_index (output_token_ids r) (-1) = Inr (last (output_token_ids r))" using assms(3) by (rule py_index_last)
  have rep: "(case repetition_detection sp of None \<Rightarrow> Inr (False, r) | Some rd \<Rightarrow>
      ebind (check_sequence_repetition (output_token_ids r) rd) (\<lambda>rep. if rep then Inr (True, r') else Inr (False, r))) =
    (if repetition_found r sp then Inr (True, r') else Inr (False, r))" for r'
    by (cases "repetition_detection sp") (auto simp: repetition_found_def repetition_check_pattern)
  define ids where "ids = (case stop_token_ids sp of None \<Rightarrow> [] | Some l \<Rightarrow> l)"
  show ?thesis
    unfolding check_stop_def assms(1,2) option.case(2) stop_outcome_def Let_def ids_def [symmetric] by (simp add: t rep)
qed

theorem check_stop_exact_witness:
  "check_stop (init_request 0 ''r'' (Some [5]) (Some \<lparr>sp_max_tokens = Some 9, min_tokens = 1, eos_token_id = Some 2, stop_token_ids = Some [7],
      repetition_detection = None, sp_skip_reading_prefix_cache = None\<rparr>) None 0 None [] None None 0 False 9 RUNNING 1
      \<lparr>output_token_ids := [4, 7], all_token_ids := [5, 4, 7]\<rparr>) 100 =
   Inr (True, init_request 0 ''r'' (Some [5]) (Some \<lparr>sp_max_tokens = Some 9, min_tokens = 1, eos_token_id = Some 2, stop_token_ids = Some [7],
      repetition_detection = None, sp_skip_reading_prefix_cache = None\<rparr>) None 0 None [] None None 0 False 9 FINISHED_STOPPED 1
      \<lparr>output_token_ids := [4, 7], all_token_ids := [5, 4, 7], stop_reason := Some (StopToken 7)\<rparr>)"
  by (subst check_stop_exact) (auto simp: init_request_def stop_outcome_def num_output_tokens_def)

text \<open>
  C34. Removing a set of requests from a list without duplicates leaves exactly the others in their order.
\<close>

theorem remove_all_distinct:
  assumes "distinct lst" "distinct items"
  shows "fst (remove_all lst items) = filter (\<lambda>x. x \<notin> set items) lst"
proof (cases items)
  case (Cons x xs)
  have "filter ((\<noteq>) x) lst = filter (\<lambda>y. y \<noteq> x) lst" by (rule filter_cong) auto
  with Cons assms show ?thesis by (cases xs) (auto simp: remove_all_def Let_def distinct_remove1_removeAll removeAll_filter_not_eq)
qed (simp add: remove_all_def)

theorem remove_all_distinct_witness: "fst (remove_all [3, 1, 2 :: nat] [1]) = [3, 2] \<and> fst (remove_all [3, 1, 2 :: nat] [2, 3]) = [1]"
  using remove_all_distinct [of "[3, 1, 2 :: nat]" "[1]"] remove_all_distinct [of "[3, 1, 2 :: nat]" "[2, 3]"] by simp

text \<open>
  C35. With a single item exactly its first occurrence goes, in the list itself, and every further one stays; with two items every occurrence
  of both goes.
\<close>

theorem remove_all_keeps_duplicates:
  assumes "x \<notin> set ys"
  shows "remove_all (ys @ x # zs) [x] = (ys @ zs, ys @ zs) \<and>
    (x \<noteq> y \<longrightarrow> fst (remove_all (ys @ x # zs) [x, y]) = filter (\<lambda>z. z \<noteq> x \<and> z \<noteq> y) (ys @ zs))"
  using assms by (auto simp: remove_all_def Let_def remove1_append intro!: filter_cong)

theorem remove_all_keeps_duplicates_witness:
  "remove_all [3, 1, 2, 1 :: nat] [1] = ([3, 2, 1], [3, 2, 1]) \<and> fst (remove_all [3, 1, 2, 1 :: nat] [1, 3]) = [2]"
  using remove_all_keeps_duplicates [of "1 :: nat" "[3]" "[2, 1]" 3] by simp

end
