(* ===== verification/Encoder_Cache.thy ===== *)
theory Encoder_Cache
  imports Request_Model
begin

text \<open>
  The encoder cache of \<^verbatim>\<open>vllm/v1/core/encoder_cache_manager.py\<close>: which multi-modal encoder outputs are kept,
  who references them and which may be reclaimed. A Python set is a list without duplicates; the order in which a set
  is iterated is a parameter of the operation that iterates one.
\<close>

section \<open>The multi-modal cache\<close>

record encoder_cache =
  cache_size :: int
  num_free_slots :: int
  num_freeable_slots :: int
  cached :: "(string, string list) dict"
  request_cached_ids :: "(string, int list) dict"
  freeable :: "(string, int) dict"
  freed :: "string list"

definition enc_init :: "int \<Rightarrow> encoder_cache" where
  "enc_init csize =
     \<lparr>cache_size = csize, num_free_slots = csize, num_freeable_slots = csize, cached = [], request_cached_ids = [],
      freeable = [], freed = []\<rparr>"

definition enc_reset :: "encoder_cache \<Rightarrow> encoder_cache" where
  "enc_reset ec =
     ec\<lparr>cached := [], request_cached_ids := [], freeable := [], freed := [],
        num_free_slots := cache_size ec, num_freeable_slots := cache_size ec\<rparr>"

text \<open>The request takes a reference to the entry and remembers which of its inputs it is for.\<close>

definition add_reference :: "string \<Rightarrow> int \<Rightarrow> string \<Rightarrow> encoder_cache \<Rightarrow> encoder_cache" where
  "add_reference rid input_id h ec =
     ec\<lparr>cached := dset h (set_add rid (dget_default (cached ec) h [])) (cached ec),
        request_cached_ids := dset rid (set_add input_id (dget_default (request_cached_ids ec) rid [])) (request_cached_ids ec)\<rparr>"

definition check_and_update_cache :: "request \<Rightarrow> int \<Rightarrow> encoder_cache \<Rightarrow> (bool \<times> encoder_cache) result" where
  "check_and_update_cache r input_id ec =
     ebind (py_index (mm_features r) input_id) (\<lambda>f.
     (let mm_hash = mm_identifier f in
      case dget (cached ec) mm_hash of
        None \<Rightarrow> Inr (False, ec)
      | Some refs \<Rightarrow>
          ebind (if refs = [] then
                   (case dget (freeable ec) mm_hash of
                      None \<Rightarrow> Inl KeyError
                    | Some num_encoder_embeds \<Rightarrow>
                        Inr (ec\<lparr>freeable := ddel mm_hash (freeable ec),
                               num_freeable_slots := num_freeable_slots ec - num_encoder_embeds\<rparr>))
                 else Inr ec) (\<lambda>ec1.
          Inr (True, add_reference (request_id r) input_id mm_hash ec1))))"

text \<open>The loop that evicts the oldest unreferenced entries until \<open>num_embeds\<close> slots are free.\<close>

function reclaim :: "int \<Rightarrow> encoder_cache \<Rightarrow> encoder_cache result" where
  "reclaim num_embeds ec =
     (if num_embeds > num_free_slots ec then
        (case freeable ec of
           [] \<Rightarrow> Inl KeyError
         | (mm_hash, num_free_embeds) # rest \<Rightarrow>
             if dget (cached ec) mm_hash = None then Inl KeyError
             else reclaim num_embeds
               (ec\<lparr>freeable := rest, cached := ddel mm_hash (cached ec), freed := freed ec @ [mm_hash],
                  num_free_slots := num_free_slots ec + num_free_embeds\<rparr>))
      else Inr ec)"
  by pat_completeness auto
termination by (relation "measure (\<lambda>(n, ec). length (freeable ec))") auto

declare reclaim.simps [simp del]

definition can_allocate :: "request \<Rightarrow> int \<Rightarrow> int \<Rightarrow> int \<Rightarrow> encoder_cache \<Rightarrow> (bool \<times> encoder_cache) result" where
  "can_allocate r input_id encoder_compute_budget num_embeds_to_schedule ec =
     ebind (get_num_encoder_embeds r input_id) (\<lambda>n.
     if n > encoder_compute_budget then Inr (False, ec)
     else
       (let num_embeds = n + num_embeds_to_schedule in
        if num_embeds \<le> num_free_slots ec then Inr (True, ec)
        else if num_embeds > num_freeable_slots ec then Inr (False, ec)
        else ebind (reclaim num_embeds ec) (\<lambda>ec1. Inr (True, ec1))))"

definition allocate :: "request \<Rightarrow> int \<Rightarrow> encoder_cache \<Rightarrow> encoder_cache result" where
  "allocate r input_id ec =
     ebind (py_index (mm_features r) input_id) (\<lambda>f.
     (let mm_hash = mm_identifier f;
          ec1 = (if dget (cached ec) mm_hash = None then ec\<lparr>cached := dset mm_hash [] (cached ec)\<rparr> else ec) in
      ebind (get_num_encoder_embeds r input_id) (\<lambda>num_encoder_embeds.
      eassert (num_free_slots ec1 \<ge> num_encoder_embeds)
      (eassert (num_freeable_slots ec1 \<ge> num_encoder_embeds)
      (let ec2 = add_reference (request_id r) input_id mm_hash ec1 in
       Inr (ec2\<lparr>num_free_slots := num_free_slots ec2 - num_encoder_embeds,
                num_freeable_slots := num_freeable_slots ec2 - num_encoder_embeds\<rparr>))))))"

definition get_cached_input_ids :: "request \<Rightarrow> encoder_cache \<Rightarrow> int list" where
  "get_cached_input_ids r ec = dget_default (request_cached_ids ec) (request_id r) []"

text \<open>\<^verbatim>\<open>s.discard(x)\<close> on a set.\<close>

definition forget_input :: "string \<Rightarrow> int \<Rightarrow> encoder_cache \<Rightarrow> encoder_cache" where
  "forget_input rid input_id ec =
     (case dget (request_cached_ids ec) rid of
        None \<Rightarrow> ec
      | Some ids \<Rightarrow>
          (let ids' = removeAll input_id ids
           in if ids' = [] then ec\<lparr>request_cached_ids := ddel rid (request_cached_ids ec)\<rparr>
              else ec\<lparr>request_cached_ids := dset rid ids' (request_cached_ids ec)\<rparr>))"

definition free_encoder_input :: "request \<Rightarrow> int \<Rightarrow> encoder_cache \<Rightarrow> encoder_cache result" where
  "free_encoder_input r input_id ec =
     ebind (py_index (mm_features r) input_id) (\<lambda>f.
     (let req_id = request_id r; mm_hash = mm_identifier f; ec1 = forget_input req_id input_id ec;
          refs = dget_default (cached ec1) mm_hash [] in
      if refs = [] then Inr ec1
      else
        (let refs' = removeAll req_id refs; ec2 = ec1\<lparr>cached := dset mm_hash refs' (cached ec1)\<rparr> in
         if refs' = [] then
           ebind (get_num_encoder_embeds r input_id) (\<lambda>num_encoder_embeds.
           Inr (ec2\<lparr>freeable := dset mm_hash num_encoder_embeds (freeable ec2),
                    num_freeable_slots := num_freeable_slots ec2 + num_encoder_embeds\<rparr>))
         else Inr ec2)))"

definition free_request :: "(int list \<Rightarrow> int list) \<Rightarrow> request \<Rightarrow> encoder_cache \<Rightarrow> encoder_cache result" where
  "free_request ord r ec = efold (free_encoder_input r) (ord (get_cached_input_ids r ec)) ec"

definition get_freed_mm_hashes :: "encoder_cache \<Rightarrow> string list \<times> encoder_cache" where
  "get_freed_mm_hashes ec = (freed ec, ec\<lparr>freed := []\<rparr>)"


section \<open>The budgets\<close>

record mm_scheduler_config =
  disable_chunked_mm_input :: bool
  max_num_batched_tokens :: int
  max_num_encoder_input_tokens :: int
  sc_encoder_cache_size :: int

definition compute_mm_encoder_budget :: "mm_scheduler_config \<Rightarrow> (string, int) dict \<Rightarrow> (int \<times> int) result" where
  "compute_mm_encoder_budget config mm_max_toks_per_item =
     (if mm_max_toks_per_item = [] then Inr (0, 0)
      else
        (let max_tokens_per_mm_item = Max (set (map snd mm_max_toks_per_item)) in
         if disable_chunked_mm_input config \<and> max_tokens_per_mm_item > max_num_batched_tokens config then Inl ValueError
         else Inr (max (max_num_encoder_input_tokens config) max_tokens_per_mm_item,
                   max (sc_encoder_cache_size config) max_tokens_per_mm_item)))"


section \<open>The manager for encoder-decoder models\<close>

record encdec_cache =
  ed_cache_size :: int
  ed_num_free_slots :: int
  allocated :: "string list"
  to_free :: "string list"

definition ed_init :: "int \<Rightarrow> encdec_cache" where
  "ed_init csize = \<lparr>ed_cache_size = csize, ed_num_free_slots = csize, allocated = [], to_free = []\<rparr>"

definition ed_reset :: "encdec_cache \<Rightarrow> encdec_cache" where
  "ed_reset ec = ec\<lparr>ed_num_free_slots := ed_cache_size ec, allocated := [], to_free := []\<rparr>"

definition ed_can_allocate :: "request \<Rightarrow> int \<Rightarrow> int \<Rightarrow> int \<Rightarrow> encdec_cache \<Rightarrow> bool result" where
  "ed_can_allocate r input_id encoder_compute_budget num_embeds_to_schedule ec =
     ebind (get_num_encoder_embeds r input_id) (\<lambda>n.
     if n > encoder_compute_budget then Inr False
     else Inr (n + num_embeds_to_schedule \<le> ed_num_free_slots ec))"

definition ed_allocate :: "request \<Rightarrow> int \<Rightarrow> encdec_cache \<Rightarrow> encdec_cache result" where
  "ed_allocate r input_id ec =
     ebind (get_num_encoder_embeds r input_id) (\<lambda>n.
     ebind (py_index (mm_features r) input_id) (\<lambda>f.
     Inr (ec\<lparr>ed_num_free_slots := ed_num_free_slots ec - n, allocated := allocated ec @ [mm_identifier f]\<rparr>)))"

definition ed_free_encoder_input :: "request \<Rightarrow> int \<Rightarrow> encdec_cache \<Rightarrow> encdec_cache result" where
  "ed_free_encoder_input r input_id ec =
     ebind (get_num_encoder_embeds r input_id) (\<lambda>n.
     Inr (ec\<lparr>ed_num_free_slots := ed_num_free_slots ec + n\<rparr>))"

definition ed_get_cached_input_ids :: "request \<Rightarrow> int list" where
  "ed_get_cached_input_ids r = [0..int (length (mm_features r)) - 1]"

definition ed_free_request :: "request \<Rightarrow> encdec_cache \<Rightarrow> encdec_cache result" where
  "ed_free_request r ec = efold (ed_free_encoder_input r) [0..int (length (mm_features r)) - 1] ec"

definition ed_get_freed_mm_hashes :: "encdec_cache \<Rightarrow> string list \<times> encdec_cache" where
  "ed_get_freed_mm_hashes ec = (to_free ec, ec\<lparr>to_free := allocated ec, allocated := []\<rparr>)"



section \<open>Accounting invariant\<close>

text \<open>
  \<open>sz\<close> gives the number of embeddings of each input by its hash; requests that share a hash share the input.
  The free slots are what the entries leave over, and the freeable slots add the unreferenced entries.
\<close>

definition sized :: "(string \<Rightarrow> int) \<Rightarrow> request \<Rightarrow> bool" where
  "sized sz r \<longleftrightarrow> (\<forall>f \<in> set (mm_features r). get_num_embeds (mm_position f) = sz (mm_identifier f))"

definition enc_ok :: "(string \<Rightarrow> int) \<Rightarrow> encoder_cache \<Rightarrow> bool" where
  "enc_ok sz ec \<longleftrightarrow>
     distinct (dkeys (freeable ec)) \<and>
     (\<forall>h n. dget (freeable ec) h = Some n \<longleftrightarrow> dget (cached ec) h = Some [] \<and> n = sz h) \<and>
     num_free_slots ec = cache_size ec - (\<Sum>h \<in> dom (dget (cached ec)). sz h) \<and>
     num_freeable_slots ec = num_free_slots ec + (\<Sum>h \<in> dom (dget (freeable ec)). sz h) \<and>
     0 \<le> num_free_slots ec"

definition hash_of :: "request \<Rightarrow> int \<Rightarrow> string" where
  "hash_of r i = mm_identifier (mm_features r ! nat i)"

definition valid_input :: "request \<Rightarrow> int \<Rightarrow> bool" where
  "valid_input r i \<longleftrightarrow> 0 \<le> i \<and> i < int (length (mm_features r))"

lemma valid_input_index: "valid_input r i \<Longrightarrow> py_index (mm_features r) i = Inr (mm_features r ! nat i)"
  by (simp add: valid_input_def py_index_def)

lemma embeds_sized: "sized sz r \<Longrightarrow> valid_input r i \<Longrightarrow> get_num_encoder_embeds r i = Inr (sz (hash_of r i))"
  by (auto simp: get_num_encoder_embeds_def valid_input_index hash_of_def sized_def valid_input_def)

lemma enc_okD:
  assumes "enc_ok sz ec"
  shows "distinct (dkeys (freeable ec))" "dget (freeable ec) h = Some n \<longleftrightarrow> dget (cached ec) h = Some [] \<and> n = sz h"
    "num_free_slots ec = cache_size ec - (\<Sum>h \<in> dom (dget (cached ec)). sz h)"
    "num_freeable_slots ec = num_free_slots ec + (\<Sum>h \<in> dom (dget (freeable ec)). sz h)" "0 \<le> num_free_slots ec"
  using assms by (simp_all add: enc_ok_def)

lemma enc_init_ok: "0 \<le> n \<Longrightarrow> enc_ok sz (enc_init n)"
  by (simp add: enc_init_def enc_ok_def)

lemma enc_reset_ok: "enc_ok sz ec \<Longrightarrow> 0 \<le> cache_size ec \<Longrightarrow> enc_ok sz (enc_reset ec)"
  by (simp add: enc_reset_def enc_ok_def)

lemma add_reference_fields [simp]:
  "num_free_slots (add_reference rid i h ec) = num_free_slots ec"
  "num_freeable_slots (add_reference rid i h ec) = num_freeable_slots ec"
  "cache_size (add_reference rid i h ec) = cache_size ec"
  "freeable (add_reference rid i h ec) = freeable ec"
  "freed (add_reference rid i h ec) = freed ec"
  "dget (cached (add_reference rid i h ec)) = (dget (cached ec))(h \<mapsto> set_add rid (dget_default (cached ec) h []))"
  by (simp_all add: add_reference_def)

lemma set_add_not_Nil [simp]: "set_add x xs \<noteq> []"
  by (auto simp: set_add_def)

lemma check_ok:
  assumes ok: "enc_ok sz ec" and v: "valid_input r i"
  defines "h \<equiv> hash_of r i"
  shows "\<exists>ec'. check_and_update_cache r i ec = Inr (dget (cached ec) h \<noteq> None, ec') \<and> enc_ok sz ec' \<and>
    cache_size ec' = cache_size ec \<and> num_free_slots ec' = num_free_slots ec \<and> freed ec' = freed ec \<and>
    dget (cached ec') = (case dget (cached ec) h of None \<Rightarrow> dget (cached ec)
      | Some refs \<Rightarrow> (dget (cached ec))(h \<mapsto> set_add (request_id r) refs))"
proof -
  note D = enc_okD [OF ok]
  note ix = valid_input_index [OF v] hash_of_def [of r i, folded h_def, symmetric]
  consider "dget (cached ec) h = None" | "dget (cached ec) h = Some []" | refs where "dget (cached ec) h = Some refs" "refs \<noteq> []"
    by (cases "dget (cached ec) h") auto
  then show ?thesis
  proof cases
    case 1
    then show ?thesis using ok ix by (simp add: check_and_update_cache_def)
  next
    case 2
    then have fr: "dget (freeable ec) h = Some (sz h)" using D(2) by simp
    define ec1 where "ec1 = ec\<lparr>freeable := ddel h (freeable ec), num_freeable_slots := num_freeable_slots ec - sz h\<rparr>"
    have "check_and_update_cache r i ec = Inr (True, add_reference (request_id r) i h ec1)"
      using 2 fr ix by (simp add: check_and_update_cache_def ec1_def)
    moreover have "enc_ok sz (add_reference (request_id r) i h ec1)"
    proof -
      have "(\<Sum>x \<in> dom (dget (freeable ec)). sz x) = sz h + (\<Sum>x \<in> dom (dget (freeable ec)) - {h}. sz x)"
        using fr by (intro sum.remove) (auto simp: finite_dom_map_of)
      moreover have "insert h (dom (dget (cached ec))) = dom (dget (cached ec))" using 2 by auto
      ultimately show ?thesis using D 2 fr by (auto simp: enc_ok_def ec1_def)
    qed
    ultimately show ?thesis using 2 by (auto simp: ec1_def)
  next
    case 3
    have "insert h (dom (dget (cached ec))) = dom (dget (cached ec))" using 3 by auto
    then have "enc_ok sz (add_reference (request_id r) i h ec)" using D 3 by (auto simp: enc_ok_def)
    then show ?thesis using 3 ix by (auto simp: check_and_update_cache_def)
  qed
qed

lemma allocate_ok:
  assumes ok: "enc_ok sz ec" and v: "valid_input r i" and sz: "sized sz r"
  defines "h \<equiv> hash_of r i"
  assumes new: "dget (cached ec) h = None" and room: "sz h \<le> num_free_slots ec" and pos: "\<And>k. 0 \<le> sz k"
  shows "\<exists>ec'. allocate r i ec = Inr ec' \<and> enc_ok sz ec' \<and> cache_size ec' = cache_size ec \<and>
    num_free_slots ec' = num_free_slots ec - sz h \<and> freed ec' = freed ec \<and>
    dget (cached ec') = (dget (cached ec))(h \<mapsto> [request_id r])"
proof -
  note D = enc_okD [OF ok]
  note ix = valid_input_index [OF v] hash_of_def [of r i, folded h_def, symmetric] embeds_sized [OF sz v, folded h_def]
  have "0 \<le> (\<Sum>x \<in> dom (dget (freeable ec)). sz x)" using pos by (intro sum_nonneg) auto
  then have room': "sz h \<le> num_freeable_slots ec" using D(4) room by simp
  define ec1 where "ec1 = add_reference (request_id r) i h (ec\<lparr>cached := dset h [] (cached ec)\<rparr>)"
  define ec' where "ec' = ec1\<lparr>num_free_slots := num_free_slots ec - sz h, num_freeable_slots := num_freeable_slots ec - sz h\<rparr>"
  have "allocate r i ec = Inr ec'"
    using new room room' ix by (simp add: allocate_def Let_def ec'_def ec1_def)
  moreover have c: "dget (cached ec') = (dget (cached ec))(h \<mapsto> [request_id r])"
    by (simp add: ec'_def ec1_def set_add_def dget_default_def)
  moreover have "enc_ok sz ec'"
  proof -
    have "(\<Sum>x \<in> insert h (dom (dget (cached ec))). sz x) = sz h + (\<Sum>x \<in> dom (dget (cached ec)). sz x)"
      using new by (intro sum.insert) (auto simp: finite_dom_map_of)
    moreover have "dget (freeable ec) h = None" using D(2) [of h] new by (cases "dget (freeable ec) h") auto
    ultimately show ?thesis using D room new unfolding enc_ok_def c by (auto simp: ec'_def ec1_def)
  qed
  ultimately show ?thesis by (simp add: ec'_def ec1_def)
qed


lemma enc_ok_pop:
  assumes ok: "enc_ok sz ec" and f: "freeable ec = (h, n) # rest" and pos: "\<And>k. 0 \<le> sz k"
  shows "n = sz h" "dget (cached ec) h = Some []"
    "enc_ok sz (ec\<lparr>freeable := rest, cached := ddel h (cached ec), freed := fr, num_free_slots := num_free_slots ec + n\<rparr>)"
proof -
  note D = enc_okD [OF ok]
  show n: "n = sz h" and c: "dget (cached ec) h = Some []" using D(2) [of h n] f by simp_all
  have rest: "dget rest h = None" using D(1) f by (simp add: map_of_eq_None_iff)
  have "(\<Sum>x \<in> dom (dget (cached ec)). sz x) = sz h + (\<Sum>x \<in> dom (dget (cached ec)) - {h}. sz x)"
    using c by (intro sum.remove) (auto simp: finite_dom_map_of)
  moreover have "(\<Sum>x \<in> dom (dget (freeable ec)). sz x) = sz h + (\<Sum>x \<in> dom (dget rest). sz x)"
  proof -
    have "dom (dget (freeable ec)) = insert h (dom (dget rest))" using f by auto
    then show ?thesis using rest by (simp add: finite_dom_map_of domIff)
  qed
  moreover have "dget rest k = Some m \<longleftrightarrow> k \<noteq> h \<and> dget (cached ec) k = Some [] \<and> m = sz k" for k m
    using D(2) [of k m] f rest by (cases "k = h") (simp_all del: map_of_eq_Some_iff)
  ultimately show "enc_ok sz (ec\<lparr>freeable := rest, cached := ddel h (cached ec), freed := fr, num_free_slots := num_free_slots ec + n\<rparr>)"
    using D(1,3,4,5) n pos [of h] f by (auto simp: enc_ok_def)
qed

lemma reclaim_ok:
  assumes "enc_ok sz ec" "n \<le> num_freeable_slots ec" and pos: "\<And>k. 0 \<le> sz k"
  shows "\<exists>k ec'. reclaim n ec = Inr ec' \<and> enc_ok sz ec' \<and> n \<le> num_free_slots ec' \<and> k \<le> length (freeable ec) \<and>
    freeable ec' = drop k (freeable ec) \<and> freed ec' = freed ec @ map fst (take k (freeable ec)) \<and>
    num_freeable_slots ec' = num_freeable_slots ec \<and> cache_size ec' = cache_size ec \<and> num_free_slots ec \<le> num_free_slots ec' \<and>
    dget (cached ec') = dget (cached ec) |` (- set (map fst (take k (freeable ec)))) \<and>
    (\<forall>j < k. num_free_slots ec + sum_list (map snd (take j (freeable ec))) < n)"
  using assms(1,2)
proof (induction "freeable ec" arbitrary: ec)
  case Nil
  then have "n \<le> num_free_slots ec" using enc_okD(4) [of sz ec] by simp
  then show ?case using Nil by (intro exI [of _ 0] exI [of _ ec]) (simp add: reclaim.simps [of n ec] restrict_map_def)
next
  case (Cons hn rest)
  obtain h m where hn: "hn = (h, m)" by fastforce
  show ?case
  proof (cases "n \<le> num_free_slots ec")
    case True
    then show ?thesis using Cons by (intro exI [of _ 0] exI [of _ ec]) (simp add: reclaim.simps [of n ec] restrict_map_def)
  next
    case False
    define ec1 where "ec1 = ec\<lparr>freeable := rest, cached := ddel h (cached ec), freed := freed ec @ [h], num_free_slots := num_free_slots ec + m\<rparr>"
    note P = enc_ok_pop [OF Cons.prems(1) Cons.hyps(2) [symmetric, unfolded hn] pos]
    have step: "reclaim n ec = reclaim n ec1"
      using False Cons.hyps(2) hn P(2) by (simp add: reclaim.simps [of n ec] ec1_def flip: Cons.hyps(2))
    obtain k ec' where k: "reclaim n ec1 = Inr ec'" "enc_ok sz ec'" "n \<le> num_free_slots ec'" "k \<le> length rest"
      "freeable ec' = drop k rest" "freed ec' = freed ec1 @ map fst (take k rest)" "num_freeable_slots ec' = num_freeable_slots ec1"
      "cache_size ec' = cache_size ec1" "num_free_slots ec1 \<le> num_free_slots ec'"
      "dget (cached ec') = dget (cached ec1) |` (- set (map fst (take k rest)))"
      "\<forall>j < k. num_free_slots ec1 + sum_list (map snd (take j rest)) < n"
      using Cons.hyps(1) [of ec1] P(3) [of "freed ec @ [h]"] Cons.prems(2) by (auto simp: ec1_def)
    have "dget (cached ec') = dget (cached ec) |` (- set (map fst (take (Suc k) (freeable ec))))"
      unfolding k(10) by (auto simp: ec1_def hn restrict_map_def fun_eq_iff simp flip: Cons.hyps(2))
    moreover have "num_free_slots ec + sum_list (map snd (take j (freeable ec))) < n" if "j < Suc k" for j
      using that k(11) False by (cases j) (auto simp: ec1_def hn add.assoc simp flip: Cons.hyps(2))
    moreover have "num_free_slots ec \<le> num_free_slots ec'" using k(9) P(1) pos [of h] by (simp add: ec1_def)
    ultimately show ?thesis using k step
      by (intro exI [of _ "Suc k"] exI [of _ ec']) (simp add: ec1_def hn flip: Cons.hyps(2))
  qed
qed

lemma forget_input_fields [simp]:
  "cached (forget_input rid i ec) = cached ec" "freeable (forget_input rid i ec) = freeable ec"
  "num_free_slots (forget_input rid i ec) = num_free_slots ec" "num_freeable_slots (forget_input rid i ec) = num_freeable_slots ec"
  "cache_size (forget_input rid i ec) = cache_size ec" "freed (forget_input rid i ec) = freed ec"
  by (auto simp: forget_input_def Let_def split: option.splits)

lemma free_input_ok:
  assumes ok: "enc_ok sz ec" and v: "valid_input r i" and sz: "sized sz r"
  defines "h \<equiv> hash_of r i"
  shows "\<exists>ec'. free_encoder_input r i ec = Inr ec' \<and> enc_ok sz ec' \<and> cache_size ec' = cache_size ec \<and>
    num_free_slots ec' = num_free_slots ec \<and> freed ec' = freed ec \<and>
    request_cached_ids ec' = request_cached_ids (forget_input (request_id r) i ec) \<and>
    dget (cached ec') = (dget (cached ec))(h := map_option (removeAll (request_id r)) (dget (cached ec) h))"
proof -
  note D = enc_okD [OF ok]
  note ix = valid_input_index [OF v] hash_of_def [of r i, folded h_def, symmetric] embeds_sized [OF sz v, folded h_def]
  define ec1 where "ec1 = forget_input (request_id r) i ec"
  have ok1: "enc_ok sz ec1" using ok by (simp add: enc_ok_def ec1_def)
  define refs where "refs = dget_default (cached ec) h []"
  show ?thesis
  proof (cases "refs = []")
    case True
    then have "free_encoder_input r i ec = Inr ec1" using ix by (simp add: free_encoder_input_def Let_def refs_def ec1_def)
    moreover have "map_option (removeAll (request_id r)) (dget (cached ec) h) = dget (cached ec) h"
      using True by (cases "dget (cached ec) h") (auto simp: refs_def dget_default_def)
    ultimately show ?thesis using ok1 by (simp add: ec1_def fun_upd_idem)
  next
    case False
    then have c: "dget (cached ec) h = Some refs" by (cases "dget (cached ec) h") (auto simp: refs_def)
    have dom: "insert h (dom (dget (cached ec))) = dom (dget (cached ec))" using c by auto
    define refs' where "refs' = removeAll (request_id r) refs"
    define ec2 where "ec2 = ec1\<lparr>cached := dset h refs' (cached ec1)\<rparr>"
    have fr: "dget (freeable ec) h = None" using D(2) [of h] c False by (cases "dget (freeable ec) h") auto
    define ec' where "ec' = (if refs' = [] then ec2\<lparr>freeable := dset h (sz h) (freeable ec2), num_freeable_slots := num_freeable_slots ec2 + sz h\<rparr> else ec2)"
    have run: "free_encoder_input r i ec = Inr ec'"
      using False ix by (simp add: free_encoder_input_def Let_def refs_def ec1_def ec2_def refs'_def ec'_def)
    have c': "dget (cached ec') = (dget (cached ec))(h \<mapsto> refs')" by (simp add: ec'_def ec2_def ec1_def)
    have "(\<Sum>x \<in> insert h (dom (dget (freeable ec))). sz x) = sz h + (\<Sum>x \<in> dom (dget (freeable ec)). sz x)"
      using fr by (intro sum.insert) (auto simp: finite_dom_map_of)
    then have "enc_ok sz ec'"
      using D fr dom c False unfolding enc_ok_def c' by (auto simp: ec'_def ec2_def ec1_def simp del: map_of_eq_Some_iff)
    then show ?thesis using run c' c by (auto simp: ec'_def ec2_def ec1_def refs'_def)
  qed
qed


lemma referenced_not_freeable:
  assumes "enc_ok sz ec" "dget (cached ec) h = Some refs" "refs \<noteq> []"
  shows "h \<notin> set (map fst (take k (freeable ec)))"
proof
  assume "h \<in> set (map fst (take k (freeable ec)))"
  then have "h \<in> set (dkeys (freeable ec))" by (metis in_set_takeD take_map)
  then obtain m where "dget (freeable ec) h = Some m" by (metis dget_None_iff option.exhaust)
  with enc_okD(2) [OF assms(1)] assms(2,3) show False by simp
qed

lemma can_allocate_ok:
  fixes budget sched :: int
  assumes ok: "enc_ok sz ec" and v: "valid_input r i" and sz: "sized sz r" and pos: "\<And>k. 0 \<le> sz k"
  defines "n \<equiv> sz (hash_of r i)"
  defines "fits \<equiv> n \<le> budget \<and> n + sched \<le> num_freeable_slots ec"
  shows "\<exists>k ec'. can_allocate r i budget sched ec = Inr (fits, ec') \<and> enc_ok sz ec' \<and> k \<le> length (freeable ec) \<and>
    freeable ec' = drop k (freeable ec) \<and> freed ec' = freed ec @ map fst (take k (freeable ec)) \<and>
    num_freeable_slots ec' = num_freeable_slots ec \<and> cache_size ec' = cache_size ec \<and> num_free_slots ec \<le> num_free_slots ec' \<and>
    dget (cached ec') = dget (cached ec) |` (- set (map fst (take k (freeable ec)))) \<and>
    (fits \<longrightarrow> n + sched \<le> num_free_slots ec') \<and> (\<not> fits \<longrightarrow> ec' = ec) \<and>
    (\<forall>j < k. num_free_slots ec + sum_list (map snd (take j (freeable ec))) < n + sched)"
proof -
  note em = embeds_sized [OF sz v, folded n_def]
  have "0 \<le> (\<Sum>x \<in> dom (dget (freeable ec)). sz x)" using pos by (intro sum_nonneg) auto
  then have le: "num_free_slots ec \<le> num_freeable_slots ec" using enc_okD(4) [OF ok] by simp
  show ?thesis
  proof (cases "n \<le> budget \<and> num_free_slots ec < n + sched \<and> n + sched \<le> num_freeable_slots ec")
    case True
    then have "fits" by (simp add: fits_def)
    with True reclaim_ok [OF ok _ pos, of "n + sched"] em show ?thesis by (auto simp: can_allocate_def Let_def)
  next
    case False
    then have "can_allocate r i budget sched ec = Inr (fits, ec)"
      using em le by (auto simp: can_allocate_def Let_def fits_def)
    then show ?thesis using ok False le by (intro exI [of _ 0] exI [of _ ec]) (auto simp: restrict_map_def fits_def)
  qed
qed

lemma forget_input_ids:
  "dget_default (request_cached_ids (forget_input rid i ec)) rid [] = removeAll i (dget_default (request_cached_ids ec) rid [])"
  by (auto simp: forget_input_def Let_def split: option.splits)

lemma free_inputs_ok:
  assumes "enc_ok sz ec" "\<forall>i \<in> set ids. valid_input r i" and sz: "sized sz r"
  shows "\<exists>ec'. efold (free_encoder_input r) ids ec = Inr ec' \<and> enc_ok sz ec' \<and> cache_size ec' = cache_size ec \<and>
    num_free_slots ec' = num_free_slots ec \<and> freed ec' = freed ec \<and>
    get_cached_input_ids r ec' = filter (\<lambda>i. i \<notin> set ids) (get_cached_input_ids r ec) \<and>
    (\<forall>h. dget (cached ec') h = (if h \<in> hash_of r ` set ids then map_option (removeAll (request_id r)) (dget (cached ec) h)
       else dget (cached ec) h))"
  using assms(1,2)
proof (induction ids arbitrary: ec)
  case (Cons i ids)
  from free_input_ok [OF Cons.prems(1) _ sz, of i] Cons.prems(2) obtain ec1 where
    e1: "free_encoder_input r i ec = Inr ec1" "enc_ok sz ec1" "cache_size ec1 = cache_size ec"
      "num_free_slots ec1 = num_free_slots ec" "freed ec1 = freed ec"
      "request_cached_ids ec1 = request_cached_ids (forget_input (request_id r) i ec)"
      "dget (cached ec1) = (dget (cached ec))(hash_of r i := map_option (removeAll (request_id r)) (dget (cached ec) (hash_of r i)))"
    by auto
  have g: "get_cached_input_ids r ec1 = removeAll i (get_cached_input_ids r ec)"
    by (simp add: get_cached_input_ids_def e1(6) forget_input_ids)
  have rr: "map_option (removeAll (request_id r)) (map_option (removeAll (request_id r)) z) = map_option (removeAll (request_id r)) z" for z
    by (cases z) (auto simp: removeAll_filter_not_eq)
  from Cons.IH [OF e1(2)] Cons.prems(2) obtain ec' where
    "efold (free_encoder_input r) ids ec1 = Inr ec'" "enc_ok sz ec'" "cache_size ec' = cache_size ec1"
    "num_free_slots ec' = num_free_slots ec1" "freed ec' = freed ec1"
    "get_cached_input_ids r ec' = filter (\<lambda>i. i \<notin> set ids) (get_cached_input_ids r ec1)"
    "\<forall>h. dget (cached ec') h = (if h \<in> hash_of r ` set ids then map_option (removeAll (request_id r)) (dget (cached ec1) h)
       else dget (cached ec1) h)" by auto
  moreover from this(7) have "\<forall>h. dget (cached ec') h = (if h \<in> hash_of r ` set (i # ids) then map_option (removeAll (request_id r)) (dget (cached ec) h)
       else dget (cached ec) h)" using e1(7) rr by auto
  moreover have "filter (\<lambda>i. i \<notin> set ids) (removeAll i (get_cached_input_ids r ec)) = filter (\<lambda>j. j \<notin> set (i # ids)) (get_cached_input_ids r ec)"
    by (auto simp: removeAll_filter_not_eq intro: filter_cong)
  ultimately show ?case using e1 g by simp
qed simp


section \<open>Reachable caches\<close>

inductive enc_step :: "(string \<Rightarrow> int) \<Rightarrow> encoder_cache \<Rightarrow> encoder_cache \<Rightarrow> bool" for sz where
  step_check: "valid_input r i \<Longrightarrow> check_and_update_cache r i ec = Inr (hit, ec') \<Longrightarrow> enc_step sz ec ec'"
| step_can_allocate: "valid_input r i \<Longrightarrow> sized sz r \<Longrightarrow> can_allocate r i budget sched ec = Inr (fits, ec') \<Longrightarrow> enc_step sz ec ec'"
| step_allocate: "valid_input r i \<Longrightarrow> sized sz r \<Longrightarrow> dget (cached ec) (hash_of r i) = None \<Longrightarrow>
    allocate r i ec = Inr ec' \<Longrightarrow> enc_step sz ec ec'"
| step_free_input: "valid_input r i \<Longrightarrow> sized sz r \<Longrightarrow> free_encoder_input r i ec = Inr ec' \<Longrightarrow> enc_step sz ec ec'"
| step_free_request: "(\<And>i. i \<in> set (ord (get_cached_input_ids r ec)) \<Longrightarrow> valid_input r i) \<Longrightarrow> sized sz r \<Longrightarrow>
    free_request ord r ec = Inr ec' \<Longrightarrow> enc_step sz ec ec'"
| step_get_freed: "get_freed_mm_hashes ec = (hs, ec') \<Longrightarrow> enc_step sz ec ec'"
| step_reset: "enc_step sz ec (enc_reset ec)"

inductive enc_reach :: "(string \<Rightarrow> int) \<Rightarrow> int \<Rightarrow> encoder_cache \<Rightarrow> bool" for sz n where
  enc_reach_init: "0 \<le> n \<Longrightarrow> enc_reach sz n (enc_init n)"
| enc_reach_step: "enc_reach sz n ec \<Longrightarrow> enc_step sz ec ec' \<Longrightarrow> enc_reach sz n ec'"

lemma enc_step_ok:
  assumes "enc_step sz ec ec'" "enc_ok sz ec" "0 \<le> cache_size ec" and pos: "\<And>k. 0 \<le> sz k"
  shows "enc_ok sz ec' \<and> cache_size ec' = cache_size ec"
  using assms(1-3)
proof (induction rule: enc_step.induct)
  case (step_check r i ec hit ec')
  then show ?case using check_ok [of sz ec r i] by auto
next
  case (step_can_allocate r i budget sched ec fits ec')
  then show ?case using can_allocate_ok [OF step_can_allocate(4,1,2) pos, of budget sched] by auto
next
  case (step_allocate r i ec ec')
  have "sz (hash_of r i) \<le> num_free_slots ec"
    using step_allocate(4) valid_input_index [OF step_allocate(1)] embeds_sized [OF step_allocate(2,1)]
    by (auto simp: allocate_def Let_def split: if_splits)
  then show ?case using allocate_ok [OF step_allocate(5,1,2,3) _ pos] step_allocate(4) by auto
next
  case (step_free_input r i ec ec')
  then show ?case using free_input_ok [of sz ec r i] by auto
next
  case (step_free_request ord r ec ec')
  then show ?case using free_inputs_ok [of sz ec "ord (get_cached_input_ids r ec)" r] by (auto simp: free_request_def)
next
  case (step_get_freed ec hs ec')
  then show ?case by (auto simp: get_freed_mm_hashes_def enc_ok_def)
next
  case (step_reset ec)
  then show ?case using enc_reset_ok [of sz ec] by (simp add: enc_reset_def)
qed

lemma enc_reach_ok: "enc_reach sz n ec \<Longrightarrow> (\<And>k. 0 \<le> sz k) \<Longrightarrow> enc_ok sz ec \<and> cache_size ec = n \<and> 0 \<le> n"
proof (induction rule: enc_reach.induct)
  case enc_reach_init
  then show ?case by (simp add: enc_init_ok) (simp add: enc_init_def)
next
  case (enc_reach_step ec ec')
  then show ?case using enc_step_ok [of sz ec ec'] by simp
qed


section \<open>Properties\<close>

text \<open>
  C29. In every reachable encoder cache the slot counters are exact: the free slots are the capacity minus the embeddings of all
  entries, the freeable slots are the capacity minus those of the referenced entries, both are within the capacity,
  and the entries up for eviction are exactly the unreferenced ones.
\<close>

theorem encoder_cache_accounting:
  assumes "enc_reach sz n ec" "\<forall>k. 0 \<le> sz k"
  shows "num_free_slots ec = n - (\<Sum>h \<in> dom (dget (cached ec)). sz h) \<and>
    num_freeable_slots ec = n - (\<Sum>h \<in> {h. \<exists>refs. dget (cached ec) h = Some refs \<and> refs \<noteq> []}. sz h) \<and>
    0 \<le> num_free_slots ec \<and> num_free_slots ec \<le> num_freeable_slots ec \<and> num_freeable_slots ec \<le> n \<and>
    set (dkeys (freeable ec)) = {h. dget (cached ec) h = Some []}"
proof -
  have ok: "enc_ok sz ec" "cache_size ec = n" using enc_reach_ok [OF assms(1)] assms(2) by auto
  note D = enc_okD [OF ok(1)]
  have fr: "dom (dget (freeable ec)) = {h. dget (cached ec) h = Some []}"
    using D(2) by (auto simp: dom_def simp del: map_of_eq_Some_iff)
  define U where "U = {h. \<exists>refs. dget (cached ec) h = Some refs \<and> refs \<noteq> []}"
  have "dom (dget (cached ec)) = U \<union> dom (dget (freeable ec))" "U \<inter> dom (dget (freeable ec)) = {}"
    unfolding fr by (auto simp: U_def)
  moreover have "finite (dom (dget (cached ec)))" by (rule finite_dom_map_of)
  ultimately have sum: "(\<Sum>h \<in> dom (dget (cached ec)). sz h) = (\<Sum>h \<in> U. sz h) + (\<Sum>h \<in> dom (dget (freeable ec)). sz h)"
    by (metis finite_Un sum.union_disjoint)
  have nn: "0 \<le> (\<Sum>h \<in> A. sz h)" for A using assms(2) by (intro sum_nonneg) auto
  have "set (dkeys (freeable ec)) = dom (dget (freeable ec))" by (simp add: dom_map_of_conv_image_fst)
  then show ?thesis using D(3-5) ok(2) sum nn [of U] nn [of "dom (dget (freeable ec))"] fr unfolding U_def [symmetric] by auto
qed

definition demo_mm_request :: "string \<Rightarrow> (string \<times> int) list \<Rightarrow> request" where
  "demo_mm_request rid inputs =
     init_request 0 rid (Some []) None None 0 None
       (map (\<lambda>(h, n). \<lparr>mm_identifier = h, mm_position = \<lparr>offset = 0, plen = n, is_embed = None\<rparr>\<rparr>) inputs) None None 0 False 1 WAITING 0"

lemma demo_mm_fields [simp]:
  "request_id (demo_mm_request rid inputs) = rid"
  "mm_features (demo_mm_request rid inputs) =
     map (\<lambda>(h, n). \<lparr>mm_identifier = h, mm_position = \<lparr>offset = 0, plen = n, is_embed = None\<rparr>\<rparr>) inputs"
  by (simp_all add: demo_mm_request_def init_request_def)

definition demo_sz :: "string \<Rightarrow> int" where
  "demo_sz h = int (length h)"

lemma demo_sized: "\<forall>(h, n) \<in> set inputs. n = demo_sz h \<Longrightarrow> sized demo_sz (demo_mm_request rid inputs)"
  by (auto simp: sized_def get_num_embeds_def embeds_cumsum_def)

theorem encoder_cache_accounting_witness:
  "\<exists>ec. allocate (demo_mm_request ''r'' [(''abc'', 3)]) 0 (enc_init 8) = Inr ec \<and>
    num_freeable_slots ec = 8 - (\<Sum>h \<in> {h. \<exists>refs. dget (cached ec) h = Some refs \<and> refs \<noteq> []}. demo_sz h)"
proof -
  let ?r = "demo_mm_request ''r'' [(''abc'', 3)]"
  have r: "valid_input ?r 0" "sized demo_sz ?r" "hash_of ?r 0 = ''abc''"
    by (auto simp: valid_input_def hash_of_def demo_sz_def intro!: demo_sized)
  have pos: "0 \<le> demo_sz k" for k by (simp add: demo_sz_def)
  obtain ec where ec: "allocate ?r 0 (enc_init 8) = Inr ec"
    using allocate_ok [OF enc_init_ok r(1,2), of 8] pos r(3) by (auto simp: enc_init_def demo_sz_def)
  have "enc_reach demo_sz 8 ec"
    using enc_reach_step [OF enc_reach_init step_allocate [OF r(1,2) _ ec]] by (simp add: enc_init_def)
  from encoder_cache_accounting [OF this] pos ec show ?thesis by auto
qed

text \<open>
  C30. Whether an encoder input may be computed is decided exactly: it fits when it is within the compute budget and, together
  with the embeddings already scheduled, within the slots that are free or can be reclaimed. When it fits, that many slots
  are free afterwards, made by evicting the oldest unreferenced entries and no more of them than needed; no referenced entry is evicted.
  When it does not fit nothing changes.
\<close>

theorem can_allocate_exact:
  fixes budget sched :: int
  assumes "enc_ok sz ec" "valid_input r i" "sized sz r" "\<forall>k. 0 \<le> sz k"
  defines "n \<equiv> sz (hash_of r i)"
  defines "fits \<equiv> n \<le> budget \<and> n + sched \<le> num_freeable_slots ec"
  shows "\<exists>k ec'. can_allocate r i budget sched ec = Inr (fits, ec') \<and> enc_ok sz ec' \<and>
    freed ec' = freed ec @ map fst (take k (freeable ec)) \<and>
    dget (cached ec') = dget (cached ec) |` (- set (map fst (take k (freeable ec)))) \<and>
    (\<forall>h refs. dget (cached ec) h = Some refs \<and> refs \<noteq> [] \<longrightarrow> dget (cached ec') h = Some refs) \<and>
    (fits \<longrightarrow> n + sched \<le> num_free_slots ec' \<and> (\<forall>j < k. num_free_slots ec + sum_list (map snd (take j (freeable ec))) < n + sched)) \<and>
    (\<not> fits \<longrightarrow> ec' = ec)"
proof -
  obtain k ec' where k: "can_allocate r i budget sched ec = Inr (fits, ec')" "enc_ok sz ec'"
    "freed ec' = freed ec @ map fst (take k (freeable ec))"
    "dget (cached ec') = dget (cached ec) |` (- set (map fst (take k (freeable ec))))"
    "fits \<longrightarrow> n + sched \<le> num_free_slots ec'" "\<not> fits \<longrightarrow> ec' = ec"
    "\<forall>j < k. num_free_slots ec + sum_list (map snd (take j (freeable ec))) < n + sched"
    using can_allocate_ok [OF assms(1-3), of budget sched] assms(4) unfolding n_def [symmetric] fits_def [symmetric] by blast
  have "dget (cached ec') h = Some refs" if "dget (cached ec) h = Some refs" "refs \<noteq> []" for h refs
    using that referenced_not_freeable [OF assms(1) that] by (simp add: k(4))
  with k show ?thesis by blast
qed


theorem can_allocate_exact_witness:
  "\<exists>ec'. can_allocate (demo_mm_request ''q'' [(''xy'', 2)]) 0 5 0
      \<lparr>cache_size = 4, num_free_slots = 1, num_freeable_slots = 4, cached = [(''abc'', [])], request_cached_ids = [],
       freeable = [(''abc'', 3)], freed = []\<rparr> = Inr (True, ec') \<and> 2 \<le> num_free_slots ec'"
proof -
  let ?r = "demo_mm_request ''q'' [(''xy'', 2)]"
  let ?ec = "\<lparr>cache_size = 4, num_free_slots = 1, num_freeable_slots = 4, cached = [(''abc'', [])], request_cached_ids = [],
       freeable = [(''abc'', 3)], freed = []\<rparr>"
  have r: "valid_input ?r 0" "sized demo_sz ?r" "hash_of ?r 0 = ''xy''"
    by (auto simp: valid_input_def hash_of_def demo_sz_def intro!: demo_sized)
  have ok: "enc_ok demo_sz ?ec" by (auto simp: enc_ok_def demo_sz_def)
  have sz: "demo_sz (hash_of ?r 0) = 2" "\<forall>k. 0 \<le> demo_sz k" by (simp_all add: r(3) demo_sz_def)
  from can_allocate_exact [OF ok r(1,2) sz(2), of 5 0] show ?thesis unfolding sz(1) by auto
qed

text \<open>
  C31. An encoder output is shared: once allocated for one request, another request with the same input finds it; it stays referenced
  until both have freed it; then it may be evicted, but until then it is still found.
\<close>

theorem encoder_entry_lifecycle:
  assumes "enc_ok sz ec" "valid_input r i" "sized sz r" "valid_input s j" "sized sz s" "\<forall>k. 0 \<le> sz k"
    "hash_of s j = hash_of r i" "request_id s \<noteq> request_id r"
    "dget (cached ec) (hash_of r i) = None" "sz (hash_of r i) \<le> num_free_slots ec"
  shows "\<exists>ec1 ec2 ec3 ec4 ec5. allocate r i ec = Inr ec1 \<and> check_and_update_cache s j ec1 = Inr (True, ec2) \<and>
    free_encoder_input r i ec2 = Inr ec3 \<and> dget (cached ec3) (hash_of r i) = Some [request_id s] \<and> dget (freeable ec3) (hash_of r i) = None \<and>
    free_encoder_input s j ec3 = Inr ec4 \<and> dget (freeable ec4) (hash_of r i) = Some (sz (hash_of r i)) \<and>
    check_and_update_cache r i ec4 = Inr (True, ec5)"
proof -
  obtain ec1 where e1: "allocate r i ec = Inr ec1" "enc_ok sz ec1" "dget (cached ec1) = (dget (cached ec))(hash_of r i \<mapsto> [request_id r])"
    using allocate_ok [OF assms(1-3,9,10)] assms(6) by blast
  obtain ec2 where e2: "check_and_update_cache s j ec1 = Inr (True, ec2)" "enc_ok sz ec2"
      "dget (cached ec2) (hash_of r i) = Some [request_id r, request_id s]"
    using check_ok [OF e1(2) assms(4)] assms(7,8) e1(3) by (auto simp: set_add_def)
  obtain ec3 where e3: "free_encoder_input r i ec2 = Inr ec3" "enc_ok sz ec3" "dget (cached ec3) (hash_of r i) = Some [request_id s]"
    using free_input_ok [OF e2(2) assms(2,3)] e2(3) assms(8) by auto
  obtain ec4 where e4: "free_encoder_input s j ec3 = Inr ec4" "enc_ok sz ec4" "dget (cached ec4) (hash_of r i) = Some []"
    using free_input_ok [OF e3(2) assms(4,5)] e3(3) assms(7) by auto
  have "dget (freeable ec3) (hash_of r i) = None"
    using enc_okD(2) [OF e3(2), of "hash_of r i"] e3(3) by (cases "dget (freeable ec3) (hash_of r i)") auto
  moreover have "dget (freeable ec4) (hash_of r i) = Some (sz (hash_of r i))" using enc_okD(2) [OF e4(2)] e4(3) by blast
  moreover obtain ec5 where "check_and_update_cache r i ec4 = Inr (True, ec5)" using check_ok [OF e4(2) assms(2)] e4(3) by auto
  ultimately show ?thesis using e1(1) e2(1) e3(1,3) e4(1) by blast
qed

theorem encoder_entry_lifecycle_witness:
  "\<exists>ec1 ec2. allocate (demo_mm_request ''r'' [(''abc'', 3)]) 0 (enc_init 4) = Inr ec1 \<and>
    check_and_update_cache (demo_mm_request ''s'' [(''xy'', 2), (''abc'', 3)]) 1 ec1 = Inr (True, ec2)"
proof -
  let ?r = "demo_mm_request ''r'' [(''abc'', 3)]" and ?s = "demo_mm_request ''s'' [(''xy'', 2), (''abc'', 3)]"
  have r: "valid_input ?r 0" "sized demo_sz ?r" "hash_of ?r 0 = ''abc''" "valid_input ?s 1" "sized demo_sz ?s" "hash_of ?s 1 = ''abc''"
    by (auto simp: valid_input_def hash_of_def demo_sz_def intro!: demo_sized)
  have i: "enc_ok demo_sz (enc_init 4)" by (rule enc_init_ok) simp
  have "\<forall>k. 0 \<le> demo_sz k" "hash_of ?s 1 = hash_of ?r 0" "request_id ?s \<noteq> request_id ?r"
    "dget (cached (enc_init 4)) (hash_of ?r 0) = None" "demo_sz (hash_of ?r 0) \<le> num_free_slots (enc_init 4)"
    by (simp_all add: r(3,6) demo_sz_def enc_init_def)
  from encoder_entry_lifecycle [OF i r(1,2,4,5) this] show ?thesis by blast
qed

end
