(* ===== verification/Encoder_Schedule.thy ===== *)
theory Encoder_Schedule
  imports Encoder_Cache Block_Hash "HOL-Library.Multiset"
begin

text \<open>
  How the scheduler uses the encoder cache: \<^verbatim>\<open>_try_schedule_encoder_inputs\<close> and \<^verbatim>\<open>_free_encoder_inputs\<close> of
  \<^verbatim>\<open>vllm/v1/core/sched/scheduler.py\<close>, \<^verbatim>\<open>get_mm_features_in_window\<close> of \<^verbatim>\<open>vllm/multimodal/utils.py\<close>, and what
  \<^verbatim>\<open>_gather_mm_embeddings\<close> of \<^verbatim>\<open>vllm/v1/worker/gpu_model_runner.py\<close> looks up for one request. The remote encoder cache
  (the \<^verbatim>\<open>ECConnector\<close>) is a parameter that tells which inputs it holds.
\<close>

section \<open>The inputs that overlap a range of tokens\<close>

text \<open>Python's \<^verbatim>\<open>bisect.bisect_left(a, x, key=key)\<close>.\<close>

function bisect_loop :: "('a \<Rightarrow> int) \<Rightarrow> 'a list \<Rightarrow> int \<Rightarrow> nat \<Rightarrow> nat \<Rightarrow> nat" where
  "bisect_loop key a x lo hi =
     (if lo < hi then
        (let mid = (lo + hi) div 2 in
         if key (a ! mid) < x then bisect_loop key a x (mid + 1) hi else bisect_loop key a x lo mid)
      else lo)"
  by pat_completeness auto
termination by (relation "measure (\<lambda>(key, a, x, lo, hi). hi - lo)") auto

declare bisect_loop.simps [simp del]

definition bisect_left :: "('a \<Rightarrow> int) \<Rightarrow> 'a list \<Rightarrow> int \<Rightarrow> nat" where
  "bisect_left key a x = bisect_loop key a x 0 (length a)"

definition get_mm_features_in_window :: "mm_feature list \<Rightarrow> int \<Rightarrow> int \<Rightarrow> nat \<times> nat" where
  "get_mm_features_in_window feats start end' =
     (bisect_left (\<lambda>f. offset (mm_position f) + plen (mm_position f)) feats (start + 1),
      bisect_left (\<lambda>f. offset (mm_position f)) feats end')"


section \<open>Either manager\<close>

datatype enc_manager = MMCache encoder_cache | EncDecCache encdec_cache

fun mgr_check :: "request \<Rightarrow> int \<Rightarrow> enc_manager \<Rightarrow> (bool \<times> enc_manager) result" where
  "mgr_check r i (MMCache ec) = ebind (check_and_update_cache r i ec) (\<lambda>(b, ec'). Inr (b, MMCache ec'))"
| "mgr_check r i (EncDecCache ec) = Inr (False, EncDecCache ec)"

fun mgr_can_allocate :: "request \<Rightarrow> int \<Rightarrow> int \<Rightarrow> int \<Rightarrow> enc_manager \<Rightarrow> (bool \<times> enc_manager) result" where
  "mgr_can_allocate r i budget sched (MMCache ec) =
     ebind (can_allocate r i budget sched ec) (\<lambda>(b, ec'). Inr (b, MMCache ec'))"
| "mgr_can_allocate r i budget sched (EncDecCache ec) =
     ebind (ed_can_allocate r i budget sched ec) (\<lambda>b. Inr (b, EncDecCache ec))"

fun mgr_allocate :: "request \<Rightarrow> int \<Rightarrow> enc_manager \<Rightarrow> enc_manager result" where
  "mgr_allocate r i (MMCache ec) = ebind (allocate r i ec) (\<lambda>ec'. Inr (MMCache ec'))"
| "mgr_allocate r i (EncDecCache ec) = ebind (ed_allocate r i ec) (\<lambda>ec'. Inr (EncDecCache ec'))"

fun mgr_get_cached_input_ids :: "request \<Rightarrow> enc_manager \<Rightarrow> int list" where
  "mgr_get_cached_input_ids r (MMCache ec) = get_cached_input_ids r ec"
| "mgr_get_cached_input_ids r (EncDecCache ec) = ed_get_cached_input_ids r"

fun mgr_free_encoder_input :: "request \<Rightarrow> int \<Rightarrow> enc_manager \<Rightarrow> enc_manager result" where
  "mgr_free_encoder_input r i (MMCache ec) = ebind (free_encoder_input r i ec) (\<lambda>ec'. Inr (MMCache ec'))"
| "mgr_free_encoder_input r i (EncDecCache ec) = ebind (ed_free_encoder_input r i ec) (\<lambda>ec'. Inr (EncDecCache ec'))"


section \<open>Scheduling encoder inputs\<close>

record enc_config =
  is_encoder_decoder :: bool
  no_chunked_mm :: bool
  use_eagle :: bool
  has_cache_item :: "(string \<Rightarrow> bool) option"

record enc_sched =
  to_schedule :: "int list"
  new_tokens :: int
  compute_budget :: int
  external_load :: "int list"
  hashes_to_schedule :: "string list"
  embeds_to_schedule :: int
  mgr :: enc_manager

text \<open>The last part of the loop's body: the input is computed here, loaded from the remote cache, or not needed yet.\<close>

definition admit_input :: "enc_config \<Rightarrow> mm_feature \<Rightarrow> int \<Rightarrow> int \<Rightarrow> enc_sched \<Rightarrow> enc_sched result" where
  "admit_input cfg f computed i st =
     (let pos = mm_position f; start_pos = offset pos;
          start_idx_rel = max 0 (computed - start_pos);
          end_idx_rel = min (plen pos) (computed + new_tokens st - start_pos);
          num_encoder_embeds = get_num_embeds pos in
      ebind (get_embeds_indices_in_range pos start_idx_rel end_idx_rel) (\<lambda>(cur_embeds_start, cur_embeds_end).
      Inr (if cur_embeds_end - cur_embeds_start = 0 then st
           else if (case has_cache_item cfg of None \<Rightarrow> False | Some has \<Rightarrow> has (mm_identifier f)) then
             st\<lparr>hashes_to_schedule := set_add (mm_identifier f) (hashes_to_schedule st),
                external_load := external_load st @ [i], embeds_to_schedule := embeds_to_schedule st + num_encoder_embeds\<rparr>
           else
             st\<lparr>embeds_to_schedule := embeds_to_schedule st + num_encoder_embeds,
                compute_budget := compute_budget st - num_encoder_embeds,
                hashes_to_schedule := set_add (mm_identifier f) (hashes_to_schedule st),
                to_schedule := to_schedule st @ [i]\<rparr>)))"

text \<open>One turn of the loop; the flag says that the loop is left.\<close>

definition encoder_turn :: "enc_config \<Rightarrow> request \<Rightarrow> int \<Rightarrow> int \<Rightarrow> int \<Rightarrow> enc_sched \<Rightarrow> (bool \<times> enc_sched) result" where
  "encoder_turn cfg r computed shift i st =
     ebind (py_index (mm_features r) i) (\<lambda>f.
     (let start_pos = offset (mm_position f); num_encoder_tokens = plen (mm_position f) in
      if is_encoder_decoder cfg \<and> computed > 0 then eassert (start_pos = 0) (Inr (False, st))
      else if \<not> is_encoder_decoder cfg \<and> mm_identifier f \<in> set (hashes_to_schedule st) then Inr (False, st)
      else
        ebind (if is_encoder_decoder cfg then Inr (False, mgr st) else mgr_check r i (mgr st)) (\<lambda>(hit, m1).
        if hit then Inr (False, st\<lparr>mgr := m1\<rparr>)
        else if no_chunked_mm cfg \<and> computed < start_pos \<and>
          computed + new_tokens st < start_pos + num_encoder_tokens
        then Inr (True, st\<lparr>mgr := m1, new_tokens := max 0 (start_pos - (computed + shift))\<rparr>)
        else
          ebind (mgr_can_allocate r i (compute_budget st) (embeds_to_schedule st) m1) (\<lambda>(fits, m2).
          if \<not> fits
          then Inr (True, st\<lparr>mgr := m2,
                 new_tokens := (if computed + shift < start_pos
                   then start_pos - (computed + shift) else 0)\<rparr>)
          else ebind (admit_input cfg f computed i (st\<lparr>mgr := m2\<rparr>)) (\<lambda>st'. Inr (False, st'))))))"

fun encoder_loop :: "enc_config \<Rightarrow> request \<Rightarrow> int \<Rightarrow> int \<Rightarrow> int list \<Rightarrow> enc_sched \<Rightarrow> enc_sched result" where
  "encoder_loop cfg r computed shift [] st = Inr st"
| "encoder_loop cfg r computed shift (i # is) st =
     ebind (encoder_turn cfg r computed shift i st) (\<lambda>(leave, st').
     if leave then Inr st' else encoder_loop cfg r computed shift is st')"

definition try_schedule_encoder_inputs ::
    "enc_config \<Rightarrow> request \<Rightarrow> int \<Rightarrow> int \<Rightarrow> int \<Rightarrow> int \<Rightarrow> enc_manager \<Rightarrow> enc_sched result" where
  "try_schedule_encoder_inputs cfg r computed num_new_tokens encoder_compute_budget shift m =
     (let st = \<lparr>to_schedule = [], new_tokens = num_new_tokens, compute_budget = encoder_compute_budget, external_load = [],
              hashes_to_schedule = [], embeds_to_schedule = 0, mgr = m\<rparr> in
      if num_new_tokens = 0 \<or> \<not> num_encoder_inputs r > 0 then Inr st
      else
        (case get_mm_features_in_window (mm_features r) computed (computed + num_new_tokens + shift) of
           (lo, hi) \<Rightarrow> encoder_loop cfg r computed shift [(if is_encoder_decoder cfg then 0 else int lo)..int hi - 1] st))"

text \<open>What \<^verbatim>\<open>schedule\<close> does with the result: cache space is taken for the inputs to compute and to load.\<close>

definition allocate_scheduled :: "request \<Rightarrow> enc_sched \<Rightarrow> enc_manager result" where
  "allocate_scheduled r st =
     ebind (efold (mgr_allocate r) (to_schedule st) (mgr st)) (efold (mgr_allocate r) (external_load st))"


section \<open>Freeing encoder inputs after a step\<close>

definition free_encoder_inputs :: "enc_config \<Rightarrow> (int list \<Rightarrow> int list) \<Rightarrow> request \<Rightarrow> enc_manager \<Rightarrow> enc_manager result" where
  "free_encoder_inputs cfg ord r m =
     (let ids = mgr_get_cached_input_ids r m; spec_lookahead = (if use_eagle cfg then 1 else 0) in
      if ids = [] then Inr m
      else
        efold (\<lambda>input_id m.
          ebind (py_index (mm_features r) input_id) (\<lambda>f.
          (let start_pos = offset (mm_position f); n = plen (mm_position f) in
           if is_encoder_decoder cfg \<and> num_computed_tokens r > 0 then mgr_free_encoder_input r input_id m
           else if start_pos + n + spec_lookahead \<le> num_computed_tokens r - num_output_placeholders r
           then mgr_free_encoder_input r input_id m
           else Inr m))) (ord ids) m)"


section \<open>What the model runner looks up\<close>

text \<open>
  The inputs of one request whose outputs the runner reads for the tokens from \<open>num_computed + shift\<close> on; \<open>have h\<close> says whether the
  output is in the runner's cache. A missing output raises, unless only the look-ahead reaches its input.
\<close>

definition gather_turn :: "request \<Rightarrow> (string \<Rightarrow> bool) \<Rightarrow> int \<Rightarrow> int \<Rightarrow> int \<Rightarrow> int \<Rightarrow> int list \<Rightarrow> int list result" where
  "gather_turn r have' num_computed shift num_scheduled i acc =
     ebind (py_index (mm_features r) i) (\<lambda>f.
     (let pos = mm_position f; start_pos = offset pos; computed = num_computed + shift;
          start_idx = max (computed - start_pos) 0;
          end_idx = min (computed - start_pos + num_scheduled) (plen pos) in
      eassert (start_idx < end_idx)
      (ebind (get_embeds_indices_in_range pos start_idx end_idx) (\<lambda>(a, b).
       if a = b then Inr acc
       else if \<not> have' (mm_identifier f) then
         (if start_pos \<ge> num_computed + num_scheduled then Inr acc else Inl RuntimeError)
       else Inr (acc @ [i])))))"

definition gather_mm_embeddings :: "request \<Rightarrow> (string \<Rightarrow> bool) \<Rightarrow> int \<Rightarrow> int \<Rightarrow> int \<Rightarrow> int list result" where
  "gather_mm_embeddings r have' num_computed shift num_scheduled =
     (case get_mm_features_in_window (mm_features r) (num_computed + shift) (num_computed + shift + num_scheduled) of
        (lo, hi) \<Rightarrow> efold (gather_turn r have' num_computed shift num_scheduled) [int lo..int hi - 1] [])"



section \<open>The window\<close>

lemma bisect_loop_ok:
  assumes "sorted (map key a)" "lo \<le> hi" "hi \<le> length a" "\<forall>i < lo. key (a ! i) < x" "\<forall>i. hi \<le> i \<and> i < length a \<longrightarrow> x \<le> key (a ! i)"
  shows "lo \<le> bisect_loop key a x lo hi \<and> bisect_loop key a x lo hi \<le> hi \<and>
    (\<forall>i < bisect_loop key a x lo hi. key (a ! i) < x) \<and> (\<forall>i. bisect_loop key a x lo hi \<le> i \<and> i < length a \<longrightarrow> x \<le> key (a ! i))"
  using assms(2-)
proof (induction "hi - lo" arbitrary: lo hi rule: less_induct)
  case less
  show ?case
  proof (cases "lo < hi")
    case True
    define mid where "mid = (lo + hi) div 2"
    have mid: "lo \<le> mid" "mid < hi" using True by (auto simp: mid_def)
    have mono: "key (a ! i) \<le> key (a ! j)" if "i \<le> j" "j < length a" for i j
      using sorted_nth_mono [OF assms(1), of i j] that by simp
    show ?thesis
    proof (cases "key (a ! mid) < x")
      case True
      have "key (a ! i) < x" if "i < mid + 1" for i using mono [of i mid] that mid less.prems(2) True by simp
      then have "\<forall>i < mid + 1. key (a ! i) < x" by blast
      from less.hyps [OF _ _ less.prems(2) this less.prems(4)] mid
      have "mid + 1 \<le> bisect_loop key a x (mid + 1) hi \<and> bisect_loop key a x (mid + 1) hi \<le> hi \<and>
        (\<forall>i < bisect_loop key a x (mid + 1) hi. key (a ! i) < x) \<and>
        (\<forall>i. bisect_loop key a x (mid + 1) hi \<le> i \<and> i < length a \<longrightarrow> x \<le> key (a ! i))" by auto
      moreover have "bisect_loop key a x lo hi = bisect_loop key a x (mid + 1) hi"
        using True \<open>lo < hi\<close> by (simp add: bisect_loop.simps [of key a x lo hi] flip: mid_def)
      ultimately show ?thesis using mid(1) by simp
    next
      case False
      then have "\<forall>i. mid \<le> i \<and> i < length a \<longrightarrow> x \<le> key (a ! i)" using mono [of mid] by fastforce
      from less.hyps [OF _ _ _ less.prems(3) this] mid less.prems(2)
      have "lo \<le> bisect_loop key a x lo mid \<and> bisect_loop key a x lo mid \<le> mid \<and>
        (\<forall>i < bisect_loop key a x lo mid. key (a ! i) < x) \<and>
        (\<forall>i. bisect_loop key a x lo mid \<le> i \<and> i < length a \<longrightarrow> x \<le> key (a ! i))" by auto
      moreover have "bisect_loop key a x lo hi = bisect_loop key a x lo mid"
        using False \<open>lo < hi\<close> by (simp add: bisect_loop.simps [of key a x lo hi] flip: mid_def)
      ultimately show ?thesis using mid(2) by simp
    qed
  next
    case False
    then have "bisect_loop key a x lo hi = lo" by (simp add: bisect_loop.simps [of key a x lo hi])
    with less.prems False show ?thesis by simp
  qed
qed

lemma bisect_left_ok:
  assumes "sorted (map key a)" "i < length a"
  shows "i < bisect_left key a x \<longleftrightarrow> key (a ! i) < x" "bisect_left key a x \<le> length a"
  using bisect_loop_ok [OF assms(1), of 0 "length a" x] assms(2) by (auto simp: bisect_left_def not_less)

definition feats_wf :: "request \<Rightarrow> bool" where
  "feats_wf r \<longleftrightarrow> mm_ordered (mm_features r) \<and>
     (\<forall>f \<in> set (mm_features r). 0 < plen (mm_position f) \<and> (\<forall>bs. is_embed (mm_position f) = Some bs \<longrightarrow> int (length bs) = plen (mm_position f)))"

lemma feats_sorted:
  assumes "mm_ordered feats"
  shows "sorted (map (\<lambda>f. offset (mm_position f) + plen (mm_position f)) feats)" "sorted (map (\<lambda>f. offset (mm_position f)) feats)"
proof -
  have o: "sorted_wrt (\<lambda>f g. feat_end f \<le> feat_offset g) feats" "\<forall>f \<in> set feats. feat_offset f \<le> feat_end f"
    using assms by (auto simp: mm_ordered_def list_all_iff)
  have "sorted_wrt (\<lambda>f g. feat_end f \<le> feat_end g) feats" "sorted_wrt (\<lambda>f g. feat_offset f \<le> feat_offset g) feats"
    by (rule sorted_wrt_mono_rel [OF _ o(1)], use o(2) in force)+
  then show "sorted (map (\<lambda>f. offset (mm_position f) + plen (mm_position f)) feats)" "sorted (map (\<lambda>f. offset (mm_position f)) feats)"
    by (simp_all add: sorted_map feat_end_def feat_offset_def)
qed

lemma window_iff:
  assumes "mm_ordered (mm_features r)" "get_mm_features_in_window (mm_features r) a b = (lo, hi)"
  shows "i \<in> set [int lo..int hi - 1] \<longleftrightarrow>
    valid_input r i \<and> a < feat_end (mm_features r ! nat i) \<and> feat_offset (mm_features r ! nat i) < b"
proof -
  note so = feats_sorted [OF assms(1)]
  have lo: "lo = bisect_left (\<lambda>f. offset (mm_position f) + plen (mm_position f)) (mm_features r) (a + 1)"
    and hi: "hi = bisect_left (\<lambda>f. offset (mm_position f)) (mm_features r) b"
    using assms(2) by (auto simp: get_mm_features_in_window_def)
  have len: "hi \<le> length (mm_features r)"
    using bisect_loop_ok [OF so(2), of 0 "length (mm_features r)" b] by (simp add: hi bisect_left_def)
  show ?thesis
  proof (cases "valid_input r i")
    case True
    then have n: "nat i < length (mm_features r)" "int (nat i) = i" by (auto simp: valid_input_def)
    have "nat i < hi \<longleftrightarrow> feat_offset (mm_features r ! nat i) < b" "\<not> nat i < lo \<longleftrightarrow> a < feat_end (mm_features r ! nat i)"
      using bisect_left_ok(1) [OF so(2) n(1), of b] bisect_left_ok(1) [OF so(1) n(1), of "a + 1"] by (auto simp: hi lo feat_end_def feat_offset_def)
    moreover have "int lo \<le> i \<longleftrightarrow> \<not> nat i < lo" "i \<le> int hi - 1 \<longleftrightarrow> nat i < hi" using n(2) by linarith+
    ultimately show ?thesis using True by auto
  next
    case False
    then show ?thesis using len by (auto simp: valid_input_def)
  qed
qed



section \<open>Embeddings within a range\<close>

text \<open>The embeddings of an input among its tokens from \<open>s\<close> to \<open>e\<close>, counted from its first token.\<close>

definition emb_count :: "mm_feature \<Rightarrow> int \<Rightarrow> int \<Rightarrow> int" where
  "emb_count f s e =
     (case is_embed (mm_position f) of
        None \<Rightarrow> e - s
      | Some bs \<Rightarrow> int (length (filter id (take (nat e) bs))) - int (length (filter id (take (nat s) bs))))"

definition embeds_between :: "mm_feature \<Rightarrow> int \<Rightarrow> int \<Rightarrow> int" where
  "embeds_between f a b = emb_count f (max 0 (a - feat_offset f)) (min (plen (mm_position f)) (b - feat_offset f))"

lemma filter_take_mono: "m \<le> n \<Longrightarrow> length (filter P (take m xs)) \<le> length (filter P (take n xs))"
proof -
  assume "m \<le> n"
  then obtain k where "n = m + k" using le_Suc_ex by blast
  then show ?thesis by (simp add: take_add)
qed

lemma emb_count_mono: "s \<le> e \<Longrightarrow> e \<le> e' \<Longrightarrow> 0 \<le> emb_count f s e \<and> emb_count f s e \<le> emb_count f s e'"
  by (auto simp: emb_count_def intro!: filter_take_mono nat_mono split: option.splits)

lemma indices_ok:
  assumes "feats_wf r" "f \<in> set (mm_features r)" "0 \<le> s" "s \<le> e" "e \<le> plen (mm_position f)"
  shows "\<exists>a b. get_embeds_indices_in_range (mm_position f) s e = Inr (a, b) \<and> b - a = emb_count f s e"
proof (cases "is_embed (mm_position f)")
  case None
  then show ?thesis by (simp add: get_embeds_indices_in_range_def embeds_cumsum_def emb_count_def)
next
  case (Some bs)
  then have "int (length bs) = plen (mm_position f)" using assms(1,2) by (auto simp: feats_wf_def)
  with embeds_indices_mask [OF Some] assms Some show ?thesis by (simp add: emb_count_def)
qed

text \<open>A range of tokens that ends at most one past its window meets an input of the window in a proper range.\<close>

lemma between_ok:
  assumes "feats_wf r" "valid_input r i" "a < feat_end (mm_features r ! nat i)" "feat_offset (mm_features r ! nat i) \<le> b" "a \<le> b"
  shows "\<exists>x y. get_embeds_indices_in_range (mm_position (mm_features r ! nat i)) (max 0 (a - feat_offset (mm_features r ! nat i)))
      (min (plen (mm_position (mm_features r ! nat i))) (b - feat_offset (mm_features r ! nat i))) = Inr (x, y) \<and>
    y - x = embeds_between (mm_features r ! nat i) a b"
proof -
  have f: "mm_features r ! nat i \<in> set (mm_features r)" using assms(2) by (auto simp: valid_input_def)
  then have "0 < plen (mm_position (mm_features r ! nat i))" using assms(1) by (auto simp: feats_wf_def)
  then show ?thesis unfolding embeds_between_def
    using assms by (intro indices_ok [OF assms(1) f]) (auto simp: feat_end_def feat_offset_def)
qed

lemma embeds_between_zero:
  assumes "embeds_between f a b = 0" "a < feat_end f" "feat_offset f \<le> b'" "a \<le> b'" "b' \<le> b" "0 < plen (mm_position f)"
  shows "embeds_between f a b' = 0"
proof -
  have "max 0 (a - feat_offset f) \<le> min (plen (mm_position f)) (b' - feat_offset f)"
    "min (plen (mm_position f)) (b' - feat_offset f) \<le> min (plen (mm_position f)) (b - feat_offset f)"
    using assms(2-6) by (auto simp: feat_end_def feat_offset_def)
  from emb_count_mono [OF this, of f] assms(1) show ?thesis by (simp add: embeds_between_def)
qed


section \<open>The scheduling loop\<close>

definition chosen :: "enc_sched \<Rightarrow> int list" where
  "chosen st = to_schedule st @ external_load st"

definition covered :: "request \<Rightarrow> int \<Rightarrow> int \<Rightarrow> encoder_cache \<Rightarrow> string list \<Rightarrow> int \<Rightarrow> bool" where
  "covered r a b ec hs i \<longleftrightarrow>
     (\<exists>refs. dget (cached ec) (hash_of r i) = Some refs \<and> refs \<noteq> []) \<or> hash_of r i \<in> set hs \<or>
     embeds_between (mm_features r ! nat i) a b = 0"

definition sched_inv :: "(string \<Rightarrow> int) \<Rightarrow> request \<Rightarrow> int \<Rightarrow> int \<Rightarrow> enc_sched \<Rightarrow> int set \<Rightarrow> encoder_cache \<Rightarrow> bool" where
  "sched_inv sz r nc n0 st seen ec \<longleftrightarrow>
     mgr st = MMCache ec \<and> enc_ok sz ec \<and> 0 \<le> compute_budget st \<and>
     embeds_to_schedule st = sum_list (map (\<lambda>i. sz (hash_of r i)) (chosen st)) \<and> embeds_to_schedule st \<le> num_free_slots ec \<and>
     distinct (map (hash_of r) (chosen st)) \<and> set (hashes_to_schedule st) = hash_of r ` set (chosen st) \<and>
     (\<forall>i \<in> set (chosen st). valid_input r i \<and> dget (cached ec) (hash_of r i) = None) \<and>
     (\<forall>i \<in> seen. covered r nc (nc + n0) ec (hashes_to_schedule st) i)"

lemma sched_inv_mgr:
  assumes "sched_inv sz r nc n0 st seen ec" "enc_ok sz ec'" "num_free_slots ec \<le> num_free_slots ec'"
    "\<And>h. dget (cached ec) h = None \<Longrightarrow> dget (cached ec') h = None"
    "\<And>h refs. dget (cached ec) h = Some refs \<Longrightarrow> refs \<noteq> [] \<Longrightarrow> \<exists>refs'. dget (cached ec') h = Some refs' \<and> refs' \<noteq> []"
  shows "sched_inv sz r nc n0 (st\<lparr>mgr := MMCache ec'\<rparr>) seen ec'"
  using assms(1-4) assms(5) unfolding sched_inv_def covered_def chosen_def by (auto 0 4)

lemma sched_inv_seen:
  assumes "sched_inv sz r nc n0 st seen ec" "covered r nc (nc + n0) ec (hashes_to_schedule st) i"
  shows "sched_inv sz r nc n0 st (insert i seen) ec"
  using assms by (simp add: sched_inv_def)

lemma sched_inv_new_tokens [simp]: "sched_inv sz r nc n0 (st\<lparr>new_tokens := k\<rparr>) seen ec = sched_inv sz r nc n0 st seen ec"
  by (simp add: sched_inv_def chosen_def)

lemma admit_ok:
  assumes inv: "sched_inv sz r nc n0 st seen ec" and sz: "sized sz r" and wf: "feats_wf r" and v: "valid_input r i"
    and win: "nc < feat_end (mm_features r ! nat i)" "feat_offset (mm_features r ! nat i) \<le> nc + n0" "0 \<le> n0"
    and new: "new_tokens st = n0" "hash_of r i \<notin> set (hashes_to_schedule st)" "dget (cached ec) (hash_of r i) = None"
    and fits: "sz (hash_of r i) \<le> compute_budget st" "sz (hash_of r i) + embeds_to_schedule st \<le> num_free_slots ec"
  shows "\<exists>st'. admit_input cfg (mm_features r ! nat i) nc i st = Inr st' \<and> sched_inv sz r nc n0 st' (insert i seen) ec \<and> new_tokens st' = n0"
proof -
  define f where "f = mm_features r ! nat i"
  obtain x y where xy: "get_embeds_indices_in_range (mm_position f) (max 0 (nc - offset (mm_position f)))
      (min (plen (mm_position f)) (nc + n0 - offset (mm_position f))) = Inr (x, y)" "y - x = embeds_between f nc (nc + n0)"
    using between_ok [OF wf v win(1,2)] win(3) by (auto simp: f_def feat_offset_def)
  have h: "mm_identifier f = hash_of r i" by (simp add: f_def hash_of_def)
  have n: "get_num_embeds (mm_position f) = sz (hash_of r i)"
    using sz v by (auto simp: sized_def f_def hash_of_def valid_input_def)
  have hn: "hash_of r i \<notin> hash_of r ` set (chosen st)" using inv new(2) by (simp add: sched_inv_def)
  show ?thesis
  proof (cases "y - x = 0")
    case True
    then have "covered r nc (nc + n0) ec (hashes_to_schedule st) i" using xy(2) by (simp add: covered_def f_def)
    then show ?thesis using True xy(1) new(1) sched_inv_seen [OF inv] by (simp add: admit_input_def f_def [symmetric] Let_def)
  next
    case False
    then show ?thesis
      using xy(1) inv hn v new fits h n
      by (auto simp: admit_input_def f_def [symmetric] Let_def sched_inv_def chosen_def covered_def split: option.splits)
  qed
qed


lemma turn_ok:
  assumes inv: "sched_inv sz r nc n0 st seen ec" and sz: "sized sz r" and wf: "feats_wf r" and v: "valid_input r i"
    and pos: "\<And>k. 0 \<le> sz k" and cfg: "\<not> is_encoder_decoder cfg" and sh: "0 \<le> sh" "sh \<le> 1"
    and win: "nc < feat_end (mm_features r ! nat i)" "feat_offset (mm_features r ! nat i) < nc + n0 + sh" "0 \<le> n0"
    and new: "new_tokens st = n0"
  shows "\<exists>leave st' ec'. encoder_turn cfg r nc sh i st = Inr (leave, st') \<and>
    (if leave then sched_inv sz r nc n0 st' seen ec' \<and> 0 \<le> new_tokens st' \<and> new_tokens st' \<le> n0 \<and>
       (new_tokens st' = 0 \<or> nc + new_tokens st' \<le> feat_offset (mm_features r ! nat i))
     else sched_inv sz r nc n0 st' (insert i seen) ec' \<and> new_tokens st' = n0)"
proof -
  define f where "f = mm_features r ! nat i"
  have h: "mm_identifier f = hash_of r i" by (simp add: f_def hash_of_def)
  have off: "offset (mm_position f) = feat_offset f" by (simp add: feat_offset_def)
  note ix = valid_input_index [OF v, folded f_def]
  have m: "mgr st = MMCache ec" and ok: "enc_ok sz ec" using inv by (auto simp: sched_inv_def)
  have leaveI: ?thesis if "encoder_turn cfg r nc sh i st = Inr (True, st\<lparr>mgr := MMCache e, new_tokens := k\<rparr>)"
      "sched_inv sz r nc n0 (st\<lparr>mgr := MMCache e\<rparr>) seen e" "0 \<le> k" "k \<le> n0" "k = 0 \<or> nc + k \<le> feat_offset f" for e k
  proof -
    have "sched_inv sz r nc n0 (st\<lparr>mgr := MMCache e, new_tokens := k\<rparr>) seen e" using that(2) by simp
    with that show ?thesis
      by (intro exI [of _ True] exI [of _ "st\<lparr>mgr := MMCache e, new_tokens := k\<rparr>"] exI [of _ e]) (simp add: f_def)
  qed
  have stayI: ?thesis if "encoder_turn cfg r nc sh i st = Inr (False, st')" "sched_inv sz r nc n0 st' (insert i seen) e" "new_tokens st' = n0" for st' e
    using that by (intro exI [of _ False] exI [of _ st'] exI [of _ e]) simp
  show ?thesis
  proof (cases "hash_of r i \<in> set (hashes_to_schedule st)")
    case True
    then have "sched_inv sz r nc n0 st (insert i seen) ec" using sched_inv_seen [OF inv] by (simp add: covered_def)
    moreover have "encoder_turn cfg r nc sh i st = Inr (False, st)" using True cfg ix h by (simp add: encoder_turn_def Let_def)
    ultimately show ?thesis using stayI new by blast
  next
    case False
    obtain ec1 where e1: "check_and_update_cache r i ec = Inr (dget (cached ec) (hash_of r i) \<noteq> None, ec1)" "enc_ok sz ec1"
      "num_free_slots ec1 = num_free_slots ec"
      "dget (cached ec1) = (case dget (cached ec) (hash_of r i) of None \<Rightarrow> dget (cached ec)
        | Some refs \<Rightarrow> (dget (cached ec))(hash_of r i \<mapsto> set_add (request_id r) refs))"
      using check_ok [OF ok v] by blast
    have "sched_inv sz r nc n0 (st\<lparr>mgr := MMCache ec1\<rparr>) seen ec1"
      by (rule sched_inv_mgr [OF inv e1(2)]) (use e1(3,4) in \<open>auto split: option.splits if_splits\<close>)
    note inv1 = this
    show ?thesis
    proof (cases "dget (cached ec) (hash_of r i)")
      case (Some refs)
      then have "covered r nc (nc + n0) ec1 (hashes_to_schedule st) i" using e1(4) by (simp add: covered_def)
      then have "sched_inv sz r nc n0 (st\<lparr>mgr := MMCache ec1\<rparr>) (insert i seen) ec1" using sched_inv_seen [OF inv1] by simp
      moreover have "encoder_turn cfg r nc sh i st = Inr (False, st\<lparr>mgr := MMCache ec1\<rparr>)"
        using Some False cfg ix h e1(1) m by (simp add: encoder_turn_def Let_def)
      ultimately show ?thesis using stayI new by simp
    next
      case None
      then have none1: "dget (cached ec1) (hash_of r i) = None" using e1(4) by simp
      show ?thesis
      proof (cases "no_chunked_mm cfg \<and> nc < feat_offset f \<and> nc + n0 < feat_end f")
        case True
        then have "encoder_turn cfg r nc sh i st = Inr (True, st\<lparr>mgr := MMCache ec1, new_tokens := max 0 (feat_offset f - (nc + sh))\<rparr>)"
          using False None cfg new ix h e1(1) m off by (simp add: encoder_turn_def Let_def feat_end_def)
        then show ?thesis by (rule leaveI [OF _ inv1]) (use sh win in \<open>auto simp: f_def\<close>)
      next
        case no_break: False
        obtain k ec2 where e2: "can_allocate r i (compute_budget st) (embeds_to_schedule st) ec1 =
            Inr (sz (hash_of r i) \<le> compute_budget st \<and> sz (hash_of r i) + embeds_to_schedule st \<le> num_freeable_slots ec1, ec2)"
          "enc_ok sz ec2" "num_free_slots ec1 \<le> num_free_slots ec2"
          "dget (cached ec2) = dget (cached ec1) |` (- set (map fst (take k (freeable ec1))))"
          "sz (hash_of r i) \<le> compute_budget st \<and> sz (hash_of r i) + embeds_to_schedule st \<le> num_freeable_slots ec1 \<longrightarrow>
            sz (hash_of r i) + embeds_to_schedule st \<le> num_free_slots ec2"
          using can_allocate_ok [OF e1(2) v sz pos, of "compute_budget st" "embeds_to_schedule st"] by blast
        have inv2: "sched_inv sz r nc n0 (st\<lparr>mgr := MMCache ec2\<rparr>) seen ec2"
          using sched_inv_mgr [OF inv1 e2(2,3)] e2(4) referenced_not_freeable [OF e1(2), where k = k] by (auto simp: restrict_map_def)
        have c1: "mgr_check r i (mgr st) = Inr (False, MMCache ec1)" using e1(1) None m by simp
        have nb: "\<not> (no_chunked_mm cfg \<and> nc < feat_offset f \<and> nc + n0 < feat_offset f + plen (mm_position f))"
          using no_break by (simp add: feat_end_def off)
        show ?thesis
        proof (cases "sz (hash_of r i) \<le> compute_budget st \<and> sz (hash_of r i) + embeds_to_schedule st \<le> num_freeable_slots ec1")
          case True
          have "dget (cached ec2) (hash_of r i) = None" using none1 e2(4) by (simp add: restrict_map_def)
          with admit_ok [OF inv2 sz wf v win(1), of cfg] win(2,3) sh new False e2(5) True obtain st' where
            "admit_input cfg f nc i (st\<lparr>mgr := MMCache ec2\<rparr>) = Inr st'" "sched_inv sz r nc n0 st' (insert i seen) ec2" "new_tokens st' = n0"
            by (auto simp: f_def)
          moreover have "encoder_turn cfg r nc sh i st = Inr (False, st')"
            unfolding encoder_turn_def ix Let_def off h ebind_simps using False cfg c1 nb e2(1) True calculation(1) new by simp
          ultimately show ?thesis using stayI by blast
        next
          case nofit: False
          then have "encoder_turn cfg r nc sh i st = Inr (True, st\<lparr>mgr := MMCache ec2, new_tokens := (if nc + sh < feat_offset f then feat_offset f - (nc + sh) else 0)\<rparr>)"
            unfolding encoder_turn_def ix Let_def off h ebind_simps using False cfg c1 nb e2(1) nofit new by auto
          then show ?thesis by (rule leaveI [OF _ inv2]) (use sh win in \<open>auto simp: f_def\<close>)
        qed
      qed
    qed
  qed
qed


lemma loop_ok:
  assumes "sched_inv sz r nc n0 st seen ec" and sz: "sized sz r" and wf: "feats_wf r"
    and pos: "\<And>k. 0 \<le> sz k" and cfg: "\<not> is_encoder_decoder cfg" and sh: "0 \<le> sh" "sh \<le> 1" and n0: "0 \<le> n0"
    and win: "\<forall>i \<in> set is. valid_input r i \<and> nc < feat_end (mm_features r ! nat i) \<and> feat_offset (mm_features r ! nat i) < nc + n0 + sh"
    and new: "new_tokens st = n0" and so: "sorted is"
  shows "\<exists>st' ec' seen'. encoder_loop cfg r nc sh is st = Inr st' \<and> sched_inv sz r nc n0 st' seen' ec' \<and>
    0 \<le> new_tokens st' \<and> new_tokens st' \<le> n0 \<and> seen \<subseteq> seen' \<and>
    (\<forall>i \<in> set is. i \<in> seen' \<or> new_tokens st' = 0 \<or> nc + new_tokens st' \<le> feat_offset (mm_features r ! nat i))"
  using assms(1) win new so
proof (induction "is" arbitrary: st seen ec)
  case Nil
  then show ?case using n0 by auto
next
  case (Cons i "is")
  have mono: "feat_offset (mm_features r ! nat i) \<le> feat_offset (mm_features r ! nat j)" if "j \<in> set is" for j
  proof -
    have "i \<le> j" "valid_input r i" "valid_input r j" using that Cons.prems by auto
    then show ?thesis
      using sorted_nth_mono [OF feats_sorted(2), of "mm_features r" "nat i" "nat j"] wf
      by (auto simp: feats_wf_def feat_offset_def valid_input_def)
  qed
  obtain leave st1 ec1 where t: "encoder_turn cfg r nc sh i st = Inr (leave, st1)"
    "if leave then sched_inv sz r nc n0 st1 seen ec1 \<and> 0 \<le> new_tokens st1 \<and> new_tokens st1 \<le> n0 \<and>
       (new_tokens st1 = 0 \<or> nc + new_tokens st1 \<le> feat_offset (mm_features r ! nat i))
     else sched_inv sz r nc n0 st1 (insert i seen) ec1 \<and> new_tokens st1 = n0"
    using turn_ok [OF Cons.prems(1) sz wf _ pos cfg sh] Cons.prems(2,3) n0 by (metis list.set_intros(1))
  show ?case
  proof (cases leave)
    case True
    then show ?thesis using t mono by (intro exI [of _ st1] exI [of _ ec1] exI [of _ seen]) force
  next
    case False
    with t have "sched_inv sz r nc n0 st1 (insert i seen) ec1" "new_tokens st1 = n0" by auto
    from Cons.IH [OF this(1) _ this(2)] Cons.prems(2,4) obtain st' ec' seen' where
      "encoder_loop cfg r nc sh is st1 = Inr st'" "sched_inv sz r nc n0 st' seen' ec'"
      "0 \<le> new_tokens st'" "new_tokens st' \<le> n0" "insert i seen \<subseteq> seen'"
      "\<forall>i \<in> set is. i \<in> seen' \<or> new_tokens st' = 0 \<or> nc + new_tokens st' \<le> feat_offset (mm_features r ! nat i)" by auto
    with t(1) False show ?thesis by (intro exI [of _ st'] exI [of _ ec'] exI [of _ seen']) auto
  qed
qed

lemma mgr_allocate_ok:
  assumes "enc_ok sz ec" "sized sz r" "\<And>k. 0 \<le> sz k" "distinct (map (hash_of r) is)"
    "\<forall>i \<in> set is. valid_input r i \<and> dget (cached ec) (hash_of r i) = None" "sum_list (map (\<lambda>i. sz (hash_of r i)) is) \<le> num_free_slots ec"
  shows "\<exists>ec'. efold (mgr_allocate r) is (MMCache ec) = Inr (MMCache ec') \<and> enc_ok sz ec' \<and>
    (\<forall>h. dget (cached ec') h = (if h \<in> hash_of r ` set is then Some [request_id r] else dget (cached ec) h))"
  using assms(1,4-6)
proof (induction "is" arbitrary: ec)
  case (Cons i "is")
  have nn: "0 \<le> sum_list (map (\<lambda>i. sz (hash_of r i)) is)" by (rule sum_list_nonneg) (use assms(3) in auto)
  obtain ec1 where e1: "allocate r i ec = Inr ec1" "enc_ok sz ec1" "num_free_slots ec1 = num_free_slots ec - sz (hash_of r i)"
    "dget (cached ec1) = (dget (cached ec))(hash_of r i \<mapsto> [request_id r])"
    using allocate_ok [OF Cons.prems(1) _ assms(2), of i] Cons.prems(3,4) assms(3) nn by auto
  have "\<forall>j \<in> set is. valid_input r j \<and> dget (cached ec1) (hash_of r j) = None"
    using Cons.prems(2,3) e1(4) by (auto simp: image_iff)
  moreover have "sum_list (map (\<lambda>i. sz (hash_of r i)) is) \<le> num_free_slots ec1" using Cons.prems(4) e1(3) by simp
  ultimately obtain ec' where "efold (mgr_allocate r) is (MMCache ec1) = Inr (MMCache ec')" "enc_ok sz ec'"
    "\<forall>h. dget (cached ec') h = (if h \<in> hash_of r ` set is then Some [request_id r] else dget (cached ec1) h)"
    using Cons.IH [OF e1(2)] Cons.prems(2) by auto
  with e1 show ?case by auto
qed simp

lemma schedule_then_allocate:
  assumes ok: "enc_ok sz ec" and sz: "sized sz r" and wf: "feats_wf r" and pos: "\<And>k. 0 \<le> sz k"
    and cfg: "\<not> is_encoder_decoder cfg" and sh: "0 \<le> sh" "sh \<le> 1" and n: "0 \<le> n" and b: "0 \<le> budget"
  shows "\<exists>st ec'. try_schedule_encoder_inputs cfg r nc n budget sh (MMCache ec) = Inr st \<and>
    0 \<le> new_tokens st \<and> new_tokens st \<le> n \<and> 0 \<le> compute_budget st \<and>
    allocate_scheduled r st = Inr (MMCache ec') \<and> enc_ok sz ec' \<and>
    (\<forall>i. valid_input r i \<and> nc < feat_end (mm_features r ! nat i) \<and> feat_offset (mm_features r ! nat i) < nc + new_tokens st \<and>
       embeds_between (mm_features r ! nat i) nc (nc + new_tokens st) \<noteq> 0 \<longrightarrow> dget (cached ec') (hash_of r i) \<noteq> None)"
proof -
  define st0 where "st0 = \<lparr>to_schedule = [], new_tokens = n, compute_budget = budget, external_load = [],
              hashes_to_schedule = [], embeds_to_schedule = 0, mgr = MMCache ec\<rparr>"
  have inv0: "sched_inv sz r nc n st0 {} ec" using ok b enc_okD(5) [OF ok] by (simp add: sched_inv_def st0_def chosen_def)
  have "\<exists>st ec1 seen. try_schedule_encoder_inputs cfg r nc n budget sh (MMCache ec) = Inr st \<and> sched_inv sz r nc n st seen ec1 \<and>
    0 \<le> new_tokens st \<and> new_tokens st \<le> n \<and>
    (\<forall>i. valid_input r i \<and> nc < feat_end (mm_features r ! nat i) \<and> feat_offset (mm_features r ! nat i) < nc + n + sh \<longrightarrow>
      i \<in> seen \<or> new_tokens st = 0 \<or> nc + new_tokens st \<le> feat_offset (mm_features r ! nat i))"
  proof (cases "n = 0 \<or> \<not> num_encoder_inputs r > 0")
    case True
    then have "try_schedule_encoder_inputs cfg r nc n budget sh (MMCache ec) = Inr st0"
      by (simp add: try_schedule_encoder_inputs_def st0_def)
    moreover have "new_tokens st0 = n" by (simp add: st0_def)
    ultimately show ?thesis using inv0 n True by (intro exI [of _ st0] exI [of _ ec] exI [of _ "{}"]) (auto simp: num_encoder_inputs_def valid_input_def)
  next
    case False
    obtain lo hi where w: "get_mm_features_in_window (mm_features r) nc (nc + n + sh) = (lo, hi)" by fastforce
    note wi = window_iff [OF _ w] wf
    have run: "try_schedule_encoder_inputs cfg r nc n budget sh (MMCache ec) = encoder_loop cfg r nc sh [int lo..int hi - 1] st0"
      using False cfg w by (simp add: try_schedule_encoder_inputs_def st0_def)
    have "\<exists>st' ec' seen'. encoder_loop cfg r nc sh [int lo..int hi - 1] st0 = Inr st' \<and> sched_inv sz r nc n st' seen' ec' \<and>
      0 \<le> new_tokens st' \<and> new_tokens st' \<le> n \<and> {} \<subseteq> seen' \<and>
      (\<forall>i \<in> set [int lo..int hi - 1]. i \<in> seen' \<or> new_tokens st' = 0 \<or> nc + new_tokens st' \<le> feat_offset (mm_features r ! nat i))"
      by (rule loop_ok [OF inv0 sz wf pos cfg sh n]) (use wi in \<open>auto simp: feats_wf_def st0_def simp del: set_upto\<close>)
    then obtain st' ec' seen' where l: "encoder_loop cfg r nc sh [int lo..int hi - 1] st0 = Inr st'" "sched_inv sz r nc n st' seen' ec'"
      "0 \<le> new_tokens st'" "new_tokens st' \<le> n"
      "\<forall>i \<in> set [int lo..int hi - 1]. i \<in> seen' \<or> new_tokens st' = 0 \<or> nc + new_tokens st' \<le> feat_offset (mm_features r ! nat i)" by blast
    moreover have "i \<in> set [int lo..int hi - 1]" if "valid_input r i" "nc < feat_end (mm_features r ! nat i)"
        "feat_offset (mm_features r ! nat i) < nc + n + sh" for i
      using window_iff [OF _ w, of i] wf that by (auto simp: feats_wf_def simp del: set_upto)
    ultimately show ?thesis unfolding run by (intro exI [of _ st'] exI [of _ ec'] exI [of _ seen']) blast
  qed
  then obtain st ec1 seen where st: "try_schedule_encoder_inputs cfg r nc n budget sh (MMCache ec) = Inr st" "sched_inv sz r nc n st seen ec1"
    "0 \<le> new_tokens st" "new_tokens st \<le> n"
    "\<forall>i. valid_input r i \<and> nc < feat_end (mm_features r ! nat i) \<and> feat_offset (mm_features r ! nat i) < nc + n + sh \<longrightarrow>
      i \<in> seen \<or> new_tokens st = 0 \<or> nc + new_tokens st \<le> feat_offset (mm_features r ! nat i)" by blast
  have I: "mgr st = MMCache ec1" "enc_ok sz ec1" "0 \<le> compute_budget st" "distinct (map (hash_of r) (chosen st))"
    "\<forall>i \<in> set (chosen st). valid_input r i \<and> dget (cached ec1) (hash_of r i) = None"
    "sum_list (map (\<lambda>i. sz (hash_of r i)) (chosen st)) \<le> num_free_slots ec1"
    "set (hashes_to_schedule st) = hash_of r ` set (chosen st)" "\<forall>i \<in> seen. covered r nc (nc + n) ec1 (hashes_to_schedule st) i"
    using st(2) by (auto simp: sched_inv_def)
  obtain ec' where ec': "efold (mgr_allocate r) (chosen st) (MMCache ec1) = Inr (MMCache ec')" "enc_ok sz ec'"
    "\<forall>h. dget (cached ec') h = (if h \<in> hash_of r ` set (chosen st) then Some [request_id r] else dget (cached ec1) h)"
    using mgr_allocate_ok [OF I(2) sz pos I(4-6)] by blast
  have "allocate_scheduled r st = Inr (MMCache ec')"
    using ec'(1) I(1) by (simp add: allocate_scheduled_def chosen_def efold_append)
  moreover have "dget (cached ec') (hash_of r i) \<noteq> None" if i: "valid_input r i" "nc < feat_end (mm_features r ! nat i)"
      "feat_offset (mm_features r ! nat i) < nc + new_tokens st" "embeds_between (mm_features r ! nat i) nc (nc + new_tokens st) \<noteq> 0" for i
  proof -
    define f where "f = mm_features r ! nat i"
    have pl: "0 < plen (mm_position f)" using i(1) wf by (auto simp: feats_wf_def f_def valid_input_def)
    have nz: "new_tokens st \<noteq> 0"
    proof
      assume z: "new_tokens st = 0"
      then have "max 0 (nc - feat_offset f) = min (plen (mm_position f)) (nc - feat_offset f)"
        using i(2,3) by (auto simp: f_def feat_end_def feat_offset_def)
      then have "embeds_between f nc nc = 0" unfolding embeds_between_def by (auto simp: emb_count_def split: option.splits)
      with i(4) z show False by (simp add: f_def)
    qed
    then have "i \<in> seen" using st(4,5) i sh by force
    then have c: "covered r nc (nc + n) ec1 (hashes_to_schedule st) i" using I(8) by blast
    have "embeds_between f nc (nc + n) \<noteq> 0"
      using embeds_between_zero [of f nc "nc + n" "nc + new_tokens st"] i(2-4) st(3,4) pl by (auto simp: f_def)
    with c show ?thesis using ec'(3) I(7) by (auto simp: covered_def f_def)
  qed
  ultimately show ?thesis using st(1,3,4) I(3) ec'(2) by blast
qed



section \<open>Properties\<close>

lemma gather_ok:
  assumes wf: "feats_wf r" and n: "0 < n"
    and have': "\<And>i. valid_input r i \<Longrightarrow> nc < feat_end (mm_features r ! nat i) \<Longrightarrow> feat_offset (mm_features r ! nat i) < nc + n \<Longrightarrow>
      embeds_between (mm_features r ! nat i) nc (nc + n) \<noteq> 0 \<Longrightarrow> have' (hash_of r i)"
  shows "\<exists>ids. gather_mm_embeddings r have' nc 0 n = Inr ids"
proof -
  obtain lo hi where w: "get_mm_features_in_window (mm_features r) nc (nc + n) = (lo, hi)" by fastforce
  have "\<exists>acc'. gather_turn r have' nc 0 n i acc = Inr acc'" if "i \<in> set [int lo..int hi - 1]" for i acc
  proof -
    have i: "valid_input r i" "nc < feat_end (mm_features r ! nat i)" "feat_offset (mm_features r ! nat i) < nc + n"
      using window_iff [OF _ w, of i] wf that by (auto simp: feats_wf_def simp del: set_upto)
    define f where "f = mm_features r ! nat i"
    have pl: "0 < plen (mm_position f)" using i(1) wf by (auto simp: feats_wf_def f_def valid_input_def)
    obtain x y where xy: "get_embeds_indices_in_range (mm_position f) (max 0 (nc - feat_offset f))
        (min (plen (mm_position f)) (nc + n - feat_offset f)) = Inr (x, y)" "y - x = embeds_between f nc (nc + n)"
      using between_ok [OF wf i(1,2), of "nc + n"] i(3) n by (auto simp: f_def)
    have e: "max (nc - feat_offset f) 0 = max 0 (nc - feat_offset f)"
      "min (nc - feat_offset f + n) (plen (mm_position f)) = min (plen (mm_position f)) (nc + n - feat_offset f)" by auto
    have lt: "max 0 (nc - feat_offset f) < min (plen (mm_position f)) (nc + n - feat_offset f)"
      using i(2,3) pl n by (auto simp: f_def feat_end_def feat_offset_def)
    have hv: "x \<noteq> y \<Longrightarrow> have' (mm_identifier f)" using have' [OF i] xy(2) by (auto simp: f_def hash_of_def)
    show ?thesis
      unfolding gather_turn_def valid_input_index [OF i(1)] f_def [symmetric] ebind_simps Let_def add_0_right
        feat_offset_def [symmetric] e xy(1) using lt hv by auto
  qed
  then have "\<exists>ids. efold (gather_turn r have' nc 0 n) is acc = Inr ids" if "set is \<subseteq> set [int lo..int hi - 1]" for "is" acc
    using that
  proof (induction "is" arbitrary: acc)
    case (Cons i "is")
    then obtain acc' where "gather_turn r have' nc 0 n i acc = Inr acc'" by (meson list.set_intros(1) subsetD)
    with Cons show ?case by simp
  qed simp
  then show ?thesis using w by (simp add: gather_mm_embeddings_def)
qed

text \<open>
  C27. The scheduler's choice of encoder inputs is sound: it never raises, shrinks the token count at most to zero and stays within the
  compute budget; the cache space it promised is there when the chosen inputs are allocated; and afterwards the model
  runner finds every encoder output it needs for the scheduled tokens, so the target model's step has no encoder cache miss.
\<close>

theorem scheduled_inputs_are_available:
  assumes "enc_ok sz ec" "sized sz r" "feats_wf r" "\<forall>k. 0 \<le> sz k" "\<not> is_encoder_decoder cfg" "0 \<le> sh" "sh \<le> 1" "0 \<le> n" "0 \<le> budget"
  shows "\<exists>st ec'. try_schedule_encoder_inputs cfg r nc n budget sh (MMCache ec) = Inr st \<and>
    0 \<le> new_tokens st \<and> new_tokens st \<le> n \<and> 0 \<le> compute_budget st \<and>
    allocate_scheduled r st = Inr (MMCache ec') \<and> enc_ok sz ec' \<and>
    (new_tokens st > 0 \<longrightarrow> (\<exists>ids. gather_mm_embeddings r (\<lambda>h. dget (cached ec') h \<noteq> None) nc 0 (new_tokens st) = Inr ids))"
proof -
  obtain st ec' where st: "try_schedule_encoder_inputs cfg r nc n budget sh (MMCache ec) = Inr st"
    "0 \<le> new_tokens st" "new_tokens st \<le> n" "0 \<le> compute_budget st" "allocate_scheduled r st = Inr (MMCache ec')" "enc_ok sz ec'"
    "\<forall>i. valid_input r i \<and> nc < feat_end (mm_features r ! nat i) \<and> feat_offset (mm_features r ! nat i) < nc + new_tokens st \<and>
       embeds_between (mm_features r ! nat i) nc (nc + new_tokens st) \<noteq> 0 \<longrightarrow> dget (cached ec') (hash_of r i) \<noteq> None"
    using schedule_then_allocate [OF assms(1-3) _ assms(5-9)] assms(4) by blast
  have "\<exists>ids. gather_mm_embeddings r (\<lambda>h. dget (cached ec') h \<noteq> None) nc 0 (new_tokens st) = Inr ids" if "new_tokens st > 0"
    by (rule gather_ok [OF assms(3) that]) (use st(7) in blast)
  with st show ?thesis by blast
qed

definition demo_config :: enc_config where
  "demo_config = \<lparr>is_encoder_decoder = False, no_chunked_mm = False, use_eagle = True, has_cache_item = None\<rparr>"

definition masked_request :: request where
  "masked_request =
     init_request 0 ''r'' (Some [1, 2, 3, 4]) None None 0 None
       [\<lparr>mm_identifier = ''img'', mm_position = \<lparr>offset = 1, plen = 2, is_embed = Some [False, True]\<rparr>\<rparr>] None None 0 False 1 WAITING 4"

lemma masked_request_ok: "sized (\<lambda>_. 1) masked_request" "feats_wf masked_request"
  by (simp_all add: sized_def feats_wf_def masked_request_def init_request_def mm_ordered_def feat_offset_def feat_end_def
      get_num_embeds_def embeds_cumsum_def)

theorem scheduled_inputs_are_available_witness:
  "\<exists>st ec'. try_schedule_encoder_inputs demo_config masked_request 0 4 8 1 (MMCache (enc_init 8)) = Inr st \<and>
    allocate_scheduled masked_request st = Inr (MMCache ec') \<and>
    (new_tokens st > 0 \<longrightarrow> (\<exists>ids. gather_mm_embeddings masked_request (\<lambda>h. dget (cached ec') h \<noteq> None) 0 0 (new_tokens st) = Inr ids))"
proof -
  have "enc_ok (\<lambda>_. 1) (enc_init 8)" by (rule enc_init_ok) simp
  from scheduled_inputs_are_available [OF this masked_request_ok, of demo_config 1 4 8 0] show ?thesis
    by (auto simp: demo_config_def)
qed

lemma single_window:
  assumes "feats_wf r" "mm_features r = [f]" "a < feat_end f" "feat_offset f < b"
    "get_mm_features_in_window (mm_features r) a b = (lo, hi)"
  shows "[int lo..int hi - 1] = [0]"
proof -
  have ord: "mm_ordered (mm_features r)" using assms(1) by (simp add: feats_wf_def)
  have "0 \<in> set [int lo..int hi - 1]" "1 \<notin> set [int lo..int hi - 1]"
    unfolding window_iff [OF ord assms(5)] using assms(2-4) by (simp_all add: valid_input_def)
  then have "lo = 0" "hi = 1" by auto
  then show ?thesis by simp
qed

text \<open>
  C36. The drafter's look-ahead is not covered. Take a request with one multi-modal input that is not cached yet but would fit, whose
  placeholder starts before the end of the scheduled tokens and has no embedding among them, but one in the range that is shifted by
  one token. The scheduler keeps the token count and does not schedule the input, and after that the runner's gather for the drafter, one
  token further, always raises on the missing output.
\<close>

theorem drafter_lookahead_misses:
  assumes "enc_ok sz ec" "sized sz r" "feats_wf r" "\<forall>k. 0 \<le> sz k" "mm_features r = [f]"
    and "\<not> is_encoder_decoder cfg" "\<not> no_chunked_mm cfg" "0 < n" "nc + 1 < feat_end f" "feat_offset f < nc + n"
    and "embeds_between f nc (nc + n) = 0" "embeds_between f (nc + 1) (nc + 1 + n) \<noteq> 0"
    and "dget (cached ec) (mm_identifier f) = None" "sz (mm_identifier f) \<le> budget" "sz (mm_identifier f) \<le> num_freeable_slots ec"
  shows "\<exists>st ec'. try_schedule_encoder_inputs cfg r nc n budget 1 (MMCache ec) = Inr st \<and> new_tokens st = n \<and>
    to_schedule st = [] \<and> external_load st = [] \<and> allocate_scheduled r st = Inr (MMCache ec') \<and>
    gather_mm_embeddings r (\<lambda>h. dget (cached ec') h \<noteq> None) nc 1 n = Inl RuntimeError"
proof -
  have v: "valid_input r 0" "mm_features r ! nat 0 = f" "hash_of r 0 = mm_identifier f" using assms(5) by (simp_all add: valid_input_def hash_of_def)
  note ix = valid_input_index [OF v(1), unfolded v(2)]
  have pl: "0 < plen (mm_position f)" using assms(3,5) by (simp add: feats_wf_def)
  obtain k ec' where ec': "can_allocate r 0 budget 0 ec = Inr (True, ec')"
    "dget (cached ec') = dget (cached ec) |` (- set (map fst (take k (freeable ec))))"
    using can_allocate_ok [OF assms(1) v(1) assms(2), of budget 0] assms(4,14,15) v(3) by auto
  have miss: "dget (cached ec') (mm_identifier f) = None" using assms(13) by (simp add: ec'(2) restrict_map_def)
  obtain x y where xy: "get_embeds_indices_in_range (mm_position f) (max 0 (nc - feat_offset f))
      (min (plen (mm_position f)) (nc + n - feat_offset f)) = Inr (x, y)" "y - x = 0"
    using between_ok [OF assms(3) v(1), unfolded v(2), of nc "nc + n"] assms(8-11) by force
  obtain x' y' where xy': "get_embeds_indices_in_range (mm_position f) (max 0 (nc + 1 - feat_offset f))
      (min (plen (mm_position f)) (nc + 1 + n - feat_offset f)) = Inr (x', y')" "y' - x' \<noteq> 0"
    using between_ok [OF assms(3) v(1), unfolded v(2), of "nc + 1" "nc + 1 + n"] assms(8-10,12) by force
  define st where "st = \<lparr>to_schedule = [], new_tokens = n, compute_budget = budget, external_load = [],
              hashes_to_schedule = [], embeds_to_schedule = 0, mgr = MMCache ec'\<rparr>"
  have chk: "check_and_update_cache r 0 ec = Inr (False, ec)" using ix assms(13) by (simp add: check_and_update_cache_def)
  have adm: "admit_input cfg f nc 0 st = Inr st" using xy by (simp add: admit_input_def Let_def st_def feat_offset_def)
  obtain lo hi where w: "get_mm_features_in_window (mm_features r) nc (nc + n + 1) = (lo, hi)" by fastforce
  have "[int lo..int hi - 1] = [0]" by (rule single_window [OF assms(3,5) _ _ w]) (use assms(9,10) in auto)
  then have sch: "try_schedule_encoder_inputs cfg r nc n budget 1 (MMCache ec) = Inr st"
    using assms(5-8) w adm
    by (simp add: try_schedule_encoder_inputs_def num_encoder_inputs_def encoder_turn_def ix [unfolded assms(5)] chk ec'(1) Let_def st_def add.assoc)
  obtain lo' hi' where w': "get_mm_features_in_window (mm_features r) (nc + 1) (nc + 1 + n) = (lo', hi')" by fastforce
  have l': "[int lo'..int hi' - 1] = [0]" by (rule single_window [OF assms(3,5) _ _ w']) (use assms(9,10) in auto)
  have e: "max (nc + 1 - feat_offset f) 0 = max 0 (nc + 1 - feat_offset f)"
    "min (nc + 1 - feat_offset f + n) (plen (mm_position f)) = min (plen (mm_position f)) (nc + 1 + n - feat_offset f)" by auto
  have lt: "max 0 (nc + 1 - feat_offset f) < min (plen (mm_position f)) (nc + 1 + n - feat_offset f)"
    using assms(8-10) pl by (auto simp: feat_end_def feat_offset_def)
  have "gather_turn r (\<lambda>h. dget (cached ec') h \<noteq> None) nc 1 n 0 [] = Inl RuntimeError"
    unfolding gather_turn_def ix ebind_simps Let_def feat_offset_def [symmetric] e xy'(1) using lt xy'(2) miss assms(10) by simp
  then have "gather_mm_embeddings r (\<lambda>h. dget (cached ec') h \<noteq> None) nc 1 n = Inl RuntimeError"
    using w' l' by (simp add: gather_mm_embeddings_def)
  then show ?thesis using sch by (intro exI [of _ st]) (simp add: allocate_scheduled_def st_def)
qed

theorem drafter_lookahead_misses_witness:
  "\<exists>st ec'. try_schedule_encoder_inputs demo_config masked_request 0 2 8 1 (MMCache (enc_init 8)) = Inr st \<and> new_tokens st = 2 \<and>
    allocate_scheduled masked_request st = Inr (MMCache ec') \<and>
    gather_mm_embeddings masked_request (\<lambda>h. dget (cached ec') h \<noteq> None) 0 1 2 = Inl RuntimeError"
proof -
  let ?f = "\<lparr>mm_identifier = ''img'', mm_position = \<lparr>offset = 1, plen = 2, is_embed = Some [False, True]\<rparr>\<rparr>"
  have ok: "enc_ok (\<lambda>_. 1) (enc_init 8)" by (rule enc_init_ok) simp
  have f: "mm_features masked_request = [?f]" by (simp add: masked_request_def init_request_def)
  from drafter_lookahead_misses [OF ok masked_request_ok _ f, of demo_config 2 0 8] show ?thesis
    by (auto simp: demo_config_def feat_end_def feat_offset_def embeds_between_def emb_count_def enc_init_def)
qed

definition total_embeds :: "request \<Rightarrow> int list \<Rightarrow> int" where
  "total_embeds r ids = sum_list (map (\<lambda>i. get_num_embeds (mm_position (mm_features r ! nat i))) ids)"

lemma encdec_step_frees:
  assumes "is_encoder_decoder cfg" "num_computed_tokens r > 0" "\<forall>i \<in> set ids. valid_input r i"
  shows "efold (\<lambda>input_id m. ebind (py_index (mm_features r) input_id) (\<lambda>f.
      (let start_pos = offset (mm_position f); n = plen (mm_position f) in
       if is_encoder_decoder cfg \<and> num_computed_tokens r > 0 then mgr_free_encoder_input r input_id m
       else if start_pos + n + la \<le> num_computed_tokens r - num_output_placeholders r then mgr_free_encoder_input r input_id m
       else Inr m))) ids (EncDecCache ec) =
    Inr (EncDecCache (ec\<lparr>ed_num_free_slots := ed_num_free_slots ec + total_embeds r ids\<rparr>))"
  using assms(3)
proof (induction ids arbitrary: ec)
  case (Cons i ids)
  have "ed_free_encoder_input r i ec = Inr (ec\<lparr>ed_num_free_slots := ed_num_free_slots ec + get_num_embeds (mm_position (mm_features r ! nat i))\<rparr>)"
    using Cons.prems valid_input_index [of r i] by (simp add: ed_free_encoder_input_def get_num_encoder_embeds_def valid_input_def)
  with Cons valid_input_index [of r i] assms(1,2) show ?case by (simp add: Let_def total_embeds_def add.assoc)
qed (simp add: total_embeds_def)

lemma encdec_free_inputs:
  assumes "is_encoder_decoder cfg" "num_computed_tokens r > 0" "\<And>xs. mset (ord xs) = mset xs"
  shows "free_encoder_inputs cfg ord r (EncDecCache ec) =
    Inr (EncDecCache (ec\<lparr>ed_num_free_slots := ed_num_free_slots ec + sum_list (map (\<lambda>f. get_num_embeds (mm_position f)) (mm_features r))\<rparr>))"
proof -
  define ids where "ids = ed_get_cached_input_ids r"
  have ids: "ids = map int [0..<length (mm_features r)]"
    by (rule nth_equalityI) (auto simp: ids_def ed_get_cached_input_ids_def)
  have set: "set (ord ids) = set ids" using assms(3) by (metis set_mset_mset)
  have "total_embeds r (ord ids) = sum_mset (image_mset (\<lambda>i. get_num_embeds (mm_position (mm_features r ! nat i))) (mset ids))"
    unfolding total_embeds_def sum_mset_sum_list [symmetric] mset_map assms(3) ..
  also have "\<dots> = sum_list (map (\<lambda>i. get_num_embeds (mm_position (mm_features r ! nat i))) ids)"
    by (simp flip: sum_mset_sum_list mset_map)
  also have "\<dots> = sum_list (map (\<lambda>f. get_num_embeds (mm_position f)) (mm_features r))"
    by (rule arg_cong [where f = sum_list], rule nth_equalityI) (auto simp: ids)
  finally have tot: "total_embeds r (ord ids) = sum_list (map (\<lambda>f. get_num_embeds (mm_position f)) (mm_features r))" .
  have v: "\<forall>i \<in> set (ord ids). valid_input r i" unfolding set by (auto simp: ids valid_input_def)
  show ?thesis
  proof (cases "ids = []")
    case True
    then have "mm_features r = []" by (simp add: ids)
    with True show ?thesis by (simp add: free_encoder_inputs_def ids_def)
  next
    case False
    then show ?thesis
      using encdec_step_frees [OF assms(1,2) v, of "if use_eagle cfg then 1 else 0" ec] tot
      by (simp add: free_encoder_inputs_def ids_def Let_def)
  qed
qed

text \<open>
  C37. With the encoder-decoder manager every step after the first gives a request's encoder slots back once more: after \<open>k\<close> steps the
  manager counts \<open>k\<close> times the request's embeddings as additionally free, whatever was allocated, so the capacity does not bound admission.
\<close>

theorem encdec_slots_grow_every_step:
  assumes "is_encoder_decoder cfg" "num_computed_tokens r > 0" "\<forall>xs. mset (ord xs) = mset xs"
  shows "\<exists>ec'. efold (\<lambda>_. free_encoder_inputs cfg ord r) [0..<k] (EncDecCache ec) = Inr (EncDecCache ec') \<and>
    ed_num_free_slots ec' = ed_num_free_slots ec + int k * sum_list (map (\<lambda>f. get_num_embeds (mm_position f)) (mm_features r)) \<and>
    ed_cache_size ec' = ed_cache_size ec"
proof (induction k)
  case (Suc k)
  then obtain ec' where "efold (\<lambda>_. free_encoder_inputs cfg ord r) [0..<k] (EncDecCache ec) = Inr (EncDecCache ec')"
    "ed_num_free_slots ec' = ed_num_free_slots ec + int k * sum_list (map (\<lambda>f. get_num_embeds (mm_position f)) (mm_features r))"
    "ed_cache_size ec' = ed_cache_size ec" by blast
  with encdec_free_inputs [OF assms(1,2), of ord ec'] assms(3) show ?case by (simp add: efold_append algebra_simps)
qed simp

theorem encdec_slots_grow_every_step_witness:
  "\<exists>ec'. efold (\<lambda>_. free_encoder_inputs (demo_config\<lparr>is_encoder_decoder := True\<rparr>) id (masked_request\<lparr>num_computed_tokens := 1\<rparr>)) [0..<3]
      (EncDecCache (ed_init 8)) = Inr (EncDecCache ec') \<and> ed_num_free_slots ec' = 11 \<and> ed_cache_size ec' = 8"
  using encdec_slots_grow_every_step [of "demo_config\<lparr>is_encoder_decoder := True\<rparr>" "masked_request\<lparr>num_computed_tokens := 1\<rparr>" id 3 "ed_init 8"]
  by (simp add: ed_init_def masked_request_def init_request_def get_num_embeds_def embeds_cumsum_def)

end
