(* ===== verification/Offload_Policy.thy ===== *)
theory Offload_Policy
  imports Complex_Main Prelude
begin

text \<open>
  The replacement policies of the CPU offloading cache (\<^verbatim>\<open>vllm/v1/kv_offload/cpu/policies\<close>): least recently used and
  adaptive replacement. A \<^verbatim>\<open>BlockStatus\<close> is an object the policy holds under one key and the manager mutates through it;
  the model keeps it as a value and mutates it in place under its key. Sets are lists; ARC's floating-point target is exact.
\<close>

section \<open>Blocks\<close>

text \<open>\<^verbatim>\<open>ref_cnt\<close> is a C \<^verbatim>\<open>int32\<close>: an assignment keeps the low 32 bits.\<close>

definition c_int32 :: "int \<Rightarrow> int" where
  "c_int32 x = (x + 2 ^ 31) mod 2 ^ 32 - 2 ^ 31"

record block_status =
  bs_ref_cnt :: int
  bs_block_id :: int

definition new_block_status :: "int \<Rightarrow> block_status" where
  "new_block_status bid = \<lparr>bs_ref_cnt = -1, bs_block_id = bid\<rparr>"

definition is_ready :: "block_status \<Rightarrow> bool" where
  "is_ready b \<longleftrightarrow> bs_ref_cnt b \<ge> 0"

lemma c_int32_id: "- (2 ^ 31) \<le> x \<Longrightarrow> x < 2 ^ 31 \<Longrightarrow> c_int32 x = x"
  by (simp add: c_int32_def)


section \<open>Least recently used\<close>

record lru_policy =
  lru_capacity :: int
  evictable_blocks :: "(bytes, unit) dict"
  lru_blocks :: "(bytes, block_status) dict"

definition lru_init :: "int \<Rightarrow> lru_policy" where
  "lru_init capacity = \<lparr>lru_capacity = capacity, evictable_blocks = [], lru_blocks = []\<rparr>"

definition lru_get :: "lru_policy \<Rightarrow> bytes \<Rightarrow> block_status option" where
  "lru_get p key = dget (lru_blocks p) key"

definition lru_insert :: "bytes \<Rightarrow> block_status \<Rightarrow> lru_policy \<Rightarrow> lru_policy" where
  "lru_insert key b p =
     (let p1 = p\<lparr>lru_blocks := dset key b (lru_blocks p)\<rparr>
      in if bs_ref_cnt b = 0 then p1\<lparr>evictable_blocks := dset key () (evictable_blocks p1)\<rparr> else p1)"

definition lru_remove :: "bytes \<Rightarrow> lru_policy \<Rightarrow> lru_policy result" where
  "lru_remove key p =
     (if dget (lru_blocks p) key = None then Inl KeyError
      else Inr (p\<lparr>lru_blocks := ddel key (lru_blocks p), evictable_blocks := ddel key (evictable_blocks p)\<rparr>))"

definition lru_touch :: "bytes list \<Rightarrow> lru_policy \<Rightarrow> lru_policy" where
  "lru_touch keys p =
     fold (\<lambda>key p. if dget (evictable_blocks p) key \<noteq> None
        then p\<lparr>evictable_blocks := move_to_end key (evictable_blocks p)\<rparr> else p) (rev keys) p"

definition lru_clear :: "lru_policy \<Rightarrow> lru_policy" where
  "lru_clear p = p\<lparr>evictable_blocks := [], lru_blocks := []\<rparr>"

fun lru_candidates :: "lru_policy \<Rightarrow> int \<Rightarrow> bytes list \<Rightarrow> bytes list \<Rightarrow> (bytes \<times> block_status) list \<Rightarrow>
    (bytes \<times> block_status) list result" where
  "lru_candidates p n protected [] candidates = Inr candidates"
| "lru_candidates p n protected (key # ks) candidates =
     (if key \<in> set protected then lru_candidates p n protected ks candidates
      else
        (case dget (lru_blocks p) key of
           None \<Rightarrow> Inl KeyError
         | Some b \<Rightarrow>
             eassert (bs_ref_cnt b = 0)
               (let cs = candidates @ [(key, b)]
                in if int (length cs) = n then Inr cs else lru_candidates p n protected ks cs)))"

definition lru_evict :: "int \<Rightarrow> bytes list \<Rightarrow> lru_policy \<Rightarrow> ((bytes \<times> block_status) list option \<times> lru_policy) result" where
  "lru_evict n protected p =
     (if n = 0 then Inr (Some [], p)
      else
        ebind (lru_candidates p n protected (dkeys (evictable_blocks p)) []) (\<lambda>candidates.
        if int (length candidates) < n then Inr (None, p)
        else Inr (Some candidates,
               fold (\<lambda>(key, _) p. p\<lparr>evictable_blocks := ddel key (evictable_blocks p), lru_blocks := ddel key (lru_blocks p)\<rparr>) candidates p)))"

definition lru_mark_evictable :: "bytes \<Rightarrow> lru_policy \<Rightarrow> lru_policy" where
  "lru_mark_evictable key p = p\<lparr>evictable_blocks := dset key () (evictable_blocks p)\<rparr>"

definition lru_mark_non_evictable :: "bytes \<Rightarrow> lru_policy \<Rightarrow> lru_policy result" where
  "lru_mark_non_evictable key p =
     (if dget (evictable_blocks p) key = None then Inl KeyError
      else Inr (p\<lparr>evictable_blocks := ddel key (evictable_blocks p)\<rparr>))"

text \<open>The manager's assignment to the \<^verbatim>\<open>ref_cnt\<close> of the block object under a key.\<close>

definition set_ref :: "bytes \<Rightarrow> int \<Rightarrow> (bytes, block_status) dict \<Rightarrow> (bytes, block_status) dict" where
  "set_ref key n d = (case dget d key of None \<Rightarrow> d | Some b \<Rightarrow> dset key (b\<lparr>bs_ref_cnt := c_int32 n\<rparr>) d)"

definition lru_set_ref :: "bytes \<Rightarrow> int \<Rightarrow> lru_policy \<Rightarrow> lru_policy" where
  "lru_set_ref key n p = p\<lparr>lru_blocks := set_ref key n (lru_blocks p)\<rparr>"


section \<open>Adaptive replacement\<close>

record arc_policy =
  arc_capacity :: int
  target_t1_size :: rat
  t1 :: "(bytes, block_status) dict"
  t2 :: "(bytes, block_status) dict"
  b1 :: "(bytes, unit) dict"
  b2 :: "(bytes, unit) dict"

definition arc_init :: "int \<Rightarrow> arc_policy" where
  "arc_init capacity = \<lparr>arc_capacity = capacity, target_t1_size = 0, t1 = [], t2 = [], b1 = [], b2 = []\<rparr>"

definition arc_get :: "arc_policy \<Rightarrow> bytes \<Rightarrow> block_status option" where
  "arc_get p key = (case dget (t1 p) key of Some b \<Rightarrow> Some b | None \<Rightarrow> dget (t2 p) key)"

definition arc_insert :: "bytes \<Rightarrow> block_status \<Rightarrow> arc_policy \<Rightarrow> arc_policy" where
  "arc_insert key b p = p\<lparr>t1 := dset key b (t1 p), b1 := ddel key (b1 p), b2 := ddel key (b2 p)\<rparr>"

definition arc_remove :: "bytes \<Rightarrow> arc_policy \<Rightarrow> arc_policy" where
  "arc_remove key p =
     (if dget (t1 p) key = None then p\<lparr>t2 := ddel key (t2 p)\<rparr> else p\<lparr>t1 := ddel key (t1 p)\<rparr>)"

definition arc_touch_one :: "bytes \<Rightarrow> arc_policy \<Rightarrow> arc_policy" where
  "arc_touch_one key p =
     (case dget (t1 p) key of
        Some b \<Rightarrow>
          (let p1 = p\<lparr>t1 := ddel key (t1 p)\<rparr>
           in if \<not> is_ready b then p1\<lparr>t1 := dset key b (t1 p1)\<rparr> else p1\<lparr>t2 := dset key b (t2 p1)\<rparr>)
      | None \<Rightarrow>
          if dget (t2 p) key \<noteq> None then p\<lparr>t2 := move_to_end key (t2 p)\<rparr>
          else if dget (b1 p) key \<noteq> None then
            (let delta = max 1 (rat_of_nat (length (b2 p)) / rat_of_nat (length (b1 p)))
             in p\<lparr>target_t1_size := min (target_t1_size p + delta) (of_int (arc_capacity p)), b1 := move_to_end key (b1 p)\<rparr>)
          else if dget (b2 p) key \<noteq> None then
            (let delta = max 1 (rat_of_nat (length (b1 p)) / rat_of_nat (length (b2 p)))
             in p\<lparr>target_t1_size := max (target_t1_size p - delta) 0, b2 := move_to_end key (b2 p)\<rparr>)
          else p)"

definition arc_touch :: "bytes list \<Rightarrow> arc_policy \<Rightarrow> arc_policy" where
  "arc_touch keys p = fold arc_touch_one (rev keys) p"

definition arc_clear :: "arc_policy \<Rightarrow> arc_policy" where
  "arc_clear p = p\<lparr>t1 := [], t2 := [], b1 := [], b2 := [], target_t1_size := 0\<rparr>"

text \<open>The first idle block of a list that is neither protected nor selected already.\<close>

definition arc_first :: "bytes list \<Rightarrow> bytes list \<Rightarrow> (bytes, block_status) dict \<Rightarrow> (bytes \<times> block_status) option" where
  "arc_first protected selected d =
     find (\<lambda>(key, b). bs_ref_cnt b = 0 \<and> key \<notin> set protected \<and> key \<notin> set selected) d"

fun arc_select :: "nat \<Rightarrow> bytes list \<Rightarrow> int \<Rightarrow> (bytes \<times> block_status \<times> bool) list \<Rightarrow> arc_policy \<Rightarrow>
    (bytes \<times> block_status \<times> bool) list option" where
  "arc_select 0 protected virtual_t1_size candidates p = Some candidates"
| "arc_select (Suc n) protected virtual_t1_size candidates p =
     (let selected = map fst candidates;
          c1 = (if virtual_t1_size \<ge> \<lfloor>target_t1_size p\<rfloor> then arc_first protected selected (t1 p) else None)
      in case c1 of
           Some (key, b) \<Rightarrow> arc_select n protected (virtual_t1_size - 1) (candidates @ [(key, b, True)]) p
         | None \<Rightarrow>
             (case arc_first protected selected (t2 p) of
                Some (key, b) \<Rightarrow> arc_select n protected virtual_t1_size (candidates @ [(key, b, False)]) p
              | None \<Rightarrow> None))"

definition arc_drop_one :: "bytes \<times> block_status \<times> bool \<Rightarrow> arc_policy \<Rightarrow> arc_policy" where
  "arc_drop_one = (\<lambda>(key, b, from_t1) p.
     if from_t1 then p\<lparr>t1 := ddel key (t1 p), b1 := dset key () (b1 p)\<rparr>
     else p\<lparr>t2 := ddel key (t2 p), b2 := dset key () (b2 p)\<rparr>)"

definition trim_ghost :: "int \<Rightarrow> (bytes, unit) dict \<Rightarrow> (bytes, unit) dict" where
  "trim_ghost capacity ghost = drop (nat (int (length ghost) - capacity)) ghost"

definition arc_evict :: "int \<Rightarrow> bytes list \<Rightarrow> arc_policy \<Rightarrow> (bytes \<times> block_status) list option \<times> arc_policy" where
  "arc_evict n protected p =
     (if n = 0 then (Some [], p)
      else
        (case arc_select (nat n) protected (int (length (t1 p))) [] p of
           None \<Rightarrow> (None, p)
         | Some candidates \<Rightarrow>
             (let p1 = fold arc_drop_one candidates p
              in (Some (map (\<lambda>(key, b, _). (key, b)) candidates),
                  p1\<lparr>b1 := trim_ghost (arc_capacity p) (b1 p1), b2 := trim_ghost (arc_capacity p) (b2 p1)\<rparr>))))"

definition arc_set_ref :: "bytes \<Rightarrow> int \<Rightarrow> arc_policy \<Rightarrow> arc_policy" where
  "arc_set_ref key n p =
     (if dget (t1 p) key \<noteq> None then p\<lparr>t1 := set_ref key n (t1 p)\<rparr> else p\<lparr>t2 := set_ref key n (t2 p)\<rparr>)"



section \<open>What a policy promises\<close>

declare map_of_eq_Some_iff [simp del]

text \<open>
  \<open>get p\<close> as a map is the abstract contents of the cache. Eviction is atomic and takes exactly \<open>n\<close> idle unprotected blocks; the
  recency bookkeeping of \<open>touch\<close> and the marks leaves the contents alone.
\<close>

locale cache_policy =
  fixes inv :: "'p \<Rightarrow> bool"
    and get :: "'p \<Rightarrow> bytes \<Rightarrow> block_status option"
    and put :: "bytes \<Rightarrow> block_status \<Rightarrow> 'p \<Rightarrow> 'p"
    and del :: "bytes \<Rightarrow> 'p \<Rightarrow> 'p result"
    and use :: "bytes list \<Rightarrow> 'p \<Rightarrow> 'p"
    and wipe :: "'p \<Rightarrow> 'p"
    and evict :: "int \<Rightarrow> bytes list \<Rightarrow> 'p \<Rightarrow> ((bytes \<times> block_status) list option \<times> 'p) result"
    and mark :: "bytes \<Rightarrow> 'p \<Rightarrow> 'p"
    and unmark :: "bytes \<Rightarrow> 'p \<Rightarrow> 'p result"
    and setref :: "bytes \<Rightarrow> int \<Rightarrow> 'p \<Rightarrow> 'p"
  assumes finite_keys: "inv p \<Longrightarrow> finite (dom (get p))"
    and put_law: "inv p \<Longrightarrow> get p k = None \<Longrightarrow> bs_ref_cnt b = -1 \<Longrightarrow> inv (put k b p) \<and> get (put k b p) = (get p)(k \<mapsto> b)"
    and del_law: "inv p \<Longrightarrow> get p k \<noteq> None \<Longrightarrow> \<exists>p'. del k p = Inr p' \<and> inv p' \<and> get p' = (get p)(k := None)"
    and use_law: "inv p \<Longrightarrow> inv (use ks p) \<and> get (use ks p) = get p"
    and wipe_law: "inv p \<Longrightarrow> inv (wipe p) \<and> get (wipe p) = Map.empty"
    and evict_law: "inv p \<Longrightarrow> 0 \<le> n \<Longrightarrow> \<exists>r p'. evict n prot p = Inr (r, p') \<and>
      (case r of None \<Rightarrow> p' = p
       | Some ev \<Rightarrow> int (length ev) = n \<and> distinct (map fst ev) \<and>
           (\<forall>(k, b) \<in> set ev. get p k = Some b \<and> bs_ref_cnt b = 0 \<and> k \<notin> set prot) \<and>
           inv p' \<and> get p' = get p |` (- set (map fst ev)))"
    and acquire_law: "inv p \<Longrightarrow> get p k = Some b \<Longrightarrow> bs_ref_cnt b = 0 \<Longrightarrow> c_int32 v \<noteq> 0 \<Longrightarrow>
      \<exists>p'. unmark k p = Inr p' \<and> inv (setref k v p') \<and> get (setref k v p') = (get p)(k \<mapsto> b\<lparr>bs_ref_cnt := c_int32 v\<rparr>)"
    and release_law: "inv p \<Longrightarrow> get p k = Some b \<Longrightarrow> bs_ref_cnt b \<noteq> 0 \<Longrightarrow>
      inv (mark k (setref k 0 p)) \<and> get (mark k (setref k 0 p)) = (get p)(k \<mapsto> b\<lparr>bs_ref_cnt := 0\<rparr>)"
    and adjust_law: "inv p \<Longrightarrow> get p k = Some b \<Longrightarrow> bs_ref_cnt b \<noteq> 0 \<Longrightarrow> c_int32 v \<noteq> 0 \<Longrightarrow>
      inv (setref k v p) \<and> get (setref k v p) = (get p)(k \<mapsto> b\<lparr>bs_ref_cnt := c_int32 v\<rparr>)"
begin

text \<open>Blocks that are in use or protected survive an eviction.\<close>

lemma evict_keeps:
  assumes "inv p" "0 \<le> n" "evict n prot p = Inr (r, p')" "get p k = Some b" "bs_ref_cnt b \<noteq> 0 \<or> k \<in> set prot"
  shows "get p' k = Some b"
proof (cases r)
  case None
  then show ?thesis using evict_law [OF assms(1,2), of prot] assms(3,4) by auto
next
  case (Some ev)
  have l: "\<forall>(k, b) \<in> set ev. get p k = Some b \<and> bs_ref_cnt b = 0 \<and> k \<notin> set prot" "get p' = get p |` (- set (map fst ev))"
    using evict_law [OF assms(1,2), of prot] assms(3) Some by auto
  have "k \<notin> set (map fst ev)" using l(1) assms(4,5) by force
  then show ?thesis using l(2) assms(4) by simp
qed

lemma put_many:
  assumes "inv p" "distinct ks" "length bs = length ks" "\<forall>k \<in> set ks. get p k = None" "\<forall>b \<in> set bs. bs_ref_cnt b = -1"
  shows "inv (fold (\<lambda>(k, b). put k b) (zip ks bs) p) \<and> get (fold (\<lambda>(k, b). put k b) (zip ks bs) p) = (get p)(ks [\<mapsto>] bs)"
  using assms
proof (induction ks arbitrary: bs p)
  case (Cons k ks)
  then obtain b bs' where bs: "bs = b # bs'" by (cases bs) auto
  have p: "inv (put k b p)" "get (put k b p) = (get p)(k \<mapsto> b)" using put_law [of p k b] Cons.prems bs by auto
  have "\<forall>k' \<in> set ks. get (put k b p) k' = None" unfolding p(2) using Cons.prems(2,4) by auto
  moreover have "distinct ks" "length bs' = length ks" "\<forall>b \<in> set bs'. bs_ref_cnt b = -1" using Cons.prems bs by auto
  ultimately have "inv (fold (\<lambda>(k, b). put k b) (zip ks bs') (put k b p)) \<and>
      get (fold (\<lambda>(k, b). put k b) (zip ks bs') (put k b p)) = ((get p)(k \<mapsto> b))(ks [\<mapsto>] bs')"
    using Cons.IH [OF p(1)] unfolding p(2) by blast
  moreover have "fold (\<lambda>(k, b). put k b) (zip (k # ks) bs) p = fold (\<lambda>(k, b). put k b) (zip ks bs') (put k b p)" by (simp add: bs)
  ultimately show ?case by (simp only: bs map_upds_Cons)
qed simp

end

text \<open>A policy whose eviction fails only when there are too few idle unprotected blocks.\<close>

locale complete_policy = cache_policy +
  assumes evict_complete: "inv p \<Longrightarrow> 0 \<le> n \<Longrightarrow> n \<le> int (card {k. k \<notin> set prot \<and> (\<exists>b. get p k = Some b \<and> bs_ref_cnt b = 0)}) \<Longrightarrow>
    \<exists>ev p'. evict n prot p = Inr (Some ev, p')"
begin

lemma evict_some_iff:
  assumes "inv p" "0 \<le> n"
  shows "(\<exists>ev p'. evict n prot p = Inr (Some ev, p')) \<longleftrightarrow>
    n \<le> int (card {k. k \<notin> set prot \<and> (\<exists>b. get p k = Some b \<and> bs_ref_cnt b = 0)})"
proof
  assume "\<exists>ev p'. evict n prot p = Inr (Some ev, p')"
  then obtain ev p' where "evict n prot p = Inr (Some ev, p')" by blast
  then have e: "int (length ev) = n" "distinct (map fst ev)" "\<forall>(k, b) \<in> set ev. get p k = Some b \<and> bs_ref_cnt b = 0 \<and> k \<notin> set prot"
    using evict_law [OF assms, of prot] by auto
  have sub: "set (map fst ev) \<subseteq> {k. k \<notin> set prot \<and> (\<exists>b. get p k = Some b \<and> bs_ref_cnt b = 0)}" using e(3) by force
  have fin: "finite {k. k \<notin> set prot \<and> (\<exists>b. get p k = Some b \<and> bs_ref_cnt b = 0)}"
    by (rule finite_subset [OF _ finite_keys [OF assms(1)]]) auto
  have "card (set (map fst ev)) \<le> card {k. k \<notin> set prot \<and> (\<exists>b. get p k = Some b \<and> bs_ref_cnt b = 0)}"
    by (rule card_mono [OF fin sub])
  then show "n \<le> int (card {k. k \<notin> set prot \<and> (\<exists>b. get p k = Some b \<and> bs_ref_cnt b = 0)})"
    using e(1) distinct_card [OF e(2)] by simp
qed (use evict_complete [OF assms] in blast)

end


section \<open>LRU keeps the promise\<close>

definition lru_inv :: "lru_policy \<Rightarrow> bool" where
  "lru_inv p \<longleftrightarrow> distinct (dkeys (evictable_blocks p)) \<and>
     (\<forall>k. k \<in> set (dkeys (evictable_blocks p)) \<longleftrightarrow> (\<exists>b. dget (lru_blocks p) k = Some b \<and> bs_ref_cnt b = 0))"

lemma keys_dset [simp]: "set (dkeys (dset k v d)) = insert k (set (dkeys d))"
  by (metis dom_map_of_conv_image_fst dom_fun_upd image_set option.distinct(1) update_conv')

lemma keys_ddel [simp]: "set (dkeys (ddel k d)) = set (dkeys d) - {k}"
  by (simp add: delete_keys)

lemma dget_set_ref [simp]:
  "dget (set_ref k n d) = (dget d)(k := map_option (\<lambda>b. b\<lparr>bs_ref_cnt := c_int32 n\<rparr>) (dget d k))"
  by (auto simp: set_ref_def split: option.splits)

lemma keys_set_ref [simp]: "distinct (dkeys d) \<Longrightarrow> distinct (dkeys (set_ref k n d))"
  by (auto simp: set_ref_def split: option.splits)

lemma keys_move_to_end: "distinct (dkeys d) \<Longrightarrow> distinct (dkeys (move_to_end k d)) \<and> set (dkeys (move_to_end k d)) = set (dkeys d)"
proof (cases "dget d k")
  case (Some v)
  assume "distinct (dkeys d)"
  moreover have "k \<in> set (dkeys d)" using Some by (rule dget_Some_key)
  moreover have "dkeys (move_to_end k d) = removeAll k (dkeys d) @ [k]" using Some by (simp add: move_to_end_def delete_keys)
  ultimately show ?thesis by (auto simp: distinct_removeAll simp del: set_map)
qed (simp add: move_to_end_def)

lemma lru_touch_ok: "lru_inv p \<Longrightarrow> lru_inv (lru_touch ks p) \<and> lru_blocks (lru_touch ks p) = lru_blocks p"
proof -
  have "lru_inv p \<Longrightarrow> lru_inv (fold (\<lambda>key p. if dget (evictable_blocks p) key \<noteq> None
        then p\<lparr>evictable_blocks := move_to_end key (evictable_blocks p)\<rparr> else p) xs p) \<and>
      lru_blocks (fold (\<lambda>key p. if dget (evictable_blocks p) key \<noteq> None
        then p\<lparr>evictable_blocks := move_to_end key (evictable_blocks p)\<rparr> else p) xs p) = lru_blocks p" for xs
  proof (induction xs arbitrary: p)
    case (Cons k ks)
    have "lru_inv (p\<lparr>evictable_blocks := move_to_end k (evictable_blocks p)\<rparr>)"
      using Cons.prems keys_move_to_end [of "evictable_blocks p" k] by (simp add: lru_inv_def del: set_map)
    then show ?case using Cons.IH [of "p\<lparr>evictable_blocks := move_to_end k (evictable_blocks p)\<rparr>"] Cons.IH [OF Cons.prems] by simp
  qed simp
  then show "lru_inv p \<Longrightarrow> lru_inv (lru_touch ks p) \<and> lru_blocks (lru_touch ks p) = lru_blocks p" by (simp add: lru_touch_def)
qed


lemma lru_candidates_ok:
  assumes "\<forall>k \<in> set ks. \<exists>b. dget (lru_blocks p) k = Some b \<and> bs_ref_cnt b = 0" "int (length acc) < n"
  shows "\<exists>cs. lru_candidates p n prot ks acc = Inr (acc @ cs) \<and>
    cs = map (\<lambda>k. (k, the (dget (lru_blocks p) k))) (take (nat n - length acc) (filter (\<lambda>k. k \<notin> set prot) ks))"
  using assms
proof (induction ks arbitrary: acc)
  case (Cons k ks)
  obtain b where b: "dget (lru_blocks p) k = Some b" "bs_ref_cnt b = 0" using Cons.prems(1) by auto
  show ?case
  proof (cases "k \<in> set prot")
    case True
    with Cons show ?thesis by auto
  next
    case False
    have s: "nat n - length acc = Suc (nat n - length (acc @ [(k, b)]))" using Cons.prems(2) by simp
    show ?thesis
    proof (cases "int (length (acc @ [(k, b)])) = n")
      case True
      then show ?thesis using False b unfolding s by (simp add: Let_def)
    next
      case neq: False
      then have "int (length (acc @ [(k, b)])) < n" using Cons.prems(2) by simp
      from Cons.IH [OF _ this] Cons.prems(1) neq False b show ?thesis unfolding s by (simp add: Let_def)
    qed
  qed
qed simp

lemma lru_drop_fields:
  "lru_blocks (fold (\<lambda>(key, _) p. p\<lparr>evictable_blocks := ddel key (evictable_blocks p), lru_blocks := ddel key (lru_blocks p)\<rparr>) cs p) =
     fold (\<lambda>k d. ddel k d) (map fst cs) (lru_blocks p)"
  "evictable_blocks (fold (\<lambda>(key, _) p. p\<lparr>evictable_blocks := ddel key (evictable_blocks p), lru_blocks := ddel key (lru_blocks p)\<rparr>) cs p) =
     fold (\<lambda>k d. ddel k d) (map fst cs) (evictable_blocks p)"
  by (induction cs arbitrary: p) (auto simp: case_prod_beta)

lemma dget_fold_ddel: "dget (fold (\<lambda>k d. ddel k d) ks d) = dget d |` (- set ks)"
  by (induction ks arbitrary: d) (auto simp: fun_eq_iff restrict_map_def)

lemma keys_fold_ddel: "distinct (dkeys d) \<Longrightarrow> distinct (dkeys (fold (\<lambda>k d. ddel k d) ks d))"
  by (induction ks arbitrary: d) auto

lemma lru_evict_ok:
  fixes prot :: "bytes list"
  assumes inv: "lru_inv p" and n: "0 \<le> n"
  defines "idle \<equiv> filter (\<lambda>k. k \<notin> set prot) (dkeys (evictable_blocks p))"
  shows "if n \<le> int (length idle)
    then \<exists>ev p'. lru_evict n prot p = Inr (Some ev, p') \<and> map fst ev = take (nat n) idle \<and>
      (\<forall>(k, b) \<in> set ev. dget (lru_blocks p) k = Some b \<and> bs_ref_cnt b = 0) \<and>
      lru_inv p' \<and> dget (lru_blocks p') = dget (lru_blocks p) |` (- set (take (nat n) idle))
    else lru_evict n prot p = Inr (None, p)"
proof (cases "n = 0")
  case True
  then show ?thesis using inv by (simp add: lru_evict_def restrict_map_def)
next
  case False
  have ev: "\<forall>k \<in> set (dkeys (evictable_blocks p)). \<exists>b. dget (lru_blocks p) k = Some b \<and> bs_ref_cnt b = 0"
    using inv by (simp add: lru_inv_def del: set_map)
  define cs where "cs = map (\<lambda>k. (k, the (dget (lru_blocks p) k))) (take (nat n) idle)"
  have run: "lru_candidates p n prot (dkeys (evictable_blocks p)) [] = Inr cs"
    using lru_candidates_ok [OF ev, of "[]" n prot] False n by (auto simp: cs_def idle_def)
  have fst: "map fst cs = take (nat n) idle" by (simp add: cs_def o_def)
  have len: "length cs = min (length idle) (nat n)" by (simp add: cs_def)
  show ?thesis
  proof (cases "n \<le> int (length idle)")
    case True
    define p' where "p' = fold (\<lambda>(key, _) p. p\<lparr>evictable_blocks := ddel key (evictable_blocks p), lru_blocks := ddel key (lru_blocks p)\<rparr>) cs p"
    have "lru_evict n prot p = Inr (Some cs, p')" using False n True run len by (simp add: lru_evict_def p'_def)
    moreover have get: "dget (lru_blocks p') = dget (lru_blocks p) |` (- set (take (nat n) idle))"
      by (simp only: p'_def lru_drop_fields dget_fold_ddel fst)
    moreover have "lru_inv p'"
    proof -
      have "dget (evictable_blocks p') = dget (evictable_blocks p) |` (- set (take (nat n) idle))"
        by (simp only: p'_def lru_drop_fields dget_fold_ddel fst)
      moreover have "k \<in> set (dkeys d) \<longleftrightarrow> dget d k \<noteq> None" for k and d :: "(bytes, unit) dict" using dget_None_iff by metis
      ultimately show ?thesis
        using inv get unfolding lru_inv_def by (simp add: p'_def lru_drop_fields keys_fold_ddel restrict_map_def del: set_map)
    qed
    moreover have "\<forall>(k, b) \<in> set cs. dget (lru_blocks p) k = Some b \<and> bs_ref_cnt b = 0"
    proof -
      have "set (take (nat n) idle) \<subseteq> set (dkeys (evictable_blocks p))" unfolding idle_def by (meson filter_is_subset set_take_subset subset_trans)
      then show ?thesis using ev by (force simp: cs_def)
    qed
    ultimately show ?thesis using True fst by auto
  next
    case short: False
    then show ?thesis using False n run len by (simp add: lru_evict_def)
  qed
qed


lemma lru_idle_card:
  assumes "lru_inv p"
  shows "card {k. k \<notin> set prot \<and> (\<exists>b. dget (lru_blocks p) k = Some b \<and> bs_ref_cnt b = 0)} =
    length (filter (\<lambda>k. k \<notin> set prot) (dkeys (evictable_blocks p)))"
proof -
  have "{k. k \<notin> set prot \<and> (\<exists>b. dget (lru_blocks p) k = Some b \<and> bs_ref_cnt b = 0)} =
      set (filter (\<lambda>k. k \<notin> set prot) (dkeys (evictable_blocks p)))"
    using assms by (auto simp: lru_inv_def simp del: set_map)
  moreover have "distinct (filter (\<lambda>k. k \<notin> set prot) (dkeys (evictable_blocks p)))" using assms by (simp add: lru_inv_def)
  ultimately show ?thesis by (simp only: distinct_card)
qed

lemma lru_evict_law:
  assumes "lru_inv p" "0 \<le> n"
  shows "\<exists>r p'. lru_evict n prot p = Inr (r, p') \<and>
      (case r of None \<Rightarrow> p' = p
       | Some ev \<Rightarrow> int (length ev) = n \<and> distinct (map fst ev) \<and>
           (\<forall>(k, b) \<in> set ev. lru_get p k = Some b \<and> bs_ref_cnt b = 0 \<and> k \<notin> set prot) \<and>
           lru_inv p' \<and> lru_get p' = lru_get p |` (- set (map fst ev)))"
proof -
  define idle where "idle = filter (\<lambda>k. k \<notin> set prot) (dkeys (evictable_blocks p))"
  have di: "distinct idle" using assms(1) by (simp add: idle_def lru_inv_def)
  have get: "lru_get q = dget (lru_blocks q)" for q by (simp add: fun_eq_iff lru_get_def)
  show ?thesis
  proof (cases "n \<le> int (length idle)")
    case True
    then obtain ev p' where e: "lru_evict n prot p = Inr (Some ev, p')" "map fst ev = take (nat n) idle"
      "\<forall>(k, b) \<in> set ev. dget (lru_blocks p) k = Some b \<and> bs_ref_cnt b = 0" "lru_inv p'"
      "dget (lru_blocks p') = dget (lru_blocks p) |` (- set (take (nat n) idle))"
      using lru_evict_ok [OF assms, of prot] unfolding idle_def by auto
    have "length ev = nat n" using arg_cong [OF e(2), of length] True assms(2) by simp
    moreover have "k \<notin> set prot" if "(k, b) \<in> set ev" for k b
    proof -
      have "k \<in> set (map fst ev)" using that by force
      then have "k \<in> set idle" unfolding e(2) by (rule in_set_takeD)
      then show ?thesis by (simp add: idle_def)
    qed
    ultimately show ?thesis using e di assms(2) unfolding get by (intro exI [of _ "Some ev"] exI [of _ p']) auto
  next
    case False
    then show ?thesis using lru_evict_ok [OF assms, of prot] unfolding idle_def by auto
  qed
qed

interpretation lru: complete_policy lru_inv lru_get lru_insert lru_remove lru_touch lru_clear lru_evict
    lru_mark_evictable lru_mark_non_evictable lru_set_ref
proof unfold_locales
  fix p k b v n prot ks
  have get: "lru_get q = dget (lru_blocks q)" for q by (simp add: fun_eq_iff lru_get_def)
  have key: "k \<in> set (dkeys (evictable_blocks p)) \<longleftrightarrow> (\<exists>b. dget (lru_blocks p) k = Some b \<and> bs_ref_cnt b = 0)" if "lru_inv p" for k
    using that by (simp add: lru_inv_def del: set_map)
  show "lru_inv p \<Longrightarrow> finite (dom (lru_get p))" by (simp add: get finite_dom_map_of)
  show "lru_inv (lru_insert k b p) \<and> lru_get (lru_insert k b p) = (lru_get p)(k \<mapsto> b)"
    if "lru_inv p" "lru_get p k = None" "bs_ref_cnt b = -1"
    using that by (auto simp: lru_insert_def lru_inv_def get Let_def simp del: set_map)
  show "\<exists>p'. lru_remove k p = Inr p' \<and> lru_inv p' \<and> lru_get p' = (lru_get p)(k := None)" if "lru_inv p" "lru_get p k \<noteq> None"
    using that by (auto simp: lru_remove_def lru_inv_def get simp del: set_map)
  show "lru_inv p \<Longrightarrow> lru_inv (lru_touch ks p) \<and> lru_get (lru_touch ks p) = lru_get p" using lru_touch_ok by (simp add: get)
  show "lru_inv p \<Longrightarrow> lru_inv (lru_clear p) \<and> lru_get (lru_clear p) = Map.empty" by (simp add: lru_clear_def lru_inv_def get)
  show "\<exists>p'. lru_mark_non_evictable k p = Inr p' \<and> lru_inv (lru_set_ref k v p') \<and>
      lru_get (lru_set_ref k v p') = (lru_get p)(k \<mapsto> b\<lparr>bs_ref_cnt := c_int32 v\<rparr>)"
    if "lru_inv p" "lru_get p k = Some b" "bs_ref_cnt b = 0" "c_int32 v \<noteq> 0"
  proof -
    have "dget (evictable_blocks p) k \<noteq> None" using key [OF that(1), of k] that dget_None_iff [of "evictable_blocks p" k] by (simp add: get del: set_map)
    then show ?thesis using that
      by (auto simp: lru_mark_non_evictable_def lru_set_ref_def lru_inv_def get simp del: set_map)
  qed
  show "lru_inv (lru_mark_evictable k (lru_set_ref k 0 p)) \<and>
      lru_get (lru_mark_evictable k (lru_set_ref k 0 p)) = (lru_get p)(k \<mapsto> b\<lparr>bs_ref_cnt := 0\<rparr>)"
    if "lru_inv p" "lru_get p k = Some b" "bs_ref_cnt b \<noteq> 0"
    using that c_int32_id [of 0] by (auto simp: lru_mark_evictable_def lru_set_ref_def lru_inv_def get simp del: set_map)
  show "lru_inv (lru_set_ref k v p) \<and> lru_get (lru_set_ref k v p) = (lru_get p)(k \<mapsto> b\<lparr>bs_ref_cnt := c_int32 v\<rparr>)"
    if "lru_inv p" "lru_get p k = Some b" "bs_ref_cnt b \<noteq> 0" "c_int32 v \<noteq> 0"
    using that by (auto simp: lru_set_ref_def lru_inv_def get simp del: set_map)
  show "\<exists>ev p'. lru_evict n prot p = Inr (Some ev, p')"
    if "lru_inv p" "0 \<le> n" "n \<le> int (card {k. k \<notin> set prot \<and> (\<exists>b. lru_get p k = Some b \<and> bs_ref_cnt b = 0)})"
    using lru_evict_ok [OF that(1,2), of prot] that(3) lru_idle_card [OF that(1), of prot] by (auto simp: get)
qed (rule lru_evict_law)



section \<open>ARC keeps the promise\<close>

definition arc_inv :: "arc_policy \<Rightarrow> bool" where
  "arc_inv p \<longleftrightarrow> distinct (dkeys (t1 p)) \<and> distinct (dkeys (t2 p)) \<and> dom (dget (t1 p)) \<inter> dom (dget (t2 p)) = {} \<and>
     0 \<le> arc_capacity p \<and> 0 \<le> target_t1_size p \<and> target_t1_size p \<le> of_int (arc_capacity p)"

lemma arc_get_map: "arc_get p = dget (t2 p) ++ dget (t1 p)"
  by (auto simp: arc_get_def map_add_def fun_eq_iff split: option.splits)

lemma arc_get_t1 [simp]: "dget (t1 p) k = Some b \<Longrightarrow> arc_get p k = Some b"
  by (simp add: arc_get_def)

lemma arc_disjoint: "arc_inv p \<Longrightarrow> dget (t2 p) k = Some b \<Longrightarrow> dget (t1 p) k = None"
  by (auto simp: arc_inv_def)

lemma arc_touch_one_ok:
  assumes "arc_inv p"
  shows "arc_inv (arc_touch_one k p) \<and> arc_get (arc_touch_one k p) = arc_get p"
proof (cases "dget (t1 p) k")
  case (Some b)
  have "dget (t2 p) k = None" using assms Some by (auto simp: arc_inv_def)
  then show ?thesis
    using assms Some by (auto simp: arc_touch_one_def arc_inv_def arc_get_def Let_def fun_eq_iff split: option.splits)
next
  case None
  then show ?thesis
    using assms keys_move_to_end [of "t2 p" k]
    by (auto simp: arc_touch_one_def arc_inv_def arc_get_def Let_def fun_eq_iff min_def max_def split: option.splits)
qed

lemma arc_touch_ok: "arc_inv p \<Longrightarrow> arc_inv (arc_touch ks p) \<and> arc_get (arc_touch ks p) = arc_get p"
proof -
  have "arc_inv p \<Longrightarrow> arc_inv (fold arc_touch_one xs p) \<and> arc_get (fold arc_touch_one xs p) = arc_get p" for xs
  proof (induction xs arbitrary: p)
    case (Cons x xs)
    with arc_touch_one_ok [OF Cons.prems, of x] show ?case by simp
  qed simp
  then show "arc_inv p \<Longrightarrow> arc_inv (arc_touch ks p) \<and> arc_get (arc_touch ks p) = arc_get p" by (simp add: arc_touch_def)
qed

lemma arc_first_ok:
  assumes "arc_first prot sel d = Some (k, b)" "distinct (dkeys d)"
  shows "dget d k = Some b \<and> bs_ref_cnt b = 0 \<and> k \<notin> set prot \<and> k \<notin> set sel"
proof -
  have "(k, b) \<in> set d" "bs_ref_cnt b = 0 \<and> k \<notin> set prot \<and> k \<notin> set sel"
    using assms(1) nth_mem by (fastforce simp: arc_first_def find_Some_iff)+
  then show ?thesis using assms(2) by (simp add: map_of_eq_Some_iff)
qed

definition arc_picks :: "arc_policy \<Rightarrow> bytes list \<Rightarrow> (bytes \<times> block_status \<times> bool) list \<Rightarrow> bool" where
  "arc_picks p prot cs \<longleftrightarrow> distinct (map fst cs) \<and>
     (\<forall>(k, b, from_t1) \<in> set cs. dget (if from_t1 then t1 p else t2 p) k = Some b \<and> bs_ref_cnt b = 0 \<and> k \<notin> set prot)"

lemma arc_select_ok:
  assumes "arc_inv p" "arc_picks p prot acc" "arc_select n prot v acc p = Some cs"
  shows "arc_picks p prot cs \<and> length cs = length acc + n"
  using assms(2,3)
proof (induction n arbitrary: v acc)
  case (Suc n)
  have d: "distinct (dkeys (t1 p))" "distinct (dkeys (t2 p))" using assms(1) by (auto simp: arc_inv_def)
  define c1 where "c1 = (if v \<ge> \<lfloor>target_t1_size p\<rfloor> then arc_first prot (map fst acc) (t1 p) else None)"
  show ?case
  proof (cases c1)
    case (Some kb)
    obtain k b where kb: "kb = (k, b)" by fastforce
    then have "arc_first prot (map fst acc) (t1 p) = Some (k, b)" using Some by (auto simp: c1_def split: if_splits)
    from arc_first_ok [OF this d(1)] have "arc_picks p prot (acc @ [(k, b, True)])" using Suc.prems(1) by (auto simp: arc_picks_def)
    moreover have "arc_select n prot (v - 1) (acc @ [(k, b, True)]) p = Some cs"
      using Suc.prems(2) Some kb by (simp add: c1_def [symmetric])
    ultimately show ?thesis using Suc.IH by fastforce
  next
    case None
    then obtain k b where kb: "arc_first prot (map fst acc) (t2 p) = Some (k, b)"
      and run: "arc_select n prot v (acc @ [(k, b, False)]) p = Some cs"
      using Suc.prems(2) by (auto simp: c1_def [symmetric] split: option.splits)
    from arc_first_ok [OF kb d(2)] have "arc_picks p prot (acc @ [(k, b, False)])" using Suc.prems(1) by (auto simp: arc_picks_def)
    with run Suc.IH show ?thesis by fastforce
  qed
qed simp

lemma arc_drop_ok:
  assumes "arc_inv p" "arc_picks p prot cs"
  shows "arc_inv (fold arc_drop_one cs p) \<and> arc_get (fold arc_drop_one cs p) = arc_get p |` (- set (map fst cs)) \<and>
    arc_capacity (fold arc_drop_one cs p) = arc_capacity p"
  using assms
proof (induction cs arbitrary: p)
  case (Cons c cs)
  obtain k b f where c: "c = (k, b, f)" by (cases c)
  define q where "q = arc_drop_one c p"
  have kb: "dget (if f then t1 p else t2 p) k = Some b" using Cons.prems(2) c by (simp add: arc_picks_def)
  have q: "arc_inv q" "arc_get q = (arc_get p)(k := None)"
    using Cons.prems(1) kb c by (auto simp: q_def arc_drop_one_def arc_inv_def arc_get_def fun_eq_iff split: option.splits if_splits)
  have "arc_picks q prot cs" unfolding arc_picks_def
  proof (intro conjI ballI)
    show "distinct (map fst cs)" using Cons.prems(2) by (simp add: arc_picks_def)
    fix x assume x: "x \<in> set cs"
    obtain k' b' f' where x': "x = (k', b', f')" by (cases x)
    have "k' \<noteq> k" using Cons.prems(2) x c x' by (force simp: arc_picks_def)
    moreover have "dget (if f' then t1 p else t2 p) k' = Some b' \<and> bs_ref_cnt b' = 0 \<and> k' \<notin> set prot"
      using Cons.prems(2) x x' by (auto simp: arc_picks_def)
    ultimately show "case x of (k, b, from_t1) \<Rightarrow> dget (if from_t1 then t1 q else t2 q) k = Some b \<and> bs_ref_cnt b = 0 \<and> k \<notin> set prot"
      using c x' by (auto simp: q_def arc_drop_one_def split: if_splits)
  qed
  note IH = Cons.IH [OF q(1) this, unfolded q(2)]
  have "arc_capacity q = arc_capacity p" by (simp add: q_def arc_drop_one_def c)
  moreover have "(arc_get p)(k := None) |` (- set (map fst cs)) = arc_get p |` (- set (map fst (c # cs)))"
    by (rule ext) (simp add: restrict_map_def c del: set_map)
  moreover have "fold arc_drop_one (c # cs) p = fold arc_drop_one cs q" by (simp add: q_def)
  ultimately show ?case using IH by (simp only:)
qed (simp add: restrict_map_def)

lemma arc_evict_law:
  assumes "arc_inv p" "0 \<le> n"
  shows "\<exists>r p'. Inr (arc_evict n prot p) = (Inr (r, p') :: _ result) \<and>
      (case r of None \<Rightarrow> p' = p
       | Some ev \<Rightarrow> int (length ev) = n \<and> distinct (map fst ev) \<and>
           (\<forall>(k, b) \<in> set ev. arc_get p k = Some b \<and> bs_ref_cnt b = 0 \<and> k \<notin> set prot) \<and>
           arc_inv p' \<and> arc_get p' = arc_get p |` (- set (map fst ev)))"
proof (cases "n = 0 \<or> arc_select (nat n) prot (int (length (t1 p))) [] p = None")
  case True
  then show ?thesis using assms by (auto simp: arc_evict_def restrict_map_def)
next
  case False
  then obtain cs where cs: "arc_select (nat n) prot (int (length (t1 p))) [] p = Some cs" by auto
  have pk: "arc_picks p prot cs" "length cs = nat n" using arc_select_ok [OF assms(1) _ cs] by (auto simp: arc_picks_def)
  define p1 where "p1 = fold arc_drop_one cs p"
  define p' where "p' = p1\<lparr>b1 := trim_ghost (arc_capacity p) (b1 p1), b2 := trim_ghost (arc_capacity p) (b2 p1)\<rparr>"
  define ev where "ev = map (\<lambda>(k, b, _ :: bool). (k, b)) cs"
  have run: "arc_evict n prot p = (Some ev, p')" using False cs by (simp add: arc_evict_def p1_def p'_def ev_def Let_def)
  have fst: "map fst ev = map fst cs" by (auto simp: ev_def)
  have d: "arc_inv p1" "arc_get p1 = arc_get p |` (- set (map fst cs))" using arc_drop_ok [OF assms(1) pk(1)] by (auto simp: p1_def)
  have "arc_inv p'" "arc_get p' = arc_get p1" using d(1) by (simp_all add: p'_def arc_inv_def arc_get_def fun_eq_iff cong: option.case_cong)
  moreover have "\<forall>(k, b) \<in> set ev. arc_get p k = Some b \<and> bs_ref_cnt b = 0 \<and> k \<notin> set prot"
    using pk(1) arc_disjoint [OF assms(1)] by (fastforce simp: ev_def arc_picks_def arc_get_def split: if_splits)
  moreover have "int (length ev) = n" "distinct (map fst ev)" using pk assms(2) by (simp_all only: fst) (simp_all add: ev_def arc_picks_def)
  ultimately show ?thesis
    using run d(2) by (intro exI [of _ "Some ev"] exI [of _ p']) (simp del: set_map add: fst)
qed

interpretation arc: cache_policy arc_inv arc_get arc_insert "\<lambda>k p. Inr (arc_remove k p)" arc_touch arc_clear
    "\<lambda>n prot p. Inr (arc_evict n prot p)" "\<lambda>k p. p" "\<lambda>k p. Inr p" arc_set_ref
proof unfold_locales
  fix p k b v n prot ks
  show "arc_inv p \<Longrightarrow> finite (dom (arc_get p))" by (simp add: arc_get_map finite_dom_map_of)
  show "arc_inv (arc_insert k b p) \<and> arc_get (arc_insert k b p) = (arc_get p)(k \<mapsto> b)"
    if "arc_inv p" "arc_get p k = None" "bs_ref_cnt b = -1"
    using that by (auto simp: arc_insert_def arc_inv_def arc_get_def fun_eq_iff split: option.splits)
  show "\<exists>p'. Inr (arc_remove k p) = Inr p' \<and> arc_inv p' \<and> arc_get p' = (arc_get p)(k := None)" if "arc_inv p" "arc_get p k \<noteq> None"
    using that by (auto simp: arc_remove_def arc_inv_def arc_get_def fun_eq_iff split: option.splits)
  show "arc_inv p \<Longrightarrow> arc_inv (arc_touch ks p) \<and> arc_get (arc_touch ks p) = arc_get p" by (rule arc_touch_ok)
  show "arc_inv p \<Longrightarrow> arc_inv (arc_clear p) \<and> arc_get (arc_clear p) = Map.empty"
    by (auto simp: arc_clear_def arc_inv_def arc_get_def fun_eq_iff)
  have ref: "arc_inv (arc_set_ref k v p) \<and> arc_get (arc_set_ref k v p) = (arc_get p)(k \<mapsto> b\<lparr>bs_ref_cnt := c_int32 v\<rparr>)"
    if "arc_inv p" "arc_get p k = Some b" for v
    using that by (auto simp: arc_set_ref_def arc_inv_def arc_get_def fun_eq_iff split: option.splits)
  then show "\<exists>p'. Inr p = Inr p' \<and> arc_inv (arc_set_ref k v p') \<and>
      arc_get (arc_set_ref k v p') = (arc_get p)(k \<mapsto> b\<lparr>bs_ref_cnt := c_int32 v\<rparr>)"
    if "arc_inv p" "arc_get p k = Some b" "bs_ref_cnt b = 0" "c_int32 v \<noteq> 0" using that by auto
  show "arc_inv (arc_set_ref k 0 p) \<and> arc_get (arc_set_ref k 0 p) = (arc_get p)(k \<mapsto> b\<lparr>bs_ref_cnt := 0\<rparr>)"
    if "arc_inv p" "arc_get p k = Some b" "bs_ref_cnt b \<noteq> 0" using ref [OF that(1,2), of 0] c_int32_id [of 0] by simp
  show "arc_inv (arc_set_ref k v p) \<and> arc_get (arc_set_ref k v p) = (arc_get p)(k \<mapsto> b\<lparr>bs_ref_cnt := c_int32 v\<rparr>)"
    if "arc_inv p" "arc_get p k = Some b" "bs_ref_cnt b \<noteq> 0" "c_int32 v \<noteq> 0" using ref that by blast
qed (rule arc_evict_law)

end
