(* ===== verification/Offload_Manager.thy ===== *)
theory Offload_Manager
  imports "HOL-Library.Multiset" Offload_Policy
begin

text \<open>
  \<^verbatim>\<open>CPUOffloadingManager\<close> of \<^verbatim>\<open>vllm/v1/kv_offload/cpu/manager.py\<close>: which KV blocks are kept in CPU memory, their slots and
  their state during transfers. The policy is chosen by name; policies loaded from other modules are left out.
\<close>

section \<open>Either policy\<close>

datatype offload_policy = LRUPolicy lru_policy | ARCPolicy arc_policy

definition get_cache_policy :: "string \<Rightarrow> int \<Rightarrow> offload_policy result" where
  "get_cache_policy name capacity =
     (if name = ''lru'' then Inr (LRUPolicy (lru_init capacity))
      else if name = ''arc'' then Inr (ARCPolicy (arc_init capacity))
      else Inl ValueError)"

fun pol_get :: "offload_policy \<Rightarrow> bytes \<Rightarrow> block_status option" where
  "pol_get (LRUPolicy p) key = lru_get p key"
| "pol_get (ARCPolicy p) key = arc_get p key"

fun pol_insert :: "bytes \<Rightarrow> block_status \<Rightarrow> offload_policy \<Rightarrow> offload_policy" where
  "pol_insert key b (LRUPolicy p) = LRUPolicy (lru_insert key b p)"
| "pol_insert key b (ARCPolicy p) = ARCPolicy (arc_insert key b p)"

fun pol_remove :: "bytes \<Rightarrow> offload_policy \<Rightarrow> offload_policy result" where
  "pol_remove key (LRUPolicy p) = ebind (lru_remove key p) (\<lambda>p'. Inr (LRUPolicy p'))"
| "pol_remove key (ARCPolicy p) = Inr (ARCPolicy (arc_remove key p))"

fun pol_touch :: "bytes list \<Rightarrow> offload_policy \<Rightarrow> offload_policy" where
  "pol_touch keys (LRUPolicy p) = LRUPolicy (lru_touch keys p)"
| "pol_touch keys (ARCPolicy p) = ARCPolicy (arc_touch keys p)"

fun pol_clear :: "offload_policy \<Rightarrow> offload_policy" where
  "pol_clear (LRUPolicy p) = LRUPolicy (lru_clear p)"
| "pol_clear (ARCPolicy p) = ARCPolicy (arc_clear p)"

fun pol_evict :: "int \<Rightarrow> bytes list \<Rightarrow> offload_policy \<Rightarrow> ((bytes \<times> block_status) list option \<times> offload_policy) result" where
  "pol_evict n protected (LRUPolicy p) = ebind (lru_evict n protected p) (\<lambda>(r, p'). Inr (r, LRUPolicy p'))"
| "pol_evict n protected (ARCPolicy p) = (case arc_evict n protected p of (r, p') \<Rightarrow> Inr (r, ARCPolicy p'))"

fun pol_mark_evictable :: "bytes \<Rightarrow> offload_policy \<Rightarrow> offload_policy" where
  "pol_mark_evictable key (LRUPolicy p) = LRUPolicy (lru_mark_evictable key p)"
| "pol_mark_evictable key (ARCPolicy p) = ARCPolicy p"

fun pol_mark_non_evictable :: "bytes \<Rightarrow> offload_policy \<Rightarrow> offload_policy result" where
  "pol_mark_non_evictable key (LRUPolicy p) = ebind (lru_mark_non_evictable key p) (\<lambda>p'. Inr (LRUPolicy p'))"
| "pol_mark_non_evictable key (ARCPolicy p) = Inr (ARCPolicy p)"

fun pol_set_ref :: "bytes \<Rightarrow> int \<Rightarrow> offload_policy \<Rightarrow> offload_policy" where
  "pol_set_ref key n (LRUPolicy p) = LRUPolicy (lru_set_ref key n p)"
| "pol_set_ref key n (ARCPolicy p) = ARCPolicy (arc_set_ref key n p)"


section \<open>State\<close>

datatype lookup_result = MISS | HIT | HIT_PENDING | RETRY

record offload_event =
  oe_keys :: "bytes list"
  oe_removed :: bool

record prepare_store_output =
  keys_to_store :: "bytes list"
  store_spec :: "int list"
  evicted_keys :: "bytes list"

record offload_manager =
  om_num_blocks :: int
  num_allocated_blocks :: int
  free_list :: "int list"
  om_events :: "offload_event list option"
  policy :: offload_policy
  num_evictable_cache_blocks :: int
  num_write_pending_blocks :: int
  store_threshold :: int
  max_tracker_size :: int
  stores_skipped :: int
  allocation_sizes :: "int list"
  counts :: "(bytes, int) dict option"

definition om_init :: "int \<Rightarrow> string \<Rightarrow> bool \<Rightarrow> int \<Rightarrow> int \<Rightarrow> offload_manager result" where
  "om_init num_blocks policy_name enable_events threshold tracker =
     ebind (get_cache_policy policy_name num_blocks) (\<lambda>p.
     Inr \<lparr>om_num_blocks = num_blocks, num_allocated_blocks = 0, free_list = [],
          om_events = (if enable_events then Some [] else None), policy = p, num_evictable_cache_blocks = 0,
          num_write_pending_blocks = 0, store_threshold = threshold, max_tracker_size = tracker, stores_skipped = 0,
          allocation_sizes = [], counts = (if threshold \<ge> 2 then Some [] else None)\<rparr>)"

definition om_get_num_free_blocks :: "offload_manager \<Rightarrow> int" where
  "om_get_num_free_blocks m = int (length (free_list m)) + om_num_blocks m - num_allocated_blocks m"

definition allocate_blocks :: "bytes list \<Rightarrow> offload_manager \<Rightarrow> (block_status list \<times> offload_manager) result" where
  "allocate_blocks keys m =
     (let num_fresh = min (int (length keys)) (om_num_blocks m - num_allocated_blocks m);
          num_reused = int (length keys) - num_fresh in
      eassert (int (length (free_list m)) \<ge> num_reused)
      (let fresh = map new_block_status [num_allocated_blocks m..num_allocated_blocks m + num_fresh - 1];
           reused = map new_block_status (take (nat num_reused) (rev (free_list m)))
       in Inr (fresh @ reused,
               m\<lparr>num_allocated_blocks := num_allocated_blocks m + int (length fresh),
                 free_list := take (length (free_list m) - nat num_reused) (free_list m)\<rparr>)))"

definition free_block :: "block_status \<Rightarrow> offload_manager \<Rightarrow> offload_manager" where
  "free_block b m = m\<lparr>free_list := free_list m @ [bs_block_id b]\<rparr>"

definition push_offload_event :: "bytes list \<Rightarrow> bool \<Rightarrow> offload_manager \<Rightarrow> offload_manager" where
  "push_offload_event keys removed m =
     (if keys = [] then m
      else m\<lparr>om_events := map_option (\<lambda>es. es @ [\<lparr>oe_keys = keys, oe_removed = removed\<rparr>]) (om_events m)\<rparr>)"


section \<open>Operations\<close>

definition count_lookup :: "bytes \<Rightarrow> offload_manager \<Rightarrow> offload_manager result" where
  "count_lookup key m =
     (case counts m of
        None \<Rightarrow> Inr m
      | Some cs \<Rightarrow>
          (case dget cs key of
             Some n \<Rightarrow> Inr (m\<lparr>counts := Some (dset key (n + 1) (move_to_end key cs))\<rparr>)
           | None \<Rightarrow>
               ebind (if int (length cs) \<ge> max_tracker_size m then (case cs of [] \<Rightarrow> Inl KeyError | _ # rest \<Rightarrow> Inr rest) else Inr cs)
                 (\<lambda>cs1. Inr (m\<lparr>counts := Some (dset key 1 cs1)\<rparr>))))"

definition om_lookup :: "bytes \<Rightarrow> offload_manager \<Rightarrow> (lookup_result \<times> offload_manager) result" where
  "om_lookup key m =
     ebind (count_lookup key m) (\<lambda>m1.
     Inr (case pol_get (policy m1) key of
            None \<Rightarrow> MISS
          | Some b \<Rightarrow> if \<not> is_ready b then HIT_PENDING else HIT, m1))"

definition prepare_load_one :: "bytes \<Rightarrow> int list \<times> offload_manager \<Rightarrow> (int list \<times> offload_manager) result" where
  "prepare_load_one key = (\<lambda>(ids, m).
     case pol_get (policy m) key of
       None \<Rightarrow> Inl AssertionError
     | Some b \<Rightarrow>
         eassert (is_ready b)
         (ebind (if bs_ref_cnt b = 0 then
                   ebind (pol_mark_non_evictable key (policy m)) (\<lambda>p1.
                   (let m1 = m\<lparr>policy := p1, num_evictable_cache_blocks := num_evictable_cache_blocks m - 1\<rparr>
                    in eassert (num_evictable_cache_blocks m1 \<ge> 0) (Inr m1)))
                 else Inr m) (\<lambda>m1.
          Inr (ids @ [bs_block_id b], m1\<lparr>policy := pol_set_ref key (bs_ref_cnt b + 1) (policy m1)\<rparr>))))"

definition prepare_load :: "bytes list \<Rightarrow> offload_manager \<Rightarrow> (int list \<times> offload_manager) result" where
  "prepare_load keys m = efold prepare_load_one keys ([], m)"

definition om_touch :: "bytes list \<Rightarrow> offload_manager \<Rightarrow> offload_manager" where
  "om_touch keys m = m\<lparr>policy := pol_touch keys (policy m)\<rparr>"

definition complete_load_one :: "bytes \<Rightarrow> offload_manager \<Rightarrow> offload_manager result" where
  "complete_load_one key m =
     (case pol_get (policy m) key of
        None \<Rightarrow> Inl AssertionError
      | Some b \<Rightarrow>
          eassert (bs_ref_cnt b > 0)
          (let m1 = m\<lparr>policy := pol_set_ref key (bs_ref_cnt b - 1) (policy m)\<rparr> in
           Inr (if c_int32 (bs_ref_cnt b - 1) = 0
                then m1\<lparr>num_evictable_cache_blocks := num_evictable_cache_blocks m1 + 1,
                        policy := pol_mark_evictable key (policy m1)\<rparr>
                else m1)))"

definition complete_load :: "bytes list \<Rightarrow> offload_manager \<Rightarrow> offload_manager result" where
  "complete_load keys m = efold complete_load_one keys m"

text \<open>The keys seen often enough; the others count as skipped stores.\<close>

definition frequent_keys :: "bytes list \<Rightarrow> offload_manager \<Rightarrow> bytes list \<times> offload_manager" where
  "frequent_keys keys m =
     (case counts m of
        None \<Rightarrow> (keys, m)
      | Some cs \<Rightarrow>
          (let ks = filter (\<lambda>k. dget_default cs k 0 \<ge> store_threshold m) keys
           in (ks, m\<lparr>stores_skipped := stores_skipped m + int (length keys) - int (length ks)\<rparr>)))"

text \<open>Room for \<open>n\<close> more blocks, by eviction if needed; \<^verbatim>\<open>None\<close> when there is no way.\<close>

definition evict_for_store :: "int \<Rightarrow> bytes list \<Rightarrow> offload_manager \<Rightarrow> (bytes list option \<times> offload_manager) result" where
  "evict_for_store num_blocks_to_evict keys m =
     (if num_blocks_to_evict > 0 then
        (if num_blocks_to_evict > num_evictable_cache_blocks m then Inr (None, m)
         else
           ebind (pol_evict num_blocks_to_evict keys (policy m)) (\<lambda>(r, p1).
           case r of
             None \<Rightarrow> Inr (None, m\<lparr>policy := p1\<rparr>)
           | Some evicted \<Rightarrow>
               (let m1 = m\<lparr>policy := p1, num_evictable_cache_blocks := num_evictable_cache_blocks m - int (length evicted)\<rparr> in
                eassert (num_evictable_cache_blocks m1 \<ge> 0)
                (Inr (Some (map fst evicted), fold (\<lambda>(key, b). free_block b) evicted m1)))))
      else Inr (Some [], m))"

definition prepare_store :: "bytes list \<Rightarrow> offload_manager \<Rightarrow> (prepare_store_output option \<times> offload_manager) result" where
  "prepare_store keys m =
     (case frequent_keys keys m of (keys, m1) \<Rightarrow>
      (let to_store = filter (\<lambda>k. pol_get (policy m1) k = None) keys in
       if to_store = [] then Inr (Some \<lparr>keys_to_store = [], store_spec = [], evicted_keys = []\<rparr>, m1)
       else
         (let m2 = m1\<lparr>allocation_sizes := allocation_sizes m1 @ [int (length to_store)]\<rparr> in
          ebind (evict_for_store (int (length to_store) - om_get_num_free_blocks m2) keys m2) (\<lambda>(r, m3).
          case r of
            None \<Rightarrow> Inr (None, m3)
          | Some to_evict \<Rightarrow>
              ebind (allocate_blocks to_store (push_offload_event to_evict True m3)) (\<lambda>(blocks, m4).
              eassert (length blocks = length to_store)
              (let p = fold (\<lambda>(key, b). pol_insert key b) (zip to_store blocks) (policy m4) in
               Inr (Some \<lparr>keys_to_store = to_store, store_spec = map bs_block_id blocks, evicted_keys = to_evict\<rparr>,
                    m4\<lparr>policy := p, num_write_pending_blocks := num_write_pending_blocks m4 + int (length to_store)\<rparr>)))))))"

definition complete_store_one :: "bytes \<Rightarrow> bytes list \<times> offload_manager \<Rightarrow> bytes list \<times> offload_manager" where
  "complete_store_one key = (\<lambda>(stored, m).
     case pol_get (policy m) key of
       None \<Rightarrow> (stored, m)
     | Some b \<Rightarrow>
         if \<not> is_ready b
         then (stored @ [key],
               m\<lparr>num_write_pending_blocks := num_write_pending_blocks m - 1,
                 num_evictable_cache_blocks := num_evictable_cache_blocks m + 1,
                 policy := pol_mark_evictable key (pol_set_ref key 0 (policy m))\<rparr>)
         else (stored, m))"

definition fail_store_one :: "bytes \<Rightarrow> offload_manager \<Rightarrow> offload_manager result" where
  "fail_store_one key m =
     (case pol_get (policy m) key of
        None \<Rightarrow> Inr m
      | Some b \<Rightarrow>
          if \<not> is_ready b
          then ebind (pol_remove key (policy m)) (\<lambda>p.
                 Inr (free_block b (m\<lparr>num_write_pending_blocks := num_write_pending_blocks m - 1, policy := p\<rparr>)))
          else Inr m)"

definition complete_store :: "bytes list \<Rightarrow> bool \<Rightarrow> offload_manager \<Rightarrow> offload_manager result" where
  "complete_store keys success m =
     (if success
      then (case fold complete_store_one keys ([], m) of (stored, m1) \<Rightarrow> Inr (push_offload_event stored False m1))
      else efold fail_store_one keys m)"

definition reset_cache :: "offload_manager \<Rightarrow> offload_manager" where
  "reset_cache m =
     m\<lparr>policy := pol_clear (policy m), num_evictable_cache_blocks := 0, num_write_pending_blocks := 0,
       free_list := [], num_allocated_blocks := 0\<rparr>"

definition om_take_events :: "offload_manager \<Rightarrow> offload_event list \<times> offload_manager" where
  "om_take_events m = (case om_events m of None \<Rightarrow> ([], m) | Some es \<Rightarrow> (es, m\<lparr>om_events := Some []\<rparr>))"

text \<open>The gauges, with exact division, the allocation sizes and the skipped stores since the last call.\<close>

definition get_stats :: "offload_manager \<Rightarrow> (rat \<times> rat \<times> rat \<times> int list \<times> int option) \<times> offload_manager" where
  "get_stats m =
     (let num_used = num_allocated_blocks m - int (length (free_list m)) - num_evictable_cache_blocks m;
          total = rat_of_int (om_num_blocks m);
          usage = (if om_num_blocks m > 0 then of_int num_used / total else 0);
          write_usage = (if om_num_blocks m > 0 then of_int (num_write_pending_blocks m) / total else 0);
          read_usage = max (usage - write_usage) 0
      in ((usage, write_usage, read_usage, allocation_sizes m, if store_threshold m \<ge> 2 then Some (stores_skipped m) else None),
          m\<lparr>allocation_sizes := [], stores_skipped := (if store_threshold m \<ge> 2 then 0 else stores_skipped m)\<rparr>))"



section \<open>Either policy keeps the promise\<close>

fun pol_inv :: "offload_policy \<Rightarrow> bool" where
  "pol_inv (LRUPolicy p) = lru_inv p"
| "pol_inv (ARCPolicy p) = arc_inv p"

lemma pol_get_eta [simp]: "pol_get (LRUPolicy p) = lru_get p" "pol_get (ARCPolicy q) = arc_get q"
  by (simp_all add: fun_eq_iff)

interpretation pol: cache_policy pol_inv pol_get pol_insert pol_remove pol_touch pol_clear pol_evict
    pol_mark_evictable pol_mark_non_evictable pol_set_ref
proof unfold_locales
  fix p k b v n prot ks
  show "pol_inv p \<Longrightarrow> finite (dom (pol_get p))" using lru.finite_keys arc.finite_keys by (cases p) auto
  show "pol_inv (pol_insert k b p) \<and> pol_get (pol_insert k b p) = (pol_get p)(k \<mapsto> b)"
    if "pol_inv p" "pol_get p k = None" "bs_ref_cnt b = -1"
    using that lru.put_law arc.put_law by (cases p) auto
  show "\<exists>p'. pol_remove k p = Inr p' \<and> pol_inv p' \<and> pol_get p' = (pol_get p)(k := None)" if "pol_inv p" "pol_get p k \<noteq> None"
  proof (cases p)
    case (LRUPolicy q)
    with that lru.del_law [of q k] show ?thesis by fastforce
  next
    case (ARCPolicy q)
    with that arc.del_law [of q k] show ?thesis by fastforce
  qed
  show "pol_inv p \<Longrightarrow> pol_inv (pol_touch ks p) \<and> pol_get (pol_touch ks p) = pol_get p"
    using lru.use_law arc.use_law by (cases p) auto
  show "pol_inv p \<Longrightarrow> pol_inv (pol_clear p) \<and> pol_get (pol_clear p) = Map.empty"
    using lru.wipe_law arc.wipe_law by (cases p) auto
  show "\<exists>r p'. pol_evict n prot p = Inr (r, p') \<and>
      (case r of None \<Rightarrow> p' = p
       | Some ev \<Rightarrow> int (length ev) = n \<and> distinct (map fst ev) \<and>
           (\<forall>(k, b) \<in> set ev. pol_get p k = Some b \<and> bs_ref_cnt b = 0 \<and> k \<notin> set prot) \<and>
           pol_inv p' \<and> pol_get p' = pol_get p |` (- set (map fst ev)))" if "pol_inv p" "0 \<le> n"
  proof (cases p)
    case (LRUPolicy q)
    with that lru.evict_law [of q n prot] show ?thesis by (fastforce split: option.splits)
  next
    case (ARCPolicy q)
    with that arc.evict_law [of q n prot] show ?thesis by (fastforce split: option.splits prod.splits)
  qed
  show "\<exists>p'. pol_mark_non_evictable k p = Inr p' \<and> pol_inv (pol_set_ref k v p') \<and>
      pol_get (pol_set_ref k v p') = (pol_get p)(k \<mapsto> b\<lparr>bs_ref_cnt := c_int32 v\<rparr>)"
    if "pol_inv p" "pol_get p k = Some b" "bs_ref_cnt b = 0" "c_int32 v \<noteq> 0"
  proof (cases p)
    case (LRUPolicy q)
    with that lru.acquire_law [of q k b v] show ?thesis by fastforce
  next
    case (ARCPolicy q)
    with that arc.acquire_law [of q k b v] show ?thesis by fastforce
  qed
  show "pol_inv (pol_mark_evictable k (pol_set_ref k 0 p)) \<and>
      pol_get (pol_mark_evictable k (pol_set_ref k 0 p)) = (pol_get p)(k \<mapsto> b\<lparr>bs_ref_cnt := 0\<rparr>)"
    if "pol_inv p" "pol_get p k = Some b" "bs_ref_cnt b \<noteq> 0"
    using that lru.release_law arc.release_law by (cases p) auto
  show "pol_inv (pol_set_ref k v p) \<and> pol_get (pol_set_ref k v p) = (pol_get p)(k \<mapsto> b\<lparr>bs_ref_cnt := c_int32 v\<rparr>)"
    if "pol_inv p" "pol_get p k = Some b" "bs_ref_cnt b \<noteq> 0" "c_int32 v \<noteq> 0"
    using that lru.adjust_law arc.adjust_law by (cases p) auto
qed


section \<open>Invariant\<close>

text \<open>
  Every allocated CPU slot is either free or holds the block of exactly one key; the counters count the idle blocks and the
  blocks being written.
\<close>

definition slot_of :: "(bytes \<rightharpoonup> block_status) \<Rightarrow> bytes \<Rightarrow> int" where
  "slot_of g k = bs_block_id (the (g k))"

definition with_ref :: "(bytes \<rightharpoonup> block_status) \<Rightarrow> int \<Rightarrow> bytes set" where
  "with_ref g n = {k. \<exists>b. g k = Some b \<and> bs_ref_cnt b = n}"

definition slots_ok :: "(bytes \<rightharpoonup> block_status) \<Rightarrow> int list \<Rightarrow> int \<Rightarrow> bool" where
  "slots_ok g free n \<longleftrightarrow> inj_on (slot_of g) (dom g) \<and> distinct free \<and> slot_of g ` dom g \<inter> set free = {} \<and>
     slot_of g ` dom g \<union> set free = {0..<n}"

definition om_ok :: "offload_manager \<Rightarrow> bool" where
  "om_ok m \<longleftrightarrow> pol_inv (policy m) \<and> 0 \<le> num_allocated_blocks m \<and> num_allocated_blocks m \<le> om_num_blocks m \<and>
     slots_ok (pol_get (policy m)) (free_list m) (num_allocated_blocks m) \<and>
     (\<forall>k b. pol_get (policy m) k = Some b \<longrightarrow> -1 \<le> bs_ref_cnt b \<and> bs_ref_cnt b < 2 ^ 31) \<and>
     num_evictable_cache_blocks m = int (card (with_ref (pol_get (policy m)) 0)) \<and>
     num_write_pending_blocks m = int (card (with_ref (pol_get (policy m)) (-1)))"

lemma om_okD:
  assumes "om_ok m"
  shows "pol_inv (policy m)" "0 \<le> num_allocated_blocks m" "num_allocated_blocks m \<le> om_num_blocks m"
    "slots_ok (pol_get (policy m)) (free_list m) (num_allocated_blocks m)"
    "pol_get (policy m) k = Some b \<Longrightarrow> -1 \<le> bs_ref_cnt b \<and> bs_ref_cnt b < 2 ^ 31"
    "num_evictable_cache_blocks m = int (card (with_ref (pol_get (policy m)) 0))"
    "num_write_pending_blocks m = int (card (with_ref (pol_get (policy m)) (-1)))"
    "finite (dom (pol_get (policy m)))"
  using assms pol.finite_keys by (auto simp: om_ok_def)

lemma finite_with_ref: "finite (dom g) \<Longrightarrow> finite (with_ref g n)"
  by (rule finite_subset [of _ "dom g"]) (auto simp: with_ref_def)

lemma slots_card:
  assumes "slots_ok g free n" "0 \<le> n" "finite (dom g)"
  shows "int (card (dom g)) + int (length free) = n"
proof -
  have "card {0..<n} = card (slot_of g ` dom g) + card (set free)"
    using assms card_Un_disjoint [of "slot_of g ` dom g" "set free"] by (auto simp: slots_ok_def)
  then show ?thesis using assms by (simp add: slots_ok_def card_image distinct_card)
qed

text \<open>Changing the reference count of a key moves it between the classes.\<close>

lemma with_ref_upd:
  assumes "g k = Some b"
  shows "with_ref (g(k \<mapsto> b\<lparr>bs_ref_cnt := v\<rparr>)) n = (if v = n then insert k (with_ref g n) else with_ref g n - {k})"
  using assms by (auto simp: with_ref_def)

lemma card_with_ref_upd:
  assumes "g k = Some b" "finite (dom g)"
  shows "int (card (with_ref (g(k \<mapsto> b\<lparr>bs_ref_cnt := v\<rparr>)) n)) = int (card (with_ref g n)) + of_bool (v = n) - of_bool (bs_ref_cnt b = n)"
proof -
  have "k \<in> with_ref g n \<longleftrightarrow> bs_ref_cnt b = n" using assms(1) by (auto simp: with_ref_def)
  moreover have "finite (with_ref g n)" using finite_with_ref [OF assms(2)] .
  moreover have "k \<in> with_ref g n \<Longrightarrow> 0 < card (with_ref g n)" using calculation(2) card_gt_0_iff by blast
  ultimately show ?thesis unfolding with_ref_upd [of g k b, OF assms(1)] by (auto simp: card_insert_if card_Diff_singleton of_nat_diff)
qed

lemma slots_ok_upd: "g k = Some b \<Longrightarrow> slots_ok (g(k \<mapsto> b\<lparr>bs_ref_cnt := v\<rparr>)) free n = slots_ok g free n"
proof -
  assume g: "g k = Some b"
  have "slot_of (g(k \<mapsto> b\<lparr>bs_ref_cnt := v\<rparr>)) = slot_of g" using g by (auto simp: slot_of_def fun_eq_iff)
  moreover have "dom (g(k \<mapsto> b\<lparr>bs_ref_cnt := v\<rparr>)) = dom g" using g by auto
  ultimately show ?thesis by (simp add: slots_ok_def)
qed

lemma om_init_ok:
  assumes "om_init n name ev th tr = Inr m" "0 \<le> n"
  shows "om_ok m"
proof -
  have p: "pol_inv (policy m)" "pol_get (policy m) = Map.empty"
    using assms by (auto simp: om_init_def get_cache_policy_def lru_init_def arc_init_def lru_inv_def arc_inv_def
        lru_get_def arc_get_def fun_eq_iff split: if_splits)
  have "num_allocated_blocks m = 0" "om_num_blocks m = n" "free_list m = []" "num_evictable_cache_blocks m = 0" "num_write_pending_blocks m = 0"
    using assms(1) by (auto simp: om_init_def)
  then show ?thesis using p assms(2) by (simp add: om_ok_def slots_ok_def with_ref_def)
qed


section \<open>Loads\<close>

definition om_frame where
  "om_frame m = (om_num_blocks m, num_allocated_blocks m, free_list m, om_events m, store_threshold m, max_tracker_size m, counts m)"

lemma om_frameD:
  assumes "om_frame m' = om_frame m"
  shows "om_num_blocks m' = om_num_blocks m" "num_allocated_blocks m' = num_allocated_blocks m" "free_list m' = free_list m" "counts m' = counts m"
    "store_threshold m' = store_threshold m"
  using assms by (simp_all add: om_frame_def)

text \<open>A step that only changes one reference count and adjusts the counters accordingly keeps the invariant.\<close>

lemma om_ok_ref:
  assumes ok: "om_ok m" and g: "pol_get (policy m) k = Some b" and v: "-1 \<le> v" "v < 2 ^ 31"
    and p: "pol_inv (policy m')" "pol_get (policy m') = (pol_get (policy m))(k \<mapsto> b\<lparr>bs_ref_cnt := v\<rparr>)" and fr: "om_frame m' = om_frame m"
    and c: "num_evictable_cache_blocks m' = num_evictable_cache_blocks m + of_bool (v = 0) - of_bool (bs_ref_cnt b = 0)"
      "num_write_pending_blocks m' = num_write_pending_blocks m + of_bool (v = -1) - of_bool (bs_ref_cnt b = -1)"
  shows "om_ok m'"
proof -
  note D = om_okD [OF ok]
  have "slots_ok (pol_get (policy m')) (free_list m') (num_allocated_blocks m')"
    using D(4) slots_ok_upd [of "pol_get (policy m)" k b v] g p(2) om_frameD [OF fr] by simp
  moreover have "-1 \<le> bs_ref_cnt b' \<and> bs_ref_cnt b' < 2 ^ 31" if "pol_get (policy m') k' = Some b'" for k' b'
    using that p(2) v D(5) [of k' b'] by (auto split: if_splits)
  ultimately show ?thesis
    using D p(1) c card_with_ref_upd [OF g D(8), of v] om_frameD [OF fr] unfolding om_ok_def p(2) [symmetric] by auto
qed

lemma prepare_load_one_ok:
  assumes ok: "om_ok m" and g: "pol_get (policy m) k = Some b" and r: "0 \<le> bs_ref_cnt b" "bs_ref_cnt b + 1 < 2 ^ 31"
  shows "\<exists>m'. prepare_load_one k (ids, m) = Inr (ids @ [bs_block_id b], m') \<and> om_ok m' \<and> om_frame m' = om_frame m \<and>
    pol_get (policy m') = (pol_get (policy m))(k \<mapsto> b\<lparr>bs_ref_cnt := bs_ref_cnt b + 1\<rparr>)"
proof -
  note D = om_okD [OF ok]
  have v: "c_int32 (bs_ref_cnt b + 1) = bs_ref_cnt b + 1" using r by (intro c_int32_id) auto
  show ?thesis
  proof (cases "bs_ref_cnt b = 0")
    case True
    obtain p1 where p1: "pol_mark_non_evictable k (policy m) = Inr p1" "pol_inv (pol_set_ref k (bs_ref_cnt b + 1) p1)"
      "pol_get (pol_set_ref k (bs_ref_cnt b + 1) p1) = (pol_get (policy m))(k \<mapsto> b\<lparr>bs_ref_cnt := bs_ref_cnt b + 1\<rparr>)"
      using pol.acquire_law [OF D(1) g True, of "bs_ref_cnt b + 1"] v True by auto
    have "k \<in> with_ref (pol_get (policy m)) 0" using g True by (simp add: with_ref_def)
    then have "0 < num_evictable_cache_blocks m" using D(6,8) finite_with_ref card_gt_0_iff by fastforce
    define m' where "m' = m\<lparr>policy := pol_set_ref k (bs_ref_cnt b + 1) p1, num_evictable_cache_blocks := num_evictable_cache_blocks m - 1\<rparr>"
    have "prepare_load_one k (ids, m) = Inr (ids @ [bs_block_id b], m')"
      using g r True p1(1) \<open>0 < num_evictable_cache_blocks m\<close> by (simp add: prepare_load_one_def is_ready_def m'_def)
    moreover have "om_ok m'"
      by (rule om_ok_ref [OF ok g, of "bs_ref_cnt b + 1"]) (use r True p1 in \<open>auto simp: m'_def om_frame_def\<close>)
    ultimately show ?thesis using p1(3) by (auto simp: m'_def om_frame_def)
  next
    case False
    define m' where "m' = m\<lparr>policy := pol_set_ref k (bs_ref_cnt b + 1) (policy m)\<rparr>"
    have p: "pol_inv (policy m')" "pol_get (policy m') = (pol_get (policy m))(k \<mapsto> b\<lparr>bs_ref_cnt := bs_ref_cnt b + 1\<rparr>)"
      using pol.adjust_law [OF D(1) g False, of "bs_ref_cnt b + 1"] v r by (auto simp: m'_def)
    have "prepare_load_one k (ids, m) = Inr (ids @ [bs_block_id b], m')"
      using g r False by (simp add: prepare_load_one_def is_ready_def m'_def)
    moreover have "om_ok m'"
      by (rule om_ok_ref [OF ok g, of "bs_ref_cnt b + 1"]) (use r False p in \<open>auto simp: m'_def om_frame_def\<close>)
    ultimately show ?thesis using p(2) by (auto simp: m'_def om_frame_def)
  qed
qed

lemma complete_load_one_ok:
  assumes ok: "om_ok m" and g: "pol_get (policy m) k = Some b" and r: "0 < bs_ref_cnt b"
  shows "\<exists>m'. complete_load_one k m = Inr m' \<and> om_ok m' \<and> om_frame m' = om_frame m \<and>
    pol_get (policy m') = (pol_get (policy m))(k \<mapsto> b\<lparr>bs_ref_cnt := bs_ref_cnt b - 1\<rparr>)"
proof -
  note D = om_okD [OF ok]
  have v: "c_int32 (bs_ref_cnt b - 1) = bs_ref_cnt b - 1" using r D(5) [OF g] by (intro c_int32_id) auto
  show ?thesis
  proof (cases "bs_ref_cnt b = 1")
    case True
    define m' where "m' = m\<lparr>policy := pol_mark_evictable k (pol_set_ref k 0 (policy m)), num_evictable_cache_blocks := num_evictable_cache_blocks m + 1\<rparr>"
    have p: "pol_inv (policy m')" "pol_get (policy m') = (pol_get (policy m))(k \<mapsto> b\<lparr>bs_ref_cnt := 0\<rparr>)"
      using pol.release_law [OF D(1) g] True by (auto simp: m'_def)
    have "complete_load_one k m = Inr m'" using g r True v by (simp add: complete_load_one_def m'_def Let_def)
    moreover have "om_ok m'" by (rule om_ok_ref [OF ok g, of 0]) (use True p in \<open>auto simp: m'_def om_frame_def\<close>)
    ultimately show ?thesis using p(2) True by (auto simp: m'_def om_frame_def)
  next
    case False
    define m' where "m' = m\<lparr>policy := pol_set_ref k (bs_ref_cnt b - 1) (policy m)\<rparr>"
    have p: "pol_inv (policy m')" "pol_get (policy m') = (pol_get (policy m))(k \<mapsto> b\<lparr>bs_ref_cnt := bs_ref_cnt b - 1\<rparr>)"
      using pol.adjust_law [OF D(1) g, of "bs_ref_cnt b - 1"] v r False by (auto simp: m'_def)
    have "complete_load_one k m = Inr m'" using g r False v by (simp add: complete_load_one_def m'_def Let_def)
    moreover have "om_ok m'"
      by (rule om_ok_ref [OF ok g, of "bs_ref_cnt b - 1"]) (use r False p D(5) [OF g] in \<open>auto simp: m'_def om_frame_def\<close>)
    ultimately show ?thesis using p(2) by (auto simp: m'_def om_frame_def)
  qed
qed

definition add_refs :: "(bytes \<Rightarrow> int) \<Rightarrow> (bytes \<rightharpoonup> block_status) \<Rightarrow> (bytes \<rightharpoonup> block_status)" where
  "add_refs f g = (\<lambda>k. map_option (\<lambda>b. b\<lparr>bs_ref_cnt := bs_ref_cnt b + f k\<rparr>) (g k))"

lemma add_refs_add [simp]: "add_refs f (add_refs h g) = add_refs (\<lambda>k. h k + f k) g"
  by (auto simp: add_refs_def fun_eq_iff option.map_comp o_def add.assoc)

lemma add_refs_zero [simp]: "add_refs (\<lambda>_. 0) g = g"
  by (auto simp: add_refs_def fun_eq_iff option.map_ident)

lemma add_refs_upd: "g k = Some b \<Longrightarrow> g(k \<mapsto> b\<lparr>bs_ref_cnt := bs_ref_cnt b + d\<rparr>) = add_refs (\<lambda>j. if j = k then d else 0) g"
  by (auto simp: add_refs_def fun_eq_iff option.map_ident)

lemma prepare_load_ok:
  assumes "om_ok m" "\<forall>k \<in> set keys. \<exists>b. pol_get (policy m) k = Some b \<and> 0 \<le> bs_ref_cnt b \<and> bs_ref_cnt b + int (count_list keys k) < 2 ^ 31"
  shows "\<exists>m'. efold prepare_load_one keys (ids, m) = Inr (ids @ map (slot_of (pol_get (policy m))) keys, m') \<and> om_ok m' \<and> om_frame m' = om_frame m \<and>
    pol_get (policy m') = add_refs (\<lambda>k. int (count_list keys k)) (pol_get (policy m))"
  using assms
proof (induction keys arbitrary: m ids)
  case (Cons k keys)
  obtain b where b: "pol_get (policy m) k = Some b" "0 \<le> bs_ref_cnt b" "bs_ref_cnt b + int (count_list (k # keys) k) < 2 ^ 31"
    using Cons.prems(2) by auto
  obtain m1 where m1: "prepare_load_one k (ids, m) = Inr (ids @ [bs_block_id b], m1)" "om_ok m1" "om_frame m1 = om_frame m"
    "pol_get (policy m1) = add_refs (\<lambda>j. if j = k then 1 else 0) (pol_get (policy m))"
    using prepare_load_one_ok [OF Cons.prems(1) b(1,2)] b(3) add_refs_upd [of "pol_get (policy m)" k b 1, OF b(1)] by auto
  have "\<exists>b. pol_get (policy m1) j = Some b \<and> 0 \<le> bs_ref_cnt b \<and> bs_ref_cnt b + int (count_list keys j) < 2 ^ 31" if "j \<in> set keys" for j
    using Cons.prems(2) that unfolding m1(4) by (fastforce simp: add_refs_def)
  with Cons.IH [OF m1(2), of "ids @ [bs_block_id b]"] obtain m' where
    m': "efold prepare_load_one keys (ids @ [bs_block_id b], m1) = Inr ((ids @ [bs_block_id b]) @ map (slot_of (pol_get (policy m1))) keys, m')"
      "om_ok m'" "om_frame m' = om_frame m1" "pol_get (policy m') = add_refs (\<lambda>k. int (count_list keys k)) (pol_get (policy m1))" by blast
  have "map (slot_of (pol_get (policy m1))) keys = map (slot_of (pol_get (policy m))) keys"
    using Cons.prems(2) by (fastforce simp: slot_of_def m1(4) add_refs_def)
  moreover have "pol_get (policy m') = add_refs (\<lambda>j. int (count_list (k # keys) j)) (pol_get (policy m))"
    unfolding m'(4) m1(4) by (simp add: if_distrib cong: if_cong) (rule arg_cong2 [where f = add_refs], auto)
  ultimately show ?case using m1(1,3) m' b(1) by (simp add: slot_of_def)
qed (simp add: om_ok_def)

lemma complete_load_ok:
  assumes "om_ok m" "\<forall>k \<in> set keys. \<exists>b. pol_get (policy m) k = Some b \<and> int (count_list keys k) \<le> bs_ref_cnt b"
  shows "\<exists>m'. complete_load keys m = Inr m' \<and> om_ok m' \<and> om_frame m' = om_frame m \<and>
    pol_get (policy m') = add_refs (\<lambda>k. - int (count_list keys k)) (pol_get (policy m))"
  using assms unfolding complete_load_def
proof (induction keys arbitrary: m)
  case (Cons k keys)
  obtain b where b: "pol_get (policy m) k = Some b" "int (count_list (k # keys) k) \<le> bs_ref_cnt b"
    using Cons.prems(2) by auto
  obtain m1 where m1: "complete_load_one k m = Inr m1" "om_ok m1" "om_frame m1 = om_frame m"
    "pol_get (policy m1) = add_refs (\<lambda>j. if j = k then -1 else 0) (pol_get (policy m))"
    using complete_load_one_ok [OF Cons.prems(1) b(1)] b(2) add_refs_upd [of "pol_get (policy m)" k b "-1", OF b(1)] by auto
  have "\<exists>b. pol_get (policy m1) j = Some b \<and> int (count_list keys j) \<le> bs_ref_cnt b" if "j \<in> set keys" for j
    using Cons.prems(2) that unfolding m1(4) by (fastforce simp: add_refs_def)
  with Cons.IH [OF m1(2)] obtain m' where
    m': "efold complete_load_one keys m1 = Inr m'" "om_ok m'" "om_frame m' = om_frame m1"
      "pol_get (policy m') = add_refs (\<lambda>k. - int (count_list keys k)) (pol_get (policy m1))" by blast
  moreover have "pol_get (policy m') = add_refs (\<lambda>j. - int (count_list (k # keys) j)) (pol_get (policy m))"
    unfolding m'(4) m1(4) by (simp add: if_distrib cong: if_cong) (rule arg_cong2 [where f = add_refs], auto)
  ultimately show ?case using m1(1,3) by simp
qed simp


section \<open>Completed and failed stores\<close>

definition settled :: "bytes set \<Rightarrow> (bytes \<rightharpoonup> block_status) \<Rightarrow> (bytes \<rightharpoonup> block_status)" where
  "settled K g = (\<lambda>k. map_option (\<lambda>b. if k \<in> K \<and> bs_ref_cnt b = -1 then b\<lparr>bs_ref_cnt := 0\<rparr> else b) (g k))"

lemma om_pending: "om_ok m \<Longrightarrow> pol_get (policy m) k = Some b \<Longrightarrow> \<not> is_ready b \<longleftrightarrow> bs_ref_cnt b = -1"
  using om_okD(5) [of m k b] by (auto simp: is_ready_def)

lemma complete_store_one_ok:
  assumes "om_ok m"
  shows "\<exists>m'. complete_store_one k (st, m) = (if k \<in> with_ref (pol_get (policy m)) (-1) then st @ [k] else st, m') \<and>
    om_ok m' \<and> om_frame m' = om_frame m \<and> pol_get (policy m') = settled {k} (pol_get (policy m))"
proof (cases "k \<in> with_ref (pol_get (policy m)) (-1)")
  case True
  then obtain b where b: "pol_get (policy m) k = Some b" "bs_ref_cnt b = -1" by (auto simp: with_ref_def)
  define m' where "m' = m\<lparr>num_write_pending_blocks := num_write_pending_blocks m - 1,
    num_evictable_cache_blocks := num_evictable_cache_blocks m + 1, policy := pol_mark_evictable k (pol_set_ref k 0 (policy m))\<rparr>"
  have p: "pol_inv (policy m')" "pol_get (policy m') = (pol_get (policy m))(k \<mapsto> b\<lparr>bs_ref_cnt := 0\<rparr>)"
    using pol.release_law [OF om_okD(1) [OF assms] b(1)] b(2) by (auto simp: m'_def)
  have "om_ok m'" by (rule om_ok_ref [OF assms b(1), of 0]) (use b(2) p in \<open>auto simp: m'_def om_frame_def\<close>)
  moreover have "pol_get (policy m') = settled {k} (pol_get (policy m))"
    using p(2) b by (auto simp: settled_def fun_eq_iff option.map_ident)
  moreover have "complete_store_one k (st, m) = (st @ [k], m')" using b by (simp add: complete_store_one_def is_ready_def m'_def)
  ultimately show ?thesis using True by (simp add: m'_def om_frame_def)
next
  case False
  have "settled {k} (pol_get (policy m)) = pol_get (policy m)"
    using False by (auto simp: settled_def fun_eq_iff with_ref_def intro!: option.map_ident_strong)
  moreover have "complete_store_one k (st, m) = (st, m)"
    using False om_pending [OF assms, of k] by (auto simp: complete_store_one_def with_ref_def split: option.splits)
  ultimately show ?thesis using False assms by simp
qed

lemma settled_settled: "settled K (settled L g) = settled (K \<union> L) g"
  by (auto simp: settled_def fun_eq_iff option.map_comp o_def intro!: option.map_cong)

lemma with_ref_settled: "with_ref (settled K g) (-1) = with_ref g (-1) - K"
proof (rule set_eqI)
  fix k show "k \<in> with_ref (settled K g) (-1) \<longleftrightarrow> k \<in> with_ref g (-1) - K"
    by (cases "g k") (simp_all add: with_ref_def settled_def, blast)
qed

lemma complete_stores_ok:
  assumes "om_ok m"
  shows "\<exists>new m'. fold complete_store_one keys (st, m) = (st @ new, m') \<and> set new = set keys \<inter> with_ref (pol_get (policy m)) (-1) \<and> distinct new \<and>
    om_ok m' \<and> om_frame m' = om_frame m \<and> pol_get (policy m') = settled (set keys) (pol_get (policy m))"
  using assms
proof (induction keys arbitrary: st m)
  case Nil
  then show ?case by (auto simp: settled_def fun_eq_iff option.map_ident)
next
  case (Cons k keys)
  let ?g = "pol_get (policy m)"
  define n1 where "n1 = (if k \<in> with_ref ?g (-1) then [k] else [])"
  obtain m1 where m1: "complete_store_one k (st, m) = (st @ n1, m1)" "om_ok m1" "om_frame m1 = om_frame m" "pol_get (policy m1) = settled {k} ?g"
    using complete_store_one_ok [OF Cons.prems, of k st] by (auto simp: n1_def)
  obtain n2 m' where m': "fold complete_store_one keys (st @ n1, m1) = (st @ n1 @ n2, m')" "set n2 = set keys \<inter> with_ref (pol_get (policy m1)) (-1)"
      "distinct n2" "om_ok m'" "om_frame m' = om_frame m1" "pol_get (policy m') = settled (set keys) (pol_get (policy m1))"
    using Cons.IH [OF m1(2), of "st @ n1"] by auto
  have "set (n1 @ n2) = set (k # keys) \<inter> with_ref ?g (-1)" "distinct (n1 @ n2)"
    using m'(2,3) by (auto simp: n1_def m1(4) with_ref_settled)
  moreover have "pol_get (policy m') = settled (set (k # keys)) ?g"
    unfolding m'(6) m1(4) settled_settled by simp
  moreover have "fold complete_store_one (k # keys) (st, m) = (st @ (n1 @ n2), m')" using m1(1) m'(1) by simp
  ultimately show ?case using m'(4,5) m1(3) by metis
qed

lemma slots_ok_del:
  assumes "slots_ok g free n" "g k = Some b"
  shows "slots_ok (g(k := None)) (free @ [bs_block_id b]) n"
proof -
  have s: "slot_of (g(k := None)) j = slot_of g j" if "j \<noteq> k" for j using that by (simp add: slot_of_def)
  have d: "dom (g(k := None)) = dom g - {k}" by auto
  have k: "k \<in> dom g" "slot_of g k = bs_block_id b" using assms(2) by (auto simp: slot_of_def)
  have img: "slot_of (g(k := None)) ` (dom g - {k}) = slot_of g ` dom g - {bs_block_id b}"
  proof -
    have "slot_of (g(k := None)) ` (dom g - {k}) = slot_of g ` (dom g - {k})" using s by (intro image_cong) auto
    also have "\<dots> = slot_of g ` dom g - slot_of g ` {k}"
      using assms(1) k(1) by (intro inj_on_image_set_diff [of _ "dom g"]) (auto simp: slots_ok_def)
    finally show ?thesis using k(2) by simp
  qed
  have "inj_on (slot_of (g(k := None))) (dom g - {k})"
  proof (rule inj_onI)
    fix i j assume a: "i \<in> dom g - {k}" "j \<in> dom g - {k}" "slot_of (g(k := None)) i = slot_of (g(k := None)) j"
    then have "slot_of g i = slot_of g j" using s [of i] s [of j] by simp
    then show "i = j" using assms(1) a by (auto simp: slots_ok_def dest: inj_onD)
  qed
  moreover have "bs_block_id b \<in> slot_of g ` dom g" using k by force
  ultimately show ?thesis using assms(1) unfolding slots_ok_def d img by auto
qed

lemma with_ref_del: "with_ref (g(k := None)) n = with_ref g n - {k}"
  by (auto simp: with_ref_def)

lemma fail_store_one_ok:
  assumes "om_ok m"
  shows "\<exists>m'. fail_store_one k m = Inr m' \<and> om_ok m' \<and> om_num_blocks m' = om_num_blocks m \<and> num_allocated_blocks m' = num_allocated_blocks m \<and>
    pol_get (policy m') = pol_get (policy m) |` (- ({k} \<inter> with_ref (pol_get (policy m)) (-1)))"
proof (cases "k \<in> with_ref (pol_get (policy m)) (-1)")
  case True
  note D = om_okD [OF assms]
  obtain b where b: "pol_get (policy m) k = Some b" "bs_ref_cnt b = -1" using True by (auto simp: with_ref_def)
  obtain p where p: "pol_remove k (policy m) = Inr p" "pol_inv p" "pol_get p = (pol_get (policy m))(k := None)"
    using pol.del_law [OF D(1), of k] b(1) by auto
  define m' where "m' = free_block b (m\<lparr>num_write_pending_blocks := num_write_pending_blocks m - 1, policy := p\<rparr>)"
  have f: "policy m' = p" "free_list m' = free_list m @ [bs_block_id b]" "num_allocated_blocks m' = num_allocated_blocks m" "om_num_blocks m' = om_num_blocks m"
    "num_evictable_cache_blocks m' = num_evictable_cache_blocks m" "num_write_pending_blocks m' = num_write_pending_blocks m - 1"
    by (simp_all add: m'_def free_block_def)
  have "int (card (with_ref (pol_get p) (-1))) = int (card (with_ref (pol_get (policy m)) (-1))) - 1"
    using True finite_with_ref [OF D(8), of "-1"] card_gt_0_iff [of "with_ref (pol_get (policy m)) (-1)"]
    by (auto simp: p(3) with_ref_del card_Diff_singleton of_nat_diff)
  moreover have "with_ref (pol_get p) 0 = with_ref (pol_get (policy m)) 0" using b by (auto simp: p(3) with_ref_del) (auto simp: with_ref_def)
  moreover have "slots_ok (pol_get p) (free_list m') (num_allocated_blocks m')" unfolding f p(3) by (rule slots_ok_del [OF D(4) b(1)])
  moreover have "\<forall>j c. pol_get p j = Some c \<longrightarrow> -1 \<le> bs_ref_cnt c \<and> bs_ref_cnt c < 2 ^ 31" using D(5) by (auto simp: p(3) split: if_splits)
  ultimately have "om_ok m'" unfolding om_ok_def f using D p(2) f by auto
  moreover have "pol_get p = pol_get (policy m) |` (- ({k} \<inter> with_ref (pol_get (policy m)) (-1)))"
    using True by (auto simp: p(3) fun_eq_iff restrict_map_def)
  moreover have "fail_store_one k m = Inr m'" using b p(1) by (simp add: fail_store_one_def is_ready_def m'_def)
  ultimately show ?thesis using f by auto
next
  case False
  have "fail_store_one k m = Inr m" using False om_pending [OF assms, of k] by (auto simp: fail_store_one_def with_ref_def split: option.splits)
  then show ?thesis using False assms by (auto simp: restrict_map_def fun_eq_iff)
qed

lemma fail_stores_ok:
  assumes "om_ok m"
  shows "\<exists>m'. efold fail_store_one keys m = Inr m' \<and> om_ok m' \<and> om_num_blocks m' = om_num_blocks m \<and> num_allocated_blocks m' = num_allocated_blocks m \<and>
    pol_get (policy m') = pol_get (policy m) |` (- (set keys \<inter> with_ref (pol_get (policy m)) (-1)))"
  using assms
proof (induction keys arbitrary: m)
  case (Cons k keys)
  let ?g = "pol_get (policy m)"
  obtain m1 where m1: "fail_store_one k m = Inr m1" "om_ok m1" "om_num_blocks m1 = om_num_blocks m" "num_allocated_blocks m1 = num_allocated_blocks m"
    "pol_get (policy m1) = ?g |` (- ({k} \<inter> with_ref ?g (-1)))" using fail_store_one_ok [OF Cons.prems] by blast
  obtain m' where m': "efold fail_store_one keys m1 = Inr m'" "om_ok m'" "om_num_blocks m' = om_num_blocks m1" "num_allocated_blocks m' = num_allocated_blocks m1"
    "pol_get (policy m') = pol_get (policy m1) |` (- (set keys \<inter> with_ref (pol_get (policy m1)) (-1)))" using Cons.IH [OF m1(2)] by blast
  have "pol_get (policy m') = ?g |` (- (set (k # keys) \<inter> with_ref ?g (-1)))"
    unfolding m'(5) m1(5) by (auto simp: fun_eq_iff restrict_map_def with_ref_def)
  then show ?case using m1 m' by simp
qed (simp add: restrict_map_def fun_eq_iff)


section \<open>Making room\<close>

lemma slots_ok_evict:
  assumes "slots_ok g free n" "distinct (map fst ev)" "\<forall>(k, b) \<in> set ev. g k = Some b"
  shows "slots_ok (g |` (- set (map fst ev))) (free @ map (bs_block_id \<circ> snd) ev) n"
  using assms
proof (induction ev arbitrary: g free)
  case Nil
  then show ?case by (simp add: restrict_map_def)
next
  case (Cons e ev)
  obtain k b where e: "e = (k, b)" by (cases e)
  have s1: "slots_ok (g(k := None)) (free @ [bs_block_id b]) n" using Cons.prems e by (intro slots_ok_del) auto
  have s2: "\<forall>(j, c) \<in> set ev. (g(k := None)) j = Some c" using Cons.prems(2,3) e by force
  have "distinct (map fst ev)" using Cons.prems(2) by simp
  from Cons.IH [OF s1 this s2] have "slots_ok ((g(k := None)) |` (- set (map fst ev))) ((free @ [bs_block_id b]) @ map (bs_block_id \<circ> snd) ev) n" .
  moreover have "(g(k := None)) |` (- set (map fst ev)) = g |` (- set (map fst (e # ev)))" by (auto simp: e restrict_map_def fun_eq_iff)
  ultimately show ?case by (simp add: e comp_def)
qed

lemma free_blocks_fold:
  "fold (\<lambda>(key, b). free_block b) ev m = m\<lparr>free_list := free_list m @ map (bs_block_id \<circ> snd) ev\<rparr>"
  by (induction ev arbitrary: m) (auto simp: free_block_def)

lemma with_ref_restrict: "with_ref (g |` (- A)) n = with_ref g n - A"
  by (auto simp: with_ref_def restrict_map_def)

lemma om_get_num_free_blocks_eq:
  assumes "om_ok m"
  shows "om_get_num_free_blocks m = om_num_blocks m - int (card (dom (pol_get (policy m))))"
  using slots_card [OF om_okD(4) [OF assms] om_okD(2) [OF assms] om_okD(8) [OF assms]] by (simp add: om_get_num_free_blocks_def)

text \<open>Contents, slots and counters after room was made by evicting \<open>ks\<close>.\<close>

definition same_but :: "bytes set \<Rightarrow> offload_manager \<Rightarrow> offload_manager \<Rightarrow> bool" where
  "same_but ks m m' \<longleftrightarrow> pol_get (policy m') = pol_get (policy m) |` (- ks) \<and> om_num_blocks m' = om_num_blocks m \<and>
     num_allocated_blocks m' = num_allocated_blocks m \<and> num_write_pending_blocks m' = num_write_pending_blocks m \<and>
     counts m' = counts m \<and> store_threshold m' = store_threshold m"

lemma evict_for_store_ok:
  assumes ok: "om_ok m"
  shows "\<exists>r m'. evict_for_store n keys m = Inr (r, m') \<and> om_ok m' \<and>
    (case r of None \<Rightarrow> same_but {} m m' \<and> free_list m' = free_list m
     | Some ks \<Rightarrow> distinct ks \<and> int (length ks) = max 0 n \<and> set ks \<subseteq> with_ref (pol_get (policy m)) 0 - set keys \<and> same_but (set ks) m m')"
proof -
  note D = om_okD [OF ok]
  have stay: "om_ok m \<and> same_but {} m m" using ok by (simp add: same_but_def restrict_map_def)
  consider "n \<le> 0" | "n > num_evictable_cache_blocks m" "n > 0" | "0 < n" "n \<le> num_evictable_cache_blocks m" by linarith
  then show ?thesis
  proof cases
    case 1
    then show ?thesis using stay by (simp add: evict_for_store_def)
  next
    case 2
    then show ?thesis using stay by (simp add: evict_for_store_def)
  next
    case 3
    obtain r p where rp: "pol_evict n keys (policy m) = Inr (r, p)"
      "case r of None \<Rightarrow> p = policy m
       | Some ev \<Rightarrow> int (length ev) = n \<and> distinct (map fst ev) \<and>
           (\<forall>(k, b) \<in> set ev. pol_get (policy m) k = Some b \<and> bs_ref_cnt b = 0 \<and> k \<notin> set keys) \<and>
           pol_inv p \<and> pol_get p = pol_get (policy m) |` (- set (map fst ev))"
      using pol.evict_law [OF D(1), of n keys] 3 by auto
    show ?thesis
    proof (cases r)
      case None
      then show ?thesis using rp 3 stay by (simp add: evict_for_store_def)
    next
      case (Some ev)
      then have ev: "int (length ev) = n" "distinct (map fst ev)" "\<forall>(k, b) \<in> set ev. pol_get (policy m) k = Some b \<and> bs_ref_cnt b = 0 \<and> k \<notin> set keys"
        "pol_inv p" "pol_get p = pol_get (policy m) |` (- set (map fst ev))" using rp(2) by auto
      define m' where "m' = m\<lparr>policy := p, num_evictable_cache_blocks := num_evictable_cache_blocks m - int (length ev),
        free_list := free_list m @ map (bs_block_id \<circ> snd) ev\<rparr>"
      have r: "evict_for_store n keys m = Inr (Some (map fst ev), m')"
        using 3 rp(1) Some ev(1) by (simp add: evict_for_store_def free_blocks_fold m'_def Let_def)
      have sub: "set (map fst ev) \<subseteq> with_ref (pol_get (policy m)) 0 - set keys" using ev(3) by (auto simp: with_ref_def)
      have "slots_ok (pol_get p) (free_list m') (num_allocated_blocks m')"
        unfolding ev(5) m'_def using slots_ok_evict [OF D(4) ev(2)] ev(3) by auto
      moreover have "int (card (with_ref (pol_get p) 0)) = num_evictable_cache_blocks m - int (length ev)"
      proof -
        have s: "set (map fst ev) \<subseteq> with_ref (pol_get (policy m)) 0" using sub by blast
        have f: "finite (with_ref (pol_get (policy m)) 0)" by (rule finite_with_ref [OF D(8)])
        have "card (with_ref (pol_get p) 0) = card (with_ref (pol_get (policy m)) 0) - length ev"
          using card_Diff_subset [OF finite_set s] distinct_card [OF ev(2)] unfolding ev(5) with_ref_restrict by simp
        then show ?thesis using card_mono [OF f s] distinct_card [OF ev(2)] D(6) by simp
      qed
      moreover have "with_ref (pol_get p) (-1) = with_ref (pol_get (policy m)) (-1)"
        using sub by (auto simp: ev(5) with_ref_restrict) (auto simp: with_ref_def)
      moreover have "\<forall>k b. pol_get p k = Some b \<longrightarrow> -1 \<le> bs_ref_cnt b \<and> bs_ref_cnt b < 2 ^ 31"
        using D(5) by (auto simp: ev(5) restrict_map_def split: if_splits)
      ultimately have "om_ok m'" using D ev(4) by (simp add: om_ok_def m'_def)
      moreover have "same_but (set (map fst ev)) m m'" by (simp add: same_but_def m'_def ev(5))
      ultimately show ?thesis using r sub ev(1,2) 3 by simp
    qed
  qed
qed

text \<open>With LRU, room is made whenever enough idle blocks are unprotected.\<close>

lemma evict_for_store_lru:
  assumes ok: "om_ok m" and lru: "policy m = LRUPolicy p"
  shows "(\<exists>ks m'. evict_for_store n keys m = Inr (Some ks, m')) \<longleftrightarrow> n \<le> int (card (with_ref (pol_get (policy m)) 0 - set keys))"
proof (cases "0 < n \<and> n \<le> num_evictable_cache_blocks m")
  case True
  have e: "{k. k \<notin> set keys \<and> (\<exists>b. lru_get p k = Some b \<and> bs_ref_cnt b = 0)} = with_ref (pol_get (policy m)) 0 - set keys"
    by (auto simp: with_ref_def lru)
  have inv: "lru_inv p" using om_okD(1) [OF ok] lru by simp
  have "(\<exists>ks m'. evict_for_store n keys m = Inr (Some ks, m')) \<longleftrightarrow> (\<exists>ev p'. lru_evict n keys p = Inr (Some ev, p'))"
  proof -
    obtain r p' where rp: "lru_evict n keys p = Inr (r, p')" "\<forall>ev. r = Some ev \<longrightarrow> int (length ev) = n"
      using lru.evict_law [OF inv, of n keys] True by fastforce
    then show ?thesis using True lru by (cases r) (auto simp: evict_for_store_def Let_def)
  qed
  then show ?thesis using lru.evict_some_iff [OF inv, of n keys] True e by simp
next
  case False
  have "int (card (with_ref (pol_get (policy m)) 0 - set keys)) \<le> num_evictable_cache_blocks m"
    using card_mono [OF finite_with_ref [OF om_okD(8) [OF ok]], of "with_ref (pol_get (policy m)) 0 - set keys" 0] om_okD(6) [OF ok] by auto
  then show ?thesis using False by (auto simp: evict_for_store_def)
qed


section \<open>New slots\<close>

lemma allocate_blocks_ok:
  assumes ok: "om_ok m" and room: "int (length keys) \<le> om_get_num_free_blocks m"
  shows "\<exists>ids m'. allocate_blocks keys m = Inr (map new_block_status ids, m') \<and> length ids = length keys \<and>
    distinct (ids @ free_list m') \<and> num_allocated_blocks m \<le> num_allocated_blocks m' \<and> num_allocated_blocks m' \<le> om_num_blocks m \<and>
    set (ids @ free_list m') = {num_allocated_blocks m..<num_allocated_blocks m'} \<union> set (free_list m) \<and>
    m' = m\<lparr>num_allocated_blocks := num_allocated_blocks m', free_list := free_list m'\<rparr>"
proof -
  note D = om_okD [OF ok]
  let ?a = "num_allocated_blocks m" and ?l = "free_list m"
  define f where "f = min (int (length keys)) (om_num_blocks m - ?a)"
  define r where "r = nat (int (length keys) - f)"
  have b: "0 \<le> f" "int r = int (length keys) - f" "r \<le> length ?l" "?a + f \<le> om_num_blocks m"
    using D(2,3) room by (auto simp: f_def r_def om_get_num_free_blocks_def)
  let ?ids = "[?a..?a + f - 1] @ take r (rev ?l)"
  define m' where "m' = m\<lparr>num_allocated_blocks := ?a + f, free_list := take (length ?l - r) ?l\<rparr>"
  have "allocate_blocks keys m = Inr (map new_block_status ?ids, m')"
    using b by (simp add: allocate_blocks_def f_def [symmetric] r_def [symmetric] Let_def m'_def)
  moreover have "length ?ids = length keys" using b by simp
  moreover have perm: "mset (take r (rev ?l)) + mset (take (length ?l - r) ?l) = mset ?l"
  proof -
    have "take r (rev ?l) = rev (drop (length ?l - r) ?l)" by (rule take_rev)
    then show ?thesis by (metis append_take_drop_id mset_append mset_rev add.commute)
  qed
  moreover have "set (?ids @ free_list m') = {?a..<?a + f} \<union> set ?l"
  proof -
    have "set ?l = set (take r (rev ?l)) \<union> set (take (length ?l - r) ?l)"
      using arg_cong [OF perm, of set_mset] by simp
    moreover have "set (?ids @ free_list m') = {?a..<?a + f} \<union> (set (take r (rev ?l)) \<union> set (take (length ?l - r) ?l))"
      by (simp add: m'_def Un_assoc atLeastLessThanPlusOne_atLeastAtMost_int [symmetric])
    ultimately show ?thesis by simp
  qed
  moreover have "distinct (?ids @ free_list m')"
  proof -
    have "distinct (take r (rev ?l) @ take (length ?l - r) ?l)"
      using perm D(4) by (metis mset_append mset_eq_imp_distinct_iff slots_ok_def)
    moreover have "set (take r (rev ?l) @ take (length ?l - r) ?l) \<subseteq> {0..<?a}"
      using D(4) arg_cong [OF perm, of set_mset] by (auto simp: slots_ok_def)
    ultimately show ?thesis by (fastforce simp: m'_def)
  qed
  ultimately show ?thesis using b by (intro exI [of _ ?ids] exI [of _ m']) (simp add: m'_def)
qed

lemma map_upds_get:
  assumes "length bs = length ks"
  shows "k \<notin> set ks \<Longrightarrow> (g(ks [\<mapsto>] bs)) k = g k" "distinct ks \<Longrightarrow> i < length ks \<Longrightarrow> (g(ks [\<mapsto>] bs)) (ks ! i) = Some (bs ! i)"
    "distinct ks \<Longrightarrow> k \<in> set ks \<Longrightarrow> \<exists>b \<in> set bs. (g(ks [\<mapsto>] bs)) k = Some b"
proof -
  show i: "(g(ks [\<mapsto>] bs)) (ks ! i) = Some (bs ! i)" if "distinct ks" "i < length ks" for i
    using that assms
  proof (induction ks arbitrary: bs g i)
    case (Cons k ks)
    then obtain b bs' where bs: "bs = b # bs'" by (cases bs) auto
    show ?case
    proof (cases i)
      case 0
      then show ?thesis using Cons.prems bs by (simp add: map_upds_apply_nontin)
    next
      case (Suc j)
      have "((g(k \<mapsto> b))(ks [\<mapsto>] bs')) (ks ! j) = Some (bs' ! j)" using Cons.prems bs Suc by (intro Cons.IH) auto
      then show ?thesis using Suc by (simp only: bs map_upds_Cons nth_Cons_Suc)
    qed
  qed simp
  show "k \<in> set ks \<Longrightarrow> distinct ks \<Longrightarrow> \<exists>b \<in> set bs. (g(ks [\<mapsto>] bs)) k = Some b"
    using i assms by (metis in_set_conv_nth nth_mem)
qed (simp add: map_upds_apply_nontin)

lemma slots_ok_alloc:
  assumes g: "slots_ok g free n" and ks: "distinct ks" "set ks \<inter> dom g = {}" "length ids = length ks"
    and ids: "distinct (ids @ free')" "set (ids @ free') = {n..<n'} \<union> set free" "0 \<le> n" "n \<le> n'"
  shows "slots_ok (g(ks [\<mapsto>] map new_block_status ids)) free' n'"
proof -
  let ?h = "g(ks [\<mapsto>] map new_block_status ids)"
  have old: "slot_of ?h k = slot_of g k" if "k \<notin> set ks" for k using that by (simp add: slot_of_def map_upds_apply_nontin)
  have new: "slot_of ?h (ks ! i) = ids ! i" if "i < length ks" for i
    using that map_upds_get(2) [of "map new_block_status ids" ks i g] ks by (simp add: slot_of_def new_block_status_def)
  have d: "dom ?h = dom g \<union> set ks" using ks(3) by (auto simp: dom_map_upds)
  have i1: "slot_of ?h ` dom g = slot_of g ` dom g" using old ks(2) by (intro image_cong) auto
  have i2: "slot_of ?h ` set ks = set ids"
  proof -
    have "map (slot_of ?h) ks = ids" using new ks(3) by (intro nth_equalityI) auto
    then show ?thesis using set_map [of "slot_of ?h" ks] by simp
  qed
  have "inj_on (slot_of ?h) (dom g) = inj_on (slot_of g) (dom g)" using old ks(2) by (intro inj_on_cong) auto
  then have "inj_on (slot_of ?h) (dom g)" using g by (simp add: slots_ok_def)
  moreover have "inj_on (slot_of ?h) (set ks)"
    using i2 ids(1) ks by (intro eq_card_imp_inj_on) (auto simp: distinct_card)
  moreover have S: "S \<inter> (set ids \<union> set free') = {}" "S \<union> (set ids \<union> set free') = {0..<n'}" if "S = slot_of g ` dom g" for S
  proof -
    have S: "S \<inter> set free = {}" "S \<union> set free = {0..<n}" using g that by (simp_all add: slots_ok_def)
    have i: "set ids \<union> set free' = {n..<n'} \<union> set free" using ids(2) by simp
    have "S \<subseteq> {0..<n}" using S(2) by blast
    then show "S \<inter> (set ids \<union> set free') = {}" unfolding i using S(1) by fastforce
    have "S \<union> (set ids \<union> set free') = {0..<n} \<union> {n..<n'}" unfolding i S(2) [symmetric] by blast
    then show "S \<union> (set ids \<union> set free') = {0..<n'}" using ivl_disj_un_two(3) [OF ids(3,4)] by simp
  qed
  moreover have "slot_of g ` dom g \<inter> set ids = {}" using S(1) [OF refl] by blast
  ultimately have "inj_on (slot_of ?h) (dom g \<union> set ks)"
    unfolding inj_on_Un i1 [symmetric] i2 [symmetric] by blast
  moreover have "(slot_of g ` dom g \<union> set ids) \<inter> set free' = {}" using S(1) [OF refl] ids(1) by auto
  moreover have "(slot_of g ` dom g \<union> set ids) \<union> set free' = {0..<n'}" using S(2) [OF refl] by (simp add: Un_assoc)
  ultimately show ?thesis using ids(1) unfolding slots_ok_def d image_Un i1 i2 by simp
qed

end
