(* ===== verification/Offload_Properties.thy ===== *)
theory Offload_Properties
  imports Offload_Manager
begin

text \<open>
  What \<^verbatim>\<open>CPUOffloadingManager\<close> guarantees: the store, load and lookup operations keep every CPU slot in exactly one place and
  every counter exact, over any sequence of operations that respects the manager's contract.
\<close>

section \<open>Preparing a store\<close>

lemma with_ref_upds:
  assumes "distinct ks" "length bs = length ks" "set ks \<inter> dom g = {}" "\<forall>b \<in> set bs. bs_ref_cnt b = -1"
  shows "with_ref (g(ks [\<mapsto>] bs)) n = (if n = -1 then with_ref g n \<union> set ks else with_ref g n)"
proof (rule set_eqI)
  fix k
  show "k \<in> with_ref (g(ks [\<mapsto>] bs)) n \<longleftrightarrow> k \<in> (if n = -1 then with_ref g n \<union> set ks else with_ref g n)"
  proof (cases "k \<in> set ks")
    case True
    then obtain b where b: "b \<in> set bs" "(g(ks [\<mapsto>] bs)) k = Some b" using map_upds_get(3) [OF assms(2,1), of k g] by blast
    have "g k = None" using True assms(3) by auto
    then have "k \<notin> with_ref g n" by (simp add: with_ref_def)
    moreover have "k \<in> with_ref (g(ks [\<mapsto>] bs)) n \<longleftrightarrow> n = -1" using b assms(4) unfolding with_ref_def by auto
    ultimately show ?thesis using True by auto
  next
    case False
    then show ?thesis by (simp add: with_ref_def map_upds_apply_nontin)
  qed
qed

lemma frequent_keys_ok:
  assumes "om_ok m"
  shows "\<exists>m1. frequent_keys keys m = (fst (frequent_keys keys m), m1) \<and> om_ok m1 \<and> policy m1 = policy m \<and> free_list m1 = free_list m \<and>
    om_get_num_free_blocks m1 = om_get_num_free_blocks m \<and> om_num_blocks m1 = om_num_blocks m \<and> set (fst (frequent_keys keys m)) \<subseteq> set keys \<and>
    (distinct keys \<longrightarrow> distinct (fst (frequent_keys keys m)))"
  using assms by (auto simp: frequent_keys_def om_ok_def om_get_num_free_blocks_def Let_def split: option.splits)

text \<open>The new blocks of a store: their slots, and the policy's contents afterwards.\<close>

lemma insert_new_blocks:
  assumes ok: "om_ok m" and room: "int (length W) \<le> om_get_num_free_blocks m"
    and W: "distinct W" "\<forall>k \<in> set W. pol_get (policy m) k = None"
  shows "\<exists>ids m4 m5. allocate_blocks W m = Inr (map new_block_status ids, m4) \<and> length ids = length W \<and> distinct ids \<and>
    m5 = m4\<lparr>policy := fold (\<lambda>(key, b). pol_insert key b) (zip W (map new_block_status ids)) (policy m4),
            num_write_pending_blocks := num_write_pending_blocks m4 + int (length W)\<rparr> \<and>
    om_ok m5 \<and> om_num_blocks m5 = om_num_blocks m \<and> pol_get (policy m5) = (pol_get (policy m))(W [\<mapsto>] map new_block_status ids)"
proof -
  note D = om_okD [OF ok]
  let ?g = "pol_get (policy m)"
  obtain ids m4 where a: "allocate_blocks W m = Inr (map new_block_status ids, m4)" "length ids = length W" "distinct (ids @ free_list m4)"
    "num_allocated_blocks m \<le> num_allocated_blocks m4" "num_allocated_blocks m4 \<le> om_num_blocks m"
    "set (ids @ free_list m4) = {num_allocated_blocks m..<num_allocated_blocks m4} \<union> set (free_list m)"
    "m4 = m\<lparr>num_allocated_blocks := num_allocated_blocks m4, free_list := free_list m4\<rparr>"
    using allocate_blocks_ok [OF ok room] by blast
  let ?bs = "map new_block_status ids"
  define m5 where "m5 = m4\<lparr>policy := fold (\<lambda>(key, b). pol_insert key b) (zip W ?bs) (policy m4),
            num_write_pending_blocks := num_write_pending_blocks m4 + int (length W)\<rparr>"
  have f: "policy m4 = policy m" "om_num_blocks m4 = om_num_blocks m" "num_evictable_cache_blocks m4 = num_evictable_cache_blocks m"
    "num_write_pending_blocks m4 = num_write_pending_blocks m" by (subst a(7), simp)+
  have bs: "length ?bs = length W" "\<forall>b \<in> set ?bs. bs_ref_cnt b = -1" using a(2) by (auto simp: new_block_status_def)
  have p: "pol_inv (policy m5)" "pol_get (policy m5) = ?g(W [\<mapsto>] ?bs)"
    using pol.put_many [OF D(1) W(1) bs(1) W(2) bs(2)] by (simp_all add: m5_def f)
  have dj: "set W \<inter> dom ?g = {}" using W(2) by auto
  have "slots_ok (pol_get (policy m5)) (free_list m5) (num_allocated_blocks m5)"
    using slots_ok_alloc [OF D(4) W(1) dj a(2,3,6) D(2) a(4)] p(2) by (simp add: m5_def)
  moreover have "-1 \<le> bs_ref_cnt b \<and> bs_ref_cnt b < 2 ^ 31" if "pol_get (policy m5) k = Some b" for k b
  proof (cases "k \<in> set W")
    case True
    from map_upds_get(3) [OF bs(1) W(1) True, of ?g]
    obtain b' where b': "b' \<in> set ?bs" "(?g(W [\<mapsto>] ?bs)) k = Some b'" by (rule bexE)
    have "b = b'" using that b'(2) unfolding p(2) by (simp only: option.inject)
    then have "bs_ref_cnt b = -1" using bs(2) b'(1) by blast
    then show ?thesis by simp
  next
    case False
    then show ?thesis using that D(5) [of k b] unfolding p(2) by (simp add: map_upds_apply_nontin)
  qed
  moreover have "with_ref (pol_get (policy m5)) 0 = with_ref ?g 0"
    unfolding p(2) using with_ref_upds [OF W(1) bs(1) dj bs(2), of 0] by simp
  moreover have "card (with_ref (pol_get (policy m5)) (-1)) = card (with_ref ?g (-1)) + length W"
  proof -
    have "with_ref (pol_get (policy m5)) (-1) = with_ref ?g (-1) \<union> set W"
      unfolding p(2) using with_ref_upds [OF W(1) bs(1) dj bs(2), of "-1"] by simp
    moreover have "with_ref ?g (-1) \<inter> set W = {}" using W(2) by (auto simp: with_ref_def)
    ultimately show ?thesis using card_Un_disjoint [OF finite_with_ref [OF D(8)], of "set W" "-1"] W(1) by (simp add: distinct_card)
  qed
  moreover have "num_allocated_blocks m5 = num_allocated_blocks m4" "om_num_blocks m5 = om_num_blocks m"
    "num_evictable_cache_blocks m5 = num_evictable_cache_blocks m" "num_write_pending_blocks m5 = num_write_pending_blocks m + int (length W)"
    by (simp_all add: m5_def f)
  ultimately have "om_ok m5" using p(1) D(2,6,7) a(4,5) by (auto simp: om_ok_def)
  then show ?thesis using a(1,2,3) p(2) m5_def f(2) by auto
qed

lemma room_after_evict:
  assumes "om_ok m" "om_ok m'" "same_but (set ks) m m'" "distinct ks" "set ks \<subseteq> dom (pol_get (policy m))"
  shows "om_get_num_free_blocks m' = om_get_num_free_blocks m + int (length ks)"
proof -
  let ?g = "pol_get (policy m)"
  have "dom (pol_get (policy m')) = dom ?g - set ks" using assms(3) by (auto simp: same_but_def)
  moreover have "card (dom ?g - set ks) = card (dom ?g) - length ks" "length ks \<le> card (dom ?g)"
    using assms(4,5) card_mono [OF om_okD(8) [OF assms(1)] assms(5)] by (simp_all add: card_Diff_subset distinct_card)
  ultimately show ?thesis using om_get_num_free_blocks_eq [OF assms(1)] om_get_num_free_blocks_eq [OF assms(2)] assms(3)
    by (simp add: same_but_def)
qed

lemma push_offload_event_ok:
  "om_ok (push_offload_event ks r m) = om_ok m" "policy (push_offload_event ks r m) = policy m"
  "om_get_num_free_blocks (push_offload_event ks r m) = om_get_num_free_blocks m" "free_list (push_offload_event ks r m) = free_list m"
  "om_num_blocks (push_offload_event ks r m) = om_num_blocks m"
  by (simp_all add: push_offload_event_def om_ok_def om_get_num_free_blocks_def)

definition store_outcome :: "bytes list \<Rightarrow> offload_manager \<Rightarrow> prepare_store_output option \<Rightarrow> offload_manager \<Rightarrow> bool" where
  "store_outcome keys m r m' \<longleftrightarrow>
     (let K = fst (frequent_keys keys m); g = pol_get (policy m); W = filter (\<lambda>k. g k = None) K in
      case r of
        None \<Rightarrow> pol_get (policy m') = g \<and> free_list m' = free_list m
      | Some out \<Rightarrow>
          keys_to_store out = W \<and> length (store_spec out) = length W \<and> distinct (store_spec out) \<and>
          distinct (evicted_keys out) \<and> set (evicted_keys out) \<subseteq> with_ref g 0 - set K \<and>
          int (length (evicted_keys out)) = max 0 (int (length W) - om_get_num_free_blocks m) \<and>
          pol_get (policy m') = (g |` (- set (evicted_keys out)))(W [\<mapsto>] map new_block_status (store_spec out)))"

lemma prepare_store_empty:
  "frequent_keys keys m = (K, m1) \<Longrightarrow> filter (\<lambda>k. pol_get (policy m1) k = None) K = [] \<Longrightarrow>
    prepare_store keys m = Inr (Some \<lparr>keys_to_store = [], store_spec = [], evicted_keys = []\<rparr>, m1)"
  by (simp only: prepare_store_def prod.case Let_def simp_thms if_True)

lemma prepare_store_nonempty:
  assumes "frequent_keys keys m = (K, m1)" "filter (\<lambda>k. pol_get (policy m1) k = None) K = W" "W \<noteq> []"
    "m2 = m1\<lparr>allocation_sizes := allocation_sizes m1 @ [int (length W)]\<rparr>"
  shows "prepare_store keys m = ebind (evict_for_store (int (length W) - om_get_num_free_blocks m2) K m2) (\<lambda>(r, m3).
          case r of
            None \<Rightarrow> Inr (None, m3)
          | Some to_evict \<Rightarrow>
              ebind (allocate_blocks W (push_offload_event to_evict True m3)) (\<lambda>(blocks, m4).
              eassert (length blocks = length W)
              (let p = fold (\<lambda>(key, b). pol_insert key b) (zip W blocks) (policy m4) in
               Inr (Some \<lparr>keys_to_store = W, store_spec = map bs_block_id blocks, evicted_keys = to_evict\<rparr>,
                    m4\<lparr>policy := p, num_write_pending_blocks := num_write_pending_blocks m4 + int (length W)\<rparr>))))"
  by (simp only: prepare_store_def assms(1) prod.case assms(2,4) Let_def assms(3) if_False)

lemma prepare_store_ok:
  assumes ok: "om_ok m" and dk: "distinct keys"
  shows "\<exists>r m'. prepare_store keys m = Inr (r, m') \<and> om_ok m' \<and> om_num_blocks m' = om_num_blocks m \<and> store_outcome keys m r m'"
proof -
  define K where "K = fst (frequent_keys keys m)"
  let ?g = "pol_get (policy m)"
  define W where "W = filter (\<lambda>k. ?g k = None) K"
  obtain m1 where m1: "frequent_keys keys m = (K, m1)" "om_ok m1" "policy m1 = policy m" "free_list m1 = free_list m"
    "om_get_num_free_blocks m1 = om_get_num_free_blocks m" "om_num_blocks m1 = om_num_blocks m" and K: "distinct K"
    using frequent_keys_ok [OF ok, of keys] dk unfolding K_def by blast
  have W: "distinct W" "\<forall>k \<in> set W. ?g k = None" using K by (auto simp: W_def)
  show ?thesis
  proof (cases "W = []")
    case True
    have "int (length W) - om_get_num_free_blocks m \<le> 0"
      using True om_okD(3) [OF ok] by (simp add: om_get_num_free_blocks_def)
    then have "store_outcome keys m (Some \<lparr>keys_to_store = [], store_spec = [], evicted_keys = []\<rparr>) m1"
      using True m1(3) by (simp add: store_outcome_def K_def [symmetric] W_def [symmetric] restrict_map_def)
    moreover have "prepare_store keys m = Inr (Some \<lparr>keys_to_store = [], store_spec = [], evicted_keys = []\<rparr>, m1)"
      using prepare_store_empty [OF m1(1)] True m1(3) by (simp add: W_def)
    ultimately show ?thesis using m1(2,6) by blast
  next
    case False
    define m2 where "m2 = m1\<lparr>allocation_sizes := allocation_sizes m1 @ [int (length W)]\<rparr>"
    let ?n = "int (length W) - om_get_num_free_blocks m2"
    have m2: "om_ok m2" "policy m2 = policy m" "om_get_num_free_blocks m2 = om_get_num_free_blocks m" "free_list m2 = free_list m"
      "om_num_blocks m2 = om_num_blocks m"
      using m1 by (auto simp: m2_def om_ok_def om_get_num_free_blocks_def)
    obtain r m3 where e: "evict_for_store ?n K m2 = Inr (r, m3)" "om_ok m3"
      "case r of None \<Rightarrow> same_but {} m2 m3 \<and> free_list m3 = free_list m2
       | Some ks \<Rightarrow> distinct ks \<and> int (length ks) = max 0 ?n \<and> set ks \<subseteq> with_ref (pol_get (policy m2)) 0 - set K \<and> same_but (set ks) m2 m3"
      using evict_for_store_ok [OF m2(1), of ?n K] by blast
    note unf = prepare_store_nonempty [OF m1(1) W_def [folded m1(3), symmetric] False m2_def]
    show ?thesis
    proof (cases r)
      case None
      have "store_outcome keys m None m3" using e(3) None m2 by (simp add: store_outcome_def same_but_def restrict_map_def)
      moreover have "prepare_store keys m = Inr (None, m3)" unfolding unf by (simp add: e(1) None)
      ultimately show ?thesis using e(2,3) None m2(5) by (auto simp: same_but_def)
    next
      case (Some ks)
      have ks: "distinct ks" "int (length ks) = max 0 ?n" "set ks \<subseteq> with_ref ?g 0 - set K" "same_but (set ks) m2 m3"
        using e(3) Some m2(2) by auto
      define m3' where "m3' = push_offload_event ks True m3"
      have m3': "om_ok m3'" "policy m3' = policy m3" "om_get_num_free_blocks m3' = om_get_num_free_blocks m3"
        "om_num_blocks m3' = om_num_blocks m"
        using e(2) ks(4) m2(5) by (simp_all add: m3'_def push_offload_event_ok same_but_def)
      have "set ks \<subseteq> dom (pol_get (policy m2))" using ks(3) m2(2) by (auto simp: with_ref_def)
      then have "om_get_num_free_blocks m3 = om_get_num_free_blocks m2 + int (length ks)"
        by (rule room_after_evict [OF m2(1) e(2) ks(4,1)])
      then have room: "int (length W) \<le> om_get_num_free_blocks m3'" using ks(2) m3'(3) by simp
      have g3: "pol_get (policy m3') = ?g |` (- set ks)" using ks(4) m3'(2) m2(2) by (simp add: same_but_def)
      have "\<forall>k \<in> set W. pol_get (policy m3') k = None" using W(2) by (simp add: g3 restrict_map_def)
      then obtain ids m4 m5 where n: "allocate_blocks W m3' = Inr (map new_block_status ids, m4)" "length ids = length W" "distinct ids"
        "m5 = m4\<lparr>policy := fold (\<lambda>(key, b). pol_insert key b) (zip W (map new_block_status ids)) (policy m4),
            num_write_pending_blocks := num_write_pending_blocks m4 + int (length W)\<rparr>"
        "om_ok m5" "om_num_blocks m5 = om_num_blocks m3'" "pol_get (policy m5) = (pol_get (policy m3'))(W [\<mapsto>] map new_block_status ids)"
        using insert_new_blocks [OF m3'(1) room W(1)] by blast
      have idm: "map bs_block_id (map new_block_status ids) = ids" by (induction ids) (auto simp: new_block_status_def)
      have "prepare_store keys m = Inr (Some \<lparr>keys_to_store = W, store_spec = ids, evicted_keys = ks\<rparr>, m5)"
        unfolding unf by (simp add: e(1) Some m3'_def [symmetric] n(1,2,4) idm Let_def del: map_map)
      moreover have "store_outcome keys m (Some \<lparr>keys_to_store = W, store_spec = ids, evicted_keys = ks\<rparr>) m5"
        using n(2,3,7) ks(1-3) m2(3) g3 by (simp add: store_outcome_def K_def [symmetric] W_def [symmetric])
      ultimately show ?thesis using n(5,6) m3'(4) by metis
    qed
  qed
qed


section \<open>Reachable managers\<close>

lemma prepare_load_ready:
  assumes "om_ok m" "efold prepare_load_one keys (ids, m) = Inr (ids', m')"
    "\<forall>k b. pol_get (policy m) k = Some b \<longrightarrow> bs_ref_cnt b + int (count_list keys k) < 2 ^ 31"
  shows "\<forall>k \<in> set keys. \<exists>b. pol_get (policy m) k = Some b \<and> 0 \<le> bs_ref_cnt b"
  using assms
proof (induction keys arbitrary: m ids)
  case (Cons k keys)
  obtain ids1 m1 where m1: "prepare_load_one k (ids, m) = Inr (ids1, m1)" "efold prepare_load_one keys (ids1, m1) = Inr (ids', m')"
    using Cons.prems(2) by auto
  obtain b where b: "pol_get (policy m) k = Some b" "0 \<le> bs_ref_cnt b"
    using m1(1) by (auto simp: prepare_load_one_def is_ready_def split: option.splits)
  have "bs_ref_cnt b + 1 < 2 ^ 31" using Cons.prems(3) b(1) by force
  then have g1: "om_ok m1" "pol_get (policy m1) = (pol_get (policy m))(k \<mapsto> b\<lparr>bs_ref_cnt := bs_ref_cnt b + 1\<rparr>)"
    using prepare_load_one_ok [OF Cons.prems(1) b, of ids] m1(1) by auto
  have "\<forall>j c. pol_get (policy m1) j = Some c \<longrightarrow> bs_ref_cnt c + int (count_list keys j) < 2 ^ 31"
  proof (intro allI impI)
    fix j c assume "pol_get (policy m1) j = Some c"
    then show "bs_ref_cnt c + int (count_list keys j) < 2 ^ 31"
      using Cons.prems(3) [rule_format, of j c] Cons.prems(3) [rule_format, OF b(1)] unfolding g1(2)
      by (cases "j = k") (simp_all split: if_splits, fastforce)
  qed
  then have "\<forall>j \<in> set keys. \<exists>c. pol_get (policy m1) j = Some c \<and> 0 \<le> bs_ref_cnt c" using Cons.IH [OF g1(1) m1(2)] by blast
  then have "\<exists>c. pol_get (policy m) j = Some c \<and> 0 \<le> bs_ref_cnt c" if "j \<in> set keys" for j
    using that b unfolding g1(2) by (cases "j = k") auto
  then show ?case using b by auto
qed simp

lemma complete_load_loaded:
  assumes "om_ok m" "efold complete_load_one keys m = Inr m'"
  shows "\<forall>k \<in> set keys. \<exists>b. pol_get (policy m) k = Some b \<and> int (count_list keys k) \<le> bs_ref_cnt b"
  using assms
proof (induction keys arbitrary: m)
  case (Cons k keys)
  obtain m1 where m1: "complete_load_one k m = Inr m1" "efold complete_load_one keys m1 = Inr m'" using Cons.prems(2) by auto
  obtain b where b: "pol_get (policy m) k = Some b" "0 < bs_ref_cnt b"
    using m1(1) by (auto simp: complete_load_one_def split: option.splits)
  have g1: "om_ok m1" "pol_get (policy m1) = (pol_get (policy m))(k \<mapsto> b\<lparr>bs_ref_cnt := bs_ref_cnt b - 1\<rparr>)"
    using complete_load_one_ok [OF Cons.prems(1) b] m1(1) by auto
  have i: "\<forall>j \<in> set keys. \<exists>c. pol_get (policy m1) j = Some c \<and> int (count_list keys j) \<le> bs_ref_cnt c" by (rule Cons.IH [OF g1(1) m1(2)])
  show ?case
  proof
    fix j assume j: "j \<in> set (k # keys)"
    show "\<exists>c. pol_get (policy m) j = Some c \<and> int (count_list (k # keys) j) \<le> bs_ref_cnt c"
    proof (cases "j = k")
      case True
      have "int (count_list keys k) \<le> bs_ref_cnt b - 1"
        using i [rule_format, of k] g1(2) b(2) by (cases "k \<in> set keys") (auto simp: count_list_0_iff)
      then show ?thesis using True b(1) by simp
    next
      case False
      then show ?thesis using i j g1(2) by auto
    qed
  qed
qed simp

lemma count_lookup_frame: "count_lookup k m = Inr m' \<Longrightarrow> \<exists>cs. m' = m\<lparr>counts := cs\<rparr>"
proof (cases "counts m")
  case None
  then show "count_lookup k m = Inr m' \<Longrightarrow> ?thesis" by (intro exI [of _ None]) (simp add: count_lookup_def)
next
  case (Some cs)
  then show "count_lookup k m = Inr m' \<Longrightarrow> ?thesis" by (cases "dget cs k") (auto simp: count_lookup_def)
qed

lemma om_lookup_ok:
  assumes "om_lookup k m = Inr (r, m')"
  shows "om_ok m' = om_ok m" "policy m' = policy m" "om_num_blocks m' = om_num_blocks m"
    "r = (case pol_get (policy m) k of None \<Rightarrow> MISS | Some b \<Rightarrow> if is_ready b then HIT else HIT_PENDING)"
proof -
  obtain m1 where m1: "count_lookup k m = Inr m1" "m' = m1" "r = (case pol_get (policy m1) k of None \<Rightarrow> MISS | Some b \<Rightarrow> if is_ready b then HIT else HIT_PENDING)"
    using assms by (auto simp: om_lookup_def split: option.splits)
  obtain cs where "m1 = m\<lparr>counts := cs\<rparr>" using count_lookup_frame [OF m1(1)] by blast
  then show "om_ok m' = om_ok m" "policy m' = policy m" "om_num_blocks m' = om_num_blocks m"
    "r = (case pol_get (policy m) k of None \<Rightarrow> MISS | Some b \<Rightarrow> if is_ready b then HIT else HIT_PENDING)"
    using m1(2,3) by (simp_all add: om_ok_def)
qed

text \<open>The steps of a manager: every call of its interface that returns, with at most \<open>2\<^sup>3\<^sup>1 - 1\<close> loads of a block in flight.\<close>

inductive om_step :: "offload_manager \<Rightarrow> offload_manager \<Rightarrow> bool" where
  lookup: "om_lookup key m = Inr (r, m') \<Longrightarrow> om_step m m'"
| load: "prepare_load keys m = Inr (ids, m') \<Longrightarrow>
    \<forall>k b. pol_get (policy m) k = Some b \<longrightarrow> bs_ref_cnt b + int (count_list keys k) < 2 ^ 31 \<Longrightarrow> om_step m m'"
| touch: "om_step m (om_touch keys m)"
| loaded: "complete_load keys m = Inr m' \<Longrightarrow> om_step m m'"
| store: "distinct keys \<Longrightarrow> prepare_store keys m = Inr (r, m') \<Longrightarrow> om_step m m'"
| stored: "complete_store keys success m = Inr m' \<Longrightarrow> om_step m m'"
| reset: "om_step m (reset_cache m)"
| events: "om_step m (snd (om_take_events m))"
| stats: "om_step m (snd (get_stats m))"

inductive om_reach :: "int \<Rightarrow> offload_manager \<Rightarrow> bool" for n where
  start: "om_init n name ev th tr = Inr m \<Longrightarrow> om_reach n m"
| step: "om_reach n m \<Longrightarrow> om_step m m' \<Longrightarrow> om_reach n m'"

lemma prepare_load_iff:
  assumes "om_ok m" "\<forall>k b. pol_get (policy m) k = Some b \<longrightarrow> bs_ref_cnt b + int (count_list keys k) < 2 ^ 31"
  shows "if \<forall>k \<in> set keys. \<exists>b. pol_get (policy m) k = Some b \<and> 0 \<le> bs_ref_cnt b
    then \<exists>m'. prepare_load keys m = Inr (map (slot_of (pol_get (policy m))) keys, m') \<and> om_ok m' \<and> om_frame m' = om_frame m \<and>
      pol_get (policy m') = add_refs (\<lambda>k. int (count_list keys k)) (pol_get (policy m))
    else \<exists>e. prepare_load keys m = Inl e"
proof -
  have "\<exists>m'. prepare_load keys m = Inr (map (slot_of (pol_get (policy m))) keys, m') \<and> om_ok m' \<and> om_frame m' = om_frame m \<and>
      pol_get (policy m') = add_refs (\<lambda>k. int (count_list keys k)) (pol_get (policy m))"
    if "\<forall>k \<in> set keys. \<exists>b. pol_get (policy m) k = Some b \<and> 0 \<le> bs_ref_cnt b"
  proof -
    have "\<forall>k \<in> set keys. \<exists>b. pol_get (policy m) k = Some b \<and> 0 \<le> bs_ref_cnt b \<and> bs_ref_cnt b + int (count_list keys k) < 2 ^ 31"
      using that assms(2) by blast
    then show ?thesis using prepare_load_ok [OF assms(1), of keys "[]"] by (simp add: prepare_load_def)
  qed
  moreover have "\<exists>e. prepare_load keys m = Inl e" if "\<not> (\<forall>k \<in> set keys. \<exists>b. pol_get (policy m) k = Some b \<and> 0 \<le> bs_ref_cnt b)"
  proof (cases "prepare_load keys m")
    case (Inr r)
    then show ?thesis using prepare_load_ready [OF assms(1), of keys "[]" "fst r" "snd r"] assms(2) that by (simp add: prepare_load_def)
  qed blast
  ultimately show ?thesis by presburger
qed

lemma complete_store_ok:
  assumes "om_ok m"
  shows "\<exists>m'. complete_store keys success m = Inr m' \<and> om_ok m' \<and> om_num_blocks m' = om_num_blocks m \<and>
    pol_get (policy m') = (if success then settled (set keys) (pol_get (policy m))
      else pol_get (policy m) |` (- (set keys \<inter> with_ref (pol_get (policy m)) (-1))))"
proof (cases success)
  case True
  obtain new m' where "fold complete_store_one keys ([], m) = (new, m')" "om_ok m'" "om_frame m' = om_frame m"
    "pol_get (policy m') = settled (set keys) (pol_get (policy m))" using complete_stores_ok [OF assms, of keys "[]"] by auto
  then show ?thesis using True by (simp add: complete_store_def push_offload_event_ok) (simp add: push_offload_event_def om_frame_def)
next
  case False
  obtain m' where "efold fail_store_one keys m = Inr m'" "om_ok m'" "om_num_blocks m' = om_num_blocks m"
    "pol_get (policy m') = pol_get (policy m) |` (- (set keys \<inter> with_ref (pol_get (policy m)) (-1)))"
    using fail_stores_ok [OF assms, of keys] by blast
  then show ?thesis using False by (simp add: complete_store_def)
qed

lemma reset_cache_ok: "om_ok m \<Longrightarrow> om_ok (reset_cache m) \<and> pol_get (policy (reset_cache m)) = Map.empty"
  using pol.wipe_law [of "policy m"] by (simp add: om_ok_def reset_cache_def slots_ok_def with_ref_def)

lemma om_step_ok: "om_step m m' \<Longrightarrow> om_ok m \<Longrightarrow> om_ok m'"
proof (induction rule: om_step.induct)
  case (load keys m ids m')
  then show ?case using prepare_load_iff [of m keys] by (auto split: if_splits)
next
  case (touch m keys)
  then show ?case using pol.use_law [of "policy m" keys] by (simp add: om_ok_def om_touch_def)
next
  case (loaded keys m m')
  then show ?case using complete_load_ok [of m keys] complete_load_loaded [of m keys m'] by (auto simp: complete_load_def)
next
  case (store keys m r m')
  then show ?case using prepare_store_ok [of m keys] by auto
next
  case (stored keys success m m')
  then show ?case using complete_store_ok [of m keys success] by auto
next
  case (events m)
  then show ?case by (simp add: om_take_events_def om_ok_def split: option.splits)
next
  case (stats m)
  then show ?case by (simp add: get_stats_def om_ok_def Let_def)
qed (use om_lookup_ok reset_cache_ok in auto)

lemma om_reach_ok: "om_reach n m \<Longrightarrow> 0 \<le> n \<Longrightarrow> om_ok m"
  by (induction rule: om_reach.induct) (auto intro: om_init_ok om_step_ok)

lemma om_step_num_blocks: "om_step m m' \<Longrightarrow> om_ok m \<Longrightarrow> om_num_blocks m' = om_num_blocks m"
proof (induction rule: om_step.induct)
  case (load keys m ids m')
  then show ?case using prepare_load_iff [of m keys] by (auto dest: om_frameD split: if_splits)
next
  case (loaded keys m m')
  then show ?case using complete_load_ok [of m keys] complete_load_loaded [of m keys m'] by (auto simp: complete_load_def dest: om_frameD)
next
  case (store keys m r m')
  then show ?case using prepare_store_ok [of m keys] by auto
next
  case (stored keys success m m')
  then show ?case using complete_store_ok [of m keys success] by auto
qed (auto simp: om_lookup_ok om_touch_def reset_cache_def om_take_events_def get_stats_def Let_def split: option.splits)

lemma om_reach_num_blocks: "om_reach n m \<Longrightarrow> 0 \<le> n \<Longrightarrow> om_num_blocks m = n"
proof (induction rule: om_reach.induct)
  case (start name ev th tr m)
  then show ?case by (auto simp: om_init_def)
next
  case (step m m')
  then show ?case using om_step_num_blocks [OF step.hyps(2) om_reach_ok [OF step.hyps(1)]] by simp
qed

lemma used_bounds:
  assumes "om_ok m" and g: "g = pol_get (policy m)"
  shows "num_allocated_blocks m - int (length (free_list m)) - num_evictable_cache_blocks m = int (card (dom g - with_ref g 0))"
    "num_write_pending_blocks m \<le> int (card (dom g - with_ref g 0))" "int (card (dom g - with_ref g 0)) \<le> om_num_blocks m"
proof -
  note D = om_okD [OF assms(1), folded g]
  have sub: "with_ref g 0 \<subseteq> dom g" by (auto simp: with_ref_def)
  have "card (dom g - with_ref g 0) = card (dom g) - card (with_ref g 0)" "card (with_ref g 0) \<le> card (dom g)"
    using card_Diff_subset [OF finite_with_ref [OF D(8)] sub] card_mono [OF D(8) sub] by simp_all
  then show u: "num_allocated_blocks m - int (length (free_list m)) - num_evictable_cache_blocks m = int (card (dom g - with_ref g 0))"
    using slots_card [OF D(4,2,8)] D(6) by simp
  have "card (with_ref g (-1)) \<le> card (dom g - with_ref g 0)" using D(8) by (intro card_mono) (auto simp: with_ref_def)
  then show "num_write_pending_blocks m \<le> int (card (dom g - with_ref g 0))" using D(7) by simp
  show "int (card (dom g - with_ref g 0)) \<le> om_num_blocks m" using u D(3,6) by simp
qed


section \<open>A sample manager\<close>

text \<open>Two slots; the first block is stored and being loaded, the second is being written.\<close>

definition offload_sample_run :: "string \<Rightarrow> offload_manager result" where
  "offload_sample_run name =
     ebind (om_init 2 name True 0 64000) (\<lambda>m.
     ebind (prepare_store [[1], [2]] m) (\<lambda>(_, m).
     ebind (complete_store [[1]] True m) (\<lambda>m.
     ebind (prepare_load [[1]] m) (\<lambda>(_, m). Inr m))))"

definition offload_sample :: offload_manager where
  "offload_sample =
     \<lparr>om_num_blocks = 2, num_allocated_blocks = 2, free_list = [], om_events = Some [\<lparr>oe_keys = [[1]], oe_removed = False\<rparr>],
      policy = LRUPolicy \<lparr>lru_capacity = 2, evictable_blocks = [],
        lru_blocks = [([1], \<lparr>bs_ref_cnt = 1, bs_block_id = 0\<rparr>), ([2], \<lparr>bs_ref_cnt = -1, bs_block_id = 1\<rparr>)]\<rparr>,
      num_evictable_cache_blocks = 0, num_write_pending_blocks = 1, store_threshold = 0, max_tracker_size = 64000, stores_skipped = 0,
      allocation_sizes = [2], counts = None\<rparr>"

lemma offload_sample_run_eq: "offload_sample_run ''lru'' = Inr offload_sample"
  by code_simp

lemma offload_sample_reach: "om_reach 2 offload_sample"
proof -
  obtain m0 o1 m1 m2 i3 where m: "om_init 2 ''lru'' True 0 64000 = Inr m0" "prepare_store [[1], [2]] m0 = Inr (o1, m1)"
    "complete_store [[1]] True m1 = Inr m2" "prepare_load [[1]] m2 = Inr (i3, offload_sample)"
    using offload_sample_run_eq by (auto simp: offload_sample_run_def)
  have "m2 = offload_sample\<lparr>policy := LRUPolicy \<lparr>lru_capacity = 2, evictable_blocks = [([1], ())],
        lru_blocks = [([1], \<lparr>bs_ref_cnt = 0, bs_block_id = 0\<rparr>), ([2], \<lparr>bs_ref_cnt = -1, bs_block_id = 1\<rparr>)]\<rparr>, num_evictable_cache_blocks := 1\<rparr>"
  proof -
    have "ebind (om_init 2 ''lru'' True 0 64000) (\<lambda>m. ebind (prepare_store [[1], [2]] m) (\<lambda>(_, m). complete_store [[1]] True m)) =
      Inr (offload_sample\<lparr>policy := LRUPolicy \<lparr>lru_capacity = 2, evictable_blocks = [([1], ())],
        lru_blocks = [([1], \<lparr>bs_ref_cnt = 0, bs_block_id = 0\<rparr>), ([2], \<lparr>bs_ref_cnt = -1, bs_block_id = 1\<rparr>)]\<rparr>, num_evictable_cache_blocks := 1\<rparr>)"
      by code_simp
    then show ?thesis using m by simp
  qed
  then have g: "\<forall>k b. pol_get (policy m2) k = Some b \<longrightarrow> bs_ref_cnt b + int (count_list [[1]] k) < 2 ^ 31"
    by (auto simp: lru_get_def split: if_splits)
  have "distinct [[1], [2] :: bytes]" by simp
  with m g show ?thesis by (meson om_reach.start om_reach.step om_step.store om_step.stored om_step.load)
qed

definition offload_idle :: offload_manager where
  "offload_idle = offload_sample\<lparr>policy := LRUPolicy \<lparr>lru_capacity = 2, evictable_blocks = [([1], ())],
     lru_blocks = [([1], \<lparr>bs_ref_cnt = 0, bs_block_id = 0\<rparr>), ([2], \<lparr>bs_ref_cnt = -1, bs_block_id = 1\<rparr>)]\<rparr>, num_evictable_cache_blocks := 1\<rparr>"

lemma offload_idle_reach: "om_reach 2 offload_idle"
proof -
  have "complete_load [[1]] offload_sample = Inr offload_idle" by code_simp
  then show ?thesis using offload_sample_reach om_reach.step om_step.loaded by blast
qed


section \<open>Properties\<close>

text \<open>
  C16. In every state the offloading manager can reach, each allocated CPU slot is either in the free list, once, or holds the block of
  exactly one key; the free-block count is the capacity minus the stored blocks; the two counters are exactly the numbers of idle blocks
  and of blocks being written; and the usage gauges are exact, between 0 and 1, with write usage at most the total.
\<close>

theorem offload_slots_partition:
  assumes "om_reach n m" "0 < n"
  shows "inj_on (slot_of (pol_get (policy m))) (dom (pol_get (policy m))) \<and> distinct (free_list m) \<and>
    slot_of (pol_get (policy m)) ` dom (pol_get (policy m)) \<inter> set (free_list m) = {} \<and>
    slot_of (pol_get (policy m)) ` dom (pol_get (policy m)) \<union> set (free_list m) = {0..<num_allocated_blocks m} \<and>
    num_allocated_blocks m \<le> n \<and> om_get_num_free_blocks m = n - int (card (dom (pol_get (policy m)))) \<and>
    num_evictable_cache_blocks m = int (card (with_ref (pol_get (policy m)) 0)) \<and>
    num_write_pending_blocks m = int (card (with_ref (pol_get (policy m)) (-1))) \<and>
    (case get_stats m of ((usage, write_usage, read_usage, _), _) \<Rightarrow>
       usage = of_int (int (card (dom (pol_get (policy m)) - with_ref (pol_get (policy m)) 0))) / of_int n \<and>
       0 \<le> write_usage \<and> write_usage \<le> usage \<and> usage \<le> 1 \<and> read_usage = usage - write_usage)"
proof -
  have ok: "om_ok m" "om_num_blocks m = n" using om_reach_ok om_reach_num_blocks assms by auto
  note D = om_okD [OF ok(1)] and u = used_bounds [OF ok(1) refl]
  have "case get_stats m of ((usage, write_usage, read_usage, _), _) \<Rightarrow>
       usage = of_int (int (card (dom (pol_get (policy m)) - with_ref (pol_get (policy m)) 0))) / of_int n \<and>
       0 \<le> write_usage \<and> write_usage \<le> usage \<and> usage \<le> 1 \<and> read_usage = usage - write_usage"
  proof -
    define a where "a = int (card (dom (pol_get (policy m)) - with_ref (pol_get (policy m)) 0))"
    have b: "0 \<le> num_write_pending_blocks m" "num_write_pending_blocks m \<le> a" "a \<le> n" using D(7) u(2,3) ok(2) by (simp_all add: a_def)
    have r: "rat_of_int (num_write_pending_blocks m) / rat_of_int n \<le> rat_of_int a / rat_of_int n" "rat_of_int a / rat_of_int n \<le> 1"
      using b assms(2) by (simp_all add: divide_right_mono)
    show ?thesis using u(1) ok(2) assms(2) b r unfolding a_def [symmetric] by (simp add: get_stats_def Let_def)
  qed
  then show ?thesis using D(3,4,6,7) ok(2) om_get_num_free_blocks_eq [OF ok(1)] unfolding slots_ok_def by blast
qed

theorem offload_slots_partition_witness:
  "om_reach 2 offload_sample \<and> num_write_pending_blocks offload_sample = int (card (with_ref (pol_get (policy offload_sample)) (-1))) \<and>
   num_write_pending_blocks offload_sample = 1"
  using offload_slots_partition [OF offload_sample_reach] offload_sample_reach by (simp add: offload_sample_def)

lemma evict_for_store_refused: "evict_for_store n ks m = Inr (None, m') \<Longrightarrow> m'\<lparr>policy := policy m\<rparr> = m"
  by (auto simp: evict_for_store_def Let_def split: if_splits option.splits)

lemma frequent_keys_fields:
  "policy (snd (frequent_keys keys m)) = policy m" "allocation_sizes (snd (frequent_keys keys m)) = allocation_sizes m"
  by (auto simp: frequent_keys_def Let_def split: option.splits)

lemma refused_store:
  assumes "prepare_store keys m = Inr (None, m')"
  shows "m'\<lparr>policy := policy m\<rparr> = (snd (frequent_keys keys m))\<lparr>allocation_sizes := allocation_sizes m @
    [int (length (filter (\<lambda>k. pol_get (policy m) k = None) (fst (frequent_keys keys m))))]\<rparr>"
proof -
  obtain K m1 where f: "frequent_keys keys m = (K, m1)" by (cases "frequent_keys keys m")
  have m1: "policy m1 = policy m" "allocation_sizes m1 = allocation_sizes m" using frequent_keys_fields [of keys m] by (simp_all add: f)
  define W where "W = filter (\<lambda>k. pol_get (policy m1) k = None) K"
  define m2 where "m2 = m1\<lparr>allocation_sizes := allocation_sizes m1 @ [int (length W)]\<rparr>"
  have W: "W \<noteq> []" using assms prepare_store_empty [OF f] by (auto simp: W_def)
  have "evict_for_store (int (length W) - om_get_num_free_blocks m2) K m2 = Inr (None, m')"
    using assms unfolding prepare_store_nonempty [OF f W_def [symmetric] W m2_def] by (auto simp: Let_def split: option.splits)
  from evict_for_store_refused [OF this] show ?thesis by (simp add: m2_def m1 f W_def)
qed

text \<open>
  C17. Preparing a store of distinct keys in any reachable state never raises. With a store threshold only the given keys that were looked
  up often enough count. If the store is refused, contents and free slots stay as they are and, apart from the policy's internal
  order, only the statistics (skipped keys, allocation sizes) change. Otherwise exactly the counted keys not yet stored are stored, each
  in its own slot and not yet readable; exactly as many blocks as are missing are evicted, all of them idle and none of them a counted key;
  every other block keeps its slot and state.
\<close>

theorem prepare_store_exact:
  assumes "om_reach n m" "0 \<le> n" "distinct keys"
  shows "\<exists>r m'. prepare_store keys m = Inr (r, m') \<and> om_reach n m' \<and>
    (let K = fst (frequent_keys keys m); g = pol_get (policy m); W = filter (\<lambda>k. g k = None) K in
     case r of
       None \<Rightarrow> pol_get (policy m') = g \<and> free_list m' = free_list m \<and>
         m'\<lparr>policy := policy m\<rparr> = (snd (frequent_keys keys m))\<lparr>allocation_sizes := allocation_sizes m @ [int (length W)]\<rparr>
     | Some out \<Rightarrow>
         keys_to_store out = W \<and> length (store_spec out) = length W \<and> distinct (store_spec out) \<and>
         distinct (evicted_keys out) \<and> set (evicted_keys out) \<subseteq> with_ref g 0 - set K \<and>
         int (length (evicted_keys out)) = max 0 (int (length W) - om_get_num_free_blocks m) \<and>
         pol_get (policy m') = (g |` (- set (evicted_keys out)))(W [\<mapsto>] map new_block_status (store_spec out)))"
proof -
  obtain r m' where p: "prepare_store keys m = Inr (r, m')" and o: "store_outcome keys m r m'"
    using prepare_store_ok [OF om_reach_ok [OF assms(1,2)] assms(3)] by blast
  moreover have "om_reach n m'" using om_reach.step [OF assms(1) om_step.store [OF assms(3) p]] .
  ultimately show ?thesis using refused_store [of keys m m'] by (cases r) (auto simp: store_outcome_def Let_def)
qed

theorem prepare_store_exact_witness:
  "\<exists>r m'. prepare_store [[3]] offload_idle = Inr (r, m') \<and> om_reach 2 m' \<and> map_option evicted_keys r = Some [[1]]"
proof -
  obtain r m' where "prepare_store [[3]] offload_idle = Inr (r, m')" "om_reach 2 m'"
    using prepare_store_exact [OF offload_idle_reach, of "[[3]]"] by auto
  moreover have "(case prepare_store [[3]] offload_idle of Inr (r, m') \<Rightarrow> map_option evicted_keys r = Some [[1]] | Inl _ \<Rightarrow> False)" by code_simp
  ultimately show ?thesis by auto
qed

text \<open>
  C18. With the LRU policy a store of distinct keys is refused exactly when more blocks are missing than there are idle blocks whose keys
  are not among the given keys that pass the store threshold, the only ones the code protects.
\<close>

theorem lru_store_refused_iff:
  assumes "om_reach n m" "0 \<le> n" "distinct keys" "policy m = LRUPolicy p"
  shows "(\<exists>m'. prepare_store keys m = Inr (None, m')) \<longleftrightarrow>
    int (card (with_ref (pol_get (policy m)) 0 - set (fst (frequent_keys keys m)))) <
    int (length (filter (\<lambda>k. pol_get (policy m) k = None) (fst (frequent_keys keys m)))) - om_get_num_free_blocks m"
proof -
  let ?K = "fst (frequent_keys keys m)"
  let ?W = "filter (\<lambda>k. pol_get (policy m) k = None) ?K"
  have ok: "om_ok m" by (rule om_reach_ok [OF assms(1,2)])
  obtain m1 where m1: "frequent_keys keys m = (?K, m1)" "om_ok m1" "policy m1 = policy m" "om_get_num_free_blocks m1 = om_get_num_free_blocks m"
    using frequent_keys_ok [OF ok, of keys] by blast
  define m2 where "m2 = m1\<lparr>allocation_sizes := allocation_sizes m1 @ [int (length ?W)]\<rparr>"
  let ?n = "int (length ?W) - om_get_num_free_blocks m2"
  have m2: "om_ok m2" "policy m2 = policy m" "om_get_num_free_blocks m2 = om_get_num_free_blocks m"
    using m1 by (auto simp: m2_def om_ok_def om_get_num_free_blocks_def)
  have lru: "(\<exists>ks m'. evict_for_store ?n ?K m2 = Inr (Some ks, m')) \<longleftrightarrow> ?n \<le> int (card (with_ref (pol_get (policy m)) 0 - set ?K))"
    using evict_for_store_lru [OF m2(1), of p ?n ?K] assms(4) m2(2) by simp
  have "0 \<le> om_get_num_free_blocks m" using om_okD(3) [OF ok] by (simp add: om_get_num_free_blocks_def)
  obtain r m3 where e: "evict_for_store ?n ?K m2 = Inr (r, m3)" using evict_for_store_ok [OF m2(1), of ?n ?K] by blast
  obtain ro m' where ro: "prepare_store keys m = Inr (ro, m')" using prepare_store_ok [OF ok assms(3)] by blast
  show ?thesis
  proof (cases "?W = []")
    case True
    then have "ro \<noteq> None" using prepare_store_empty [OF m1(1)] m1(3) ro by simp
    then show ?thesis using ro True \<open>0 \<le> om_get_num_free_blocks m\<close> by simp
  next
    case False
    have "ro = None \<longleftrightarrow> r = None"
      using prepare_store_nonempty [OF m1(1) _ False m2_def] m1(3) ro e by (cases r) auto
    then show ?thesis using lru e ro m2(3) by auto
  qed
qed

theorem lru_store_refused_iff_witness:
  "(\<exists>m'. prepare_store [[1], [3]] offload_idle = Inr (None, m')) \<longleftrightarrow>
    int (card (with_ref (pol_get (policy offload_idle)) 0 - set (fst (frequent_keys [[1], [3]] offload_idle)))) <
    int (length (filter (\<lambda>k. pol_get (policy offload_idle) k = None) (fst (frequent_keys [[1], [3]] offload_idle)))) - om_get_num_free_blocks offload_idle"
  by (rule lru_store_refused_iff [OF offload_idle_reach]) (simp_all add: offload_idle_def)


lemma om_lookup_total:
  assumes "0 < max_tracker_size m"
  shows "\<exists>m1. om_lookup k m = Inr (case pol_get (policy m) k of None \<Rightarrow> MISS | Some b \<Rightarrow> if is_ready b then HIT else HIT_PENDING, m1) \<and>
    policy m1 = policy m"
proof -
  have "\<exists>m1. count_lookup k m = Inr m1"
  proof (cases "counts m")
    case (Some cs)
    then show ?thesis using assms by (cases "dget cs k"; cases cs) (simp_all add: count_lookup_def)
  qed (simp add: count_lookup_def)
  then obtain m1 where "count_lookup k m = Inr m1" by blast
  then obtain r where r: "om_lookup k m = Inr (r, m1)" by (simp add: om_lookup_def)
  have "om_lookup k m = Inr (case pol_get (policy m) k of None \<Rightarrow> MISS | Some b \<Rightarrow> if is_ready b then HIT else HIT_PENDING, m1)"
    using r unfolding om_lookup_ok(4) [OF r] .
  then show ?thesis using om_lookup_ok(2) [OF r] by (intro exI [of _ m1] conjI)
qed

lemma stored_key_state:
  assumes "om_ok m" "distinct keys" "prepare_store keys m = Inr (Some out, m')" "k \<in> set (keys_to_store out)"
  shows "om_ok m' \<and> (\<exists>i. i \<in> set (store_spec out) \<and> pol_get (policy m') k = Some (new_block_status i))"
proof -
  let ?bs = "map new_block_status (store_spec out)"
  have ok: "om_ok m'" "store_outcome keys m (Some out) m'" using prepare_store_ok [OF assms(1,2)] assms(3) by auto
  define W where "W = keys_to_store out"
  define g where "g = pol_get (policy m) |` (- set (evicted_keys out))"
  have o: "length ?bs = length W" "distinct W" "pol_get (policy m') = g(W [\<mapsto>] ?bs)"
    using ok(2) frequent_keys_ok [OF assms(1), of keys] assms(2) by (auto simp: store_outcome_def Let_def W_def g_def)
  from map_upds_get(3) [OF o(1,2) assms(4) [folded W_def], of g]
  obtain b where b: "b \<in> set ?bs" "(g(W [\<mapsto>] ?bs)) k = Some b" by (rule bexE)
  then show ?thesis using ok(1) o(3) by auto
qed

text \<open>
  C19. The life of a stored block. From any reachable state, a key that a store accepted is found but not readable; when the transfer
  succeeds the key becomes readable; when it fails the key is gone and its slot is free again, so nothing of a failed transfer is ever
  served.
\<close>

theorem store_lifecycle:
  assumes "om_reach n m" "0 \<le> n" "distinct keys" "prepare_store keys m = Inr (Some out, m')" "k \<in> set (keys_to_store out)" "k \<in> set ks"
  shows "(0 < max_tracker_size m' \<longrightarrow> (\<exists>m1. om_lookup k m' = Inr (HIT_PENDING, m1))) \<and>
    (\<exists>m2. complete_store ks True m' = Inr m2 \<and> (0 < max_tracker_size m2 \<longrightarrow> (\<exists>m1. om_lookup k m2 = Inr (HIT, m1))) \<and>
       slot_of (pol_get (policy m2)) k \<in> set (store_spec out)) \<and>
    (\<exists>m3. complete_store ks False m' = Inr m3 \<and> (0 < max_tracker_size m3 \<longrightarrow> (\<exists>m1. om_lookup k m3 = Inr (MISS, m1))) \<and>
       slot_of (pol_get (policy m')) k \<in> set (free_list m3))"
proof -
  obtain i where i: "i \<in> set (store_spec out)" "pol_get (policy m') k = Some (new_block_status i)" and ok: "om_ok m'"
    using stored_key_state [OF om_reach_ok [OF assms(1,2)] assms(3-5)] by blast
  have r: "\<not> is_ready (new_block_status i)" "bs_ref_cnt (new_block_status i) = -1" "bs_block_id (new_block_status i) = i"
    by (simp_all add: is_ready_def new_block_status_def)
  have "\<exists>m1. om_lookup k m' = Inr (HIT_PENDING, m1)" if "0 < max_tracker_size m'" using om_lookup_total [OF that, of k] i(2) r by auto
  moreover have "\<exists>m2. complete_store ks True m' = Inr m2 \<and> (0 < max_tracker_size m2 \<longrightarrow> (\<exists>m1. om_lookup k m2 = Inr (HIT, m1))) \<and>
       slot_of (pol_get (policy m2)) k \<in> set (store_spec out)"
  proof -
    obtain m2 where m2: "complete_store ks True m' = Inr m2" "pol_get (policy m2) = settled (set ks) (pol_get (policy m'))"
      using complete_store_ok [OF ok, of ks True] by auto
    then have "pol_get (policy m2) k = Some ((new_block_status i)\<lparr>bs_ref_cnt := 0\<rparr>)" using i(2) r assms(6) by (simp add: settled_def)
    then show ?thesis using m2(1) om_lookup_total [of m2 k] i(1) r(3) by (auto simp: is_ready_def slot_of_def)
  qed
  moreover have "\<exists>m3. complete_store ks False m' = Inr m3 \<and> (0 < max_tracker_size m3 \<longrightarrow> (\<exists>m1. om_lookup k m3 = Inr (MISS, m1))) \<and>
       slot_of (pol_get (policy m')) k \<in> set (free_list m3)"
  proof -
    let ?g = "pol_get (policy m')"
    obtain m3 where m3: "complete_store ks False m' = Inr m3" "om_ok m3" "num_allocated_blocks m3 = num_allocated_blocks m'"
      "pol_get (policy m3) = ?g |` (- (set ks \<inter> with_ref ?g (-1)))"
      using fail_stores_ok [OF ok, of ks] by (auto simp: complete_store_def)
    have k: "k \<in> set ks \<inter> with_ref ?g (-1)" using i(2) r(2) assms(6) by (simp add: with_ref_def)
    then have none: "pol_get (policy m3) k = None" using m3(4) by (simp add: restrict_map_def)
    have "slot_of ?g k \<in> slot_of ?g ` dom ?g \<union> set (free_list m')" using i(2) by (intro UnI1 imageI) auto
    then have "slot_of ?g k \<in> {0..<num_allocated_blocks m3}" using om_okD(4) [OF ok] unfolding m3(3) slots_ok_def by metis
    have "slot_of ?g k \<noteq> slot_of (pol_get (policy m3)) j" if j: "j \<in> dom (pol_get (policy m3))" for j
    proof
      assume e: "slot_of ?g k = slot_of (pol_get (policy m3)) j"
      have "pol_get (policy m3) j = ?g j" "j \<in> dom ?g" using j unfolding m3(4) by (auto simp: restrict_map_def split: if_splits)
      then have "j = k" using e om_okD(4) [OF ok] i(2) unfolding slots_ok_def slot_of_def by (metis domI inj_onD)
      then show False using none j by auto
    qed
    then have "slot_of ?g k \<notin> slot_of (pol_get (policy m3)) ` dom (pol_get (policy m3))" by blast
    moreover note \<open>slot_of ?g k \<in> {0..<num_allocated_blocks m3}\<close>
    ultimately have "slot_of ?g k \<in> set (free_list m3)" using om_okD(4) [OF m3(2)] unfolding slots_ok_def by (metis Un_iff)
    then show ?thesis using m3(1) om_lookup_total [of m3 k] none by auto
  qed
  ultimately show ?thesis by blast
qed

theorem store_lifecycle_witness:
  "\<exists>out m'. prepare_store [[3]] offload_idle = Inr (Some out, m') \<and> keys_to_store out = [[3]] \<and> 0 < max_tracker_size m' \<and>
     (\<exists>m1. om_lookup [3] m' = Inr (HIT_PENDING, m1))"
proof -
  have c: "case prepare_store [[3]] offload_idle of Inr (Some out, m') \<Rightarrow> keys_to_store out = [[3]] \<and> 0 < max_tracker_size m' | _ \<Rightarrow> False"
    by code_simp
  then obtain out m' where s: "prepare_store [[3]] offload_idle = Inr (Some out, m')" "keys_to_store out = [[3]]" "0 < max_tracker_size m'"
    by (auto split: sum.splits option.splits)
  then show ?thesis using store_lifecycle [OF offload_idle_reach _ _ s(1), of "[3]" "[[3]]"] by auto
qed

text \<open>
  C20. Blocks that are being loaded survive. If a load of \<open>keys\<close> was prepared, a store prepared meanwhile leaves every loaded block in the
  slot the load was told to read, and completing the load then succeeds and gives each of these blocks the state it had before.
\<close>

theorem loads_survive_stores:
  assumes "om_reach n m" "0 \<le> n" "prepare_load keys m = Inr (ids, m1)" "distinct skeys" "prepare_store skeys m1 = Inr (r, m2)"
    "\<forall>k b. pol_get (policy m) k = Some b \<longrightarrow> bs_ref_cnt b + int (count_list keys k) < 2 ^ 31"
  shows "ids = map (slot_of (pol_get (policy m2))) keys \<and>
    (\<exists>m3. complete_load keys m2 = Inr m3 \<and> (\<forall>k \<in> set keys. pol_get (policy m3) k = pol_get (policy m) k))"
proof -
  let ?g = "pol_get (policy m)" and ?g1 = "pol_get (policy m1)" and ?g2 = "pol_get (policy m2)"
  have ok: "om_ok m" by (rule om_reach_ok [OF assms(1,2)])
  have l: "om_ok m1" "ids = map (slot_of ?g) keys" "?g1 = add_refs (\<lambda>k. int (count_list keys k)) ?g"
    "\<forall>k \<in> set keys. \<exists>b. ?g k = Some b \<and> 0 \<le> bs_ref_cnt b"
    using prepare_load_iff [OF ok assms(6)] assms(3) by (auto split: if_splits)
  have s: "om_ok m2" "store_outcome skeys m1 r m2" using prepare_store_ok [OF l(1) assms(4)] assms(5) by auto
  have keep: "?g2 k = Some (b\<lparr>bs_ref_cnt := bs_ref_cnt b + int (count_list keys k)\<rparr>) \<and> 0 < count_list keys k \<and> ?g k = Some b"
    if k: "k \<in> set keys" and b: "?g k = Some b" for k b
  proof -
    have r: "0 \<le> bs_ref_cnt b" using l(4) k b by auto
    have c: "0 < count_list keys k" using k by (simp add: count_list_0_iff zero_less_iff_neq_zero)
    have g1: "?g1 k = Some (b\<lparr>bs_ref_cnt := bs_ref_cnt b + int (count_list keys k)\<rparr>)" using b unfolding l(3) by (simp add: add_refs_def)
    then have n: "k \<notin> with_ref ?g1 0" using r c by (simp add: with_ref_def)
    have "?g2 k = ?g1 k"
    proof (cases r)
      case None
      then show ?thesis using s(2) by (simp add: store_outcome_def Let_def)
    next
      case (Some out)
      then have o: "set (evicted_keys out) \<subseteq> with_ref ?g1 0" "\<forall>j \<in> set (keys_to_store out). ?g1 j = None"
        "?g2 = (?g1 |` (- set (evicted_keys out)))(keys_to_store out [\<mapsto>] map new_block_status (store_spec out))"
        using s(2) by (auto simp: store_outcome_def Let_def)
      have "k \<notin> set (keys_to_store out)" "k \<notin> set (evicted_keys out)" using o(1,2) n g1 by auto
      then show ?thesis unfolding o(3) by (simp add: map_upds_apply_nontin)
    qed
    then show ?thesis using g1 c b by simp
  qed
  have "\<forall>k \<in> set keys. \<exists>b. ?g2 k = Some b \<and> int (count_list keys k) \<le> bs_ref_cnt b" using keep l(4) by fastforce
  then obtain m3 where m3: "complete_load keys m2 = Inr m3" "pol_get (policy m3) = add_refs (\<lambda>k. - int (count_list keys k)) ?g2"
    using complete_load_ok [OF s(1)] by blast
  have "pol_get (policy m3) k = ?g k" if "k \<in> set keys" for k using keep [OF that] l(4) that unfolding m3(2) by (auto simp: add_refs_def)
  moreover have "slot_of ?g k = slot_of ?g2 k" if "k \<in> set keys" for k using keep [OF that] l(4) that by (auto simp: slot_of_def)
  ultimately show ?thesis using m3(1) l(2) by auto
qed

theorem loads_survive_stores_witness:
  "\<exists>ids m1 r m2. prepare_load [[1]] offload_idle = Inr (ids, m1) \<and> prepare_store [[3]] m1 = Inr (r, m2) \<and>
     ids = map (slot_of (pol_get (policy m2))) [[1]]"
proof -
  have "case prepare_load [[1]] offload_idle of Inr (ids, m1) \<Rightarrow> (case prepare_store [[3]] m1 of Inr (r, m2) \<Rightarrow> True | Inl _ \<Rightarrow> False) | Inl _ \<Rightarrow> False"
    by code_simp
  then obtain ids m1 r m2 where s: "prepare_load [[1]] offload_idle = Inr (ids, m1)" "prepare_store [[3]] m1 = Inr (r, m2)"
    by (auto split: sum.splits prod.splits) (metis sum.exhaust_sel surj_pair)
  have "\<forall>k b. pol_get (policy offload_idle) k = Some b \<longrightarrow> bs_ref_cnt b + int (count_list [[1]] k) < 2 ^ 31"
    by (auto simp: offload_idle_def lru_get_def split: if_splits)
  then show ?thesis using loads_survive_stores [OF offload_idle_reach _ s(1) _ s(2)] s by fastforce
qed


section \<open>Where the code departs from its comments\<close>

text \<open>
  Two slots under ARC: two blocks are stored, the first is replaced by a third and then asked for twice, which raises the target size of
  the recent list to two; the second is promoted and being loaded. The third stays idle.
\<close>

definition arc_sample_run :: "offload_manager result" where
  "arc_sample_run =
     ebind (om_init 2 ''arc'' False 0 64000) (\<lambda>m.
     ebind (prepare_store [[1], [2]] m) (\<lambda>(_, m).
     ebind (complete_store [[1], [2]] True m) (\<lambda>m.
     ebind (prepare_store [[3]] m) (\<lambda>(_, m).
     ebind (complete_store [[3]] True m) (\<lambda>m.
     ebind (prepare_load [[2]] (om_touch [[2]] (om_touch [[1]] (om_touch [[1]] m)))) (\<lambda>(_, m). Inr m))))))"

text \<open>
  C38. ARC can refuse a store that an idle unprotected block could make room for: in a state reached by ordinary calls, block \<open>3\<close> is idle
  and not among the given keys, one block is missing, and the store of \<open>4\<close> is refused. \<^verbatim>\<open>CachePolicy.evict\<close> documents \<^verbatim>\<open>None\<close> only for
  evictions that cannot be satisfied.
\<close>

theorem arc_refuses_satisfiable_store:
  "\<exists>m m'. arc_sample_run = Inr m \<and> [3] \<in> with_ref (pol_get (policy m)) 0 \<and> om_get_num_free_blocks m = 0 \<and>
     num_evictable_cache_blocks m = 1 \<and> prepare_store [[4]] m = Inr (None, m')"
proof -
  have c: "case arc_sample_run of Inl _ \<Rightarrow> False
    | Inr m \<Rightarrow> map_option bs_ref_cnt (pol_get (policy m) [3]) = Some 0 \<and> om_get_num_free_blocks m = 0 \<and> num_evictable_cache_blocks m = 1 \<and>
       (case prepare_store [[4]] m of Inl _ \<Rightarrow> False | Inr (r, _) \<Rightarrow> r = None)" by code_simp
  then obtain m where m: "arc_sample_run = Inr m" "map_option bs_ref_cnt (pol_get (policy m) [3]) = Some 0" "om_get_num_free_blocks m = 0"
    "num_evictable_cache_blocks m = 1" "case prepare_store [[4]] m of Inl _ \<Rightarrow> False | Inr (r, _) \<Rightarrow> r = None"
    by (auto split: sum.splits)
  obtain m' where "prepare_store [[4]] m = Inr (None, m')" using m(5) by (cases "prepare_store [[4]] m") auto
  then show ?thesis using m by (auto simp: with_ref_def)
qed

text \<open>
  One slot, LRU, stores only of keys looked up twice, and a tracker for one key. Key \<open>1\<close> is stored; the lookups of key \<open>2\<close> then push it
  out of the tracker.
\<close>

definition threshold_sample_run :: "offload_manager result" where
  "threshold_sample_run =
     ebind (om_init 1 ''lru'' False 2 1) (\<lambda>m.
     ebind (om_lookup [1] m) (\<lambda>(_, m). ebind (om_lookup [1] m) (\<lambda>(_, m).
     ebind (prepare_store [[1]] m) (\<lambda>(_, m).
     ebind (complete_store [[1]] True m) (\<lambda>m.
     ebind (om_lookup [2] m) (\<lambda>(_, m). ebind (om_lookup [2] m) (\<lambda>(_, m). Inr m)))))))"

text \<open>
  C39. With a store threshold, a store can evict a block of its own input: \<^verbatim>\<open>prepare_store\<close> is given keys \<open>1\<close> and \<open>2\<close>, \<open>1\<close> is stored and
  readable before the call, and the call evicts it. The comment in the code says that blocks of the original input are excluded from
  eviction and that a block already stored must remain; the protected set is built after the threshold has filtered the keys.
\<close>

theorem store_evicts_its_own_input:
  "\<exists>m m' out. threshold_sample_run = Inr m \<and> [1] \<in> with_ref (pol_get (policy m)) 0 \<and>
     prepare_store [[1], [2]] m = Inr (Some out, m') \<and> evicted_keys out = [[1]] \<and> pol_get (policy m') [1] = None"
proof -
  have c: "case threshold_sample_run of Inl _ \<Rightarrow> False
    | Inr m \<Rightarrow> map_option bs_ref_cnt (pol_get (policy m) [1]) = Some 0 \<and>
       (case prepare_store [[1], [2]] m of Inl _ \<Rightarrow> False | Inr (r, m') \<Rightarrow> map_option evicted_keys r = Some [[1]] \<and> pol_get (policy m') [1] = None)"
    by code_simp
  then obtain m where m: "threshold_sample_run = Inr m" "map_option bs_ref_cnt (pol_get (policy m) [1]) = Some 0"
    "case prepare_store [[1], [2]] m of Inl _ \<Rightarrow> False | Inr (r, m') \<Rightarrow> map_option evicted_keys r = Some [[1]] \<and> pol_get (policy m') [1] = None"
    by (auto split: sum.splits)
  obtain out m' where "prepare_store [[1], [2]] m = Inr (Some out, m')" "evicted_keys out = [[1]]" "pol_get (policy m') [1] = None"
    using m(3) by (cases "prepare_store [[1], [2]] m") auto
  then show ?thesis using m(1,2) by (auto simp: with_ref_def)
qed

end
