(* ===== verification/Single_Manager.thy ===== *)
theory Single_Manager
  imports Block_Pool
begin

text \<open>
  \<^verbatim>\<open>vllm/v1/core/single_type_kv_cache_manager.py\<close>: the manager of the blocks of one group of attention layers, for full, reference-window,
  sliding-window, chunked-local and cross attention. The manager of Mamba layers is left out. A manager and the block pool it shares
  with the other managers are passed and returned explicitly.
\<close>

section \<open>Specifications of a cache group\<close>

text \<open>
  The classes of \<^verbatim>\<open>vllm/v1/kv_cache_interface.py\<close> a manager distinguishes; \<open>spec_layout\<close> stands for the fields (heads, data type,
  page padding) that managers only compare for equality.
\<close>

datatype spec_type =
    FullAttentionSpec | TQFullAttentionSpec | MLAAttentionSpec | HiddenStateCacheSpec
  | RSWASpec int | SinkFullAttentionSpec "int option"
  | SlidingWindowSpec int | SlidingWindowMLASpec int | ChunkedLocalAttentionSpec int | CrossAttentionSpec

record kv_cache_spec =
  spec_type :: spec_type
  spec_block_size :: int
  spec_layout :: string

text \<open>\<^verbatim>\<open>isinstance(spec, FullAttentionSpec)\<close> and \<^verbatim>\<open>isinstance(spec, SlidingWindowSpec)\<close>, with the window.\<close>

fun is_full_attention :: "spec_type \<Rightarrow> bool" where
  "is_full_attention (SlidingWindowSpec w) = False"
| "is_full_attention (SlidingWindowMLASpec w) = False"
| "is_full_attention (ChunkedLocalAttentionSpec c) = False"
| "is_full_attention CrossAttentionSpec = False"
| "is_full_attention _ = True"

fun sliding_window :: "spec_type \<Rightarrow> int option" where
  "sliding_window (SlidingWindowSpec w) = Some w"
| "sliding_window (SlidingWindowMLASpec w) = Some w"
| "sliding_window _ = None"

fun max_admission_blocks_per_request :: "spec_type \<Rightarrow> int \<Rightarrow> int \<Rightarrow> int \<Rightarrow> int option" where
  "max_admission_blocks_per_request (SlidingWindowSpec w) bs max_in_flight_tokens max_model_len =
     Some (cdiv (min (w - 1 + max_in_flight_tokens) max_model_len) bs + 1)"
| "max_admission_blocks_per_request (SlidingWindowMLASpec w) bs max_in_flight_tokens max_model_len =
     Some (cdiv (min (w - 1 + max_in_flight_tokens) max_model_len) bs + 1)"
| "max_admission_blocks_per_request (ChunkedLocalAttentionSpec c) bs max_in_flight_tokens max_model_len =
     Some (cdiv (min (c + max_in_flight_tokens) max_model_len) bs)"
| "max_admission_blocks_per_request _ bs max_in_flight_tokens max_model_len = None"

datatype manager_class =
    FullAttentionManager | RSWAManager | SlidingWindowManager | ChunkedLocalAttentionManager | CrossAttentionManager
  | SinkFullAttentionManager

fun get_manager_class :: "spec_type \<Rightarrow> manager_class" where
  "get_manager_class (RSWASpec w) = RSWAManager"
| "get_manager_class (SinkFullAttentionSpec l) = SinkFullAttentionManager"
| "get_manager_class (SlidingWindowSpec w) = SlidingWindowManager"
| "get_manager_class (SlidingWindowMLASpec w) = SlidingWindowManager"
| "get_manager_class (ChunkedLocalAttentionSpec c) = ChunkedLocalAttentionManager"
| "get_manager_class CrossAttentionSpec = CrossAttentionManager"
| "get_manager_class _ = FullAttentionManager"


section \<open>State\<close>

record st_manager =
  mgr_spec :: kv_cache_spec
  mgr_scheduler_block_size :: int
  mgr_block_size :: int
  mgr_caching :: bool
  mgr_admission_cap :: "int option"
  records_new_block_ids :: bool
  new_block_ids :: "int list"
  req_to_blocks :: "(string, bref list) dict"
  num_cached_block :: "(string, int) dict"
  mgr_group_id :: int
  mgr_use_eagle :: bool
  partial_hit_reqs :: "(string, int \<times> bref) dict"
  pending_cow_copies :: "(bref \<times> bref) list"

abbreviation mgr_type :: "st_manager \<Rightarrow> spec_type" where
  "mgr_type m \<equiv> spec_type (mgr_spec m)"

text \<open>
  The constructor, as the coordinator calls it: \<^verbatim>\<open>SinkFullAttentionManager.__init__\<close> does not take the keyword
  \<^verbatim>\<open>needs_kv_cache_zeroing\<close> the coordinator always passes.
\<close>

definition get_manager_for_kv_cache_spec ::
    "kv_cache_spec \<Rightarrow> int \<Rightarrow> int \<Rightarrow> bool \<Rightarrow> int \<Rightarrow> int \<Rightarrow> int \<Rightarrow> bool \<Rightarrow> st_manager result" where
  "get_manager_for_kv_cache_spec spec max_in_flight_tokens max_model_len caching gid sched_block_size dcp_world_size zeroing =
     (if get_manager_class (spec_type spec) = SinkFullAttentionManager then Inl TypeError
      else
        Inr \<lparr>mgr_spec = spec, mgr_scheduler_block_size = sched_block_size,
             mgr_block_size = (if dcp_world_size > 1 then spec_block_size spec * dcp_world_size else spec_block_size spec),
             mgr_caching = caching,
             mgr_admission_cap =
               max_admission_blocks_per_request (spec_type spec) (spec_block_size spec) max_in_flight_tokens max_model_len,
             records_new_block_ids = (zeroing \<and>
               spec_type spec \<in> {FullAttentionSpec, TQFullAttentionSpec, MLAAttentionSpec, HiddenStateCacheSpec}),
             new_block_ids = [], req_to_blocks = [], num_cached_block = [], mgr_group_id = gid, mgr_use_eagle = False,
             partial_hit_reqs = [], pending_cow_copies = []\<rparr>)"

text \<open>\<^verbatim>\<open>req_to_blocks\<close> is a \<^verbatim>\<open>defaultdict(list)\<close>: \<open>with_entry\<close> is the entry that reading a missing key creates.\<close>

definition blocks_of :: "st_manager \<Rightarrow> string \<Rightarrow> bref list" where
  "blocks_of m rid = dget_default (req_to_blocks m) rid []"

definition set_blocks :: "string \<Rightarrow> bref list \<Rightarrow> st_manager \<Rightarrow> st_manager" where
  "set_blocks rid bs m = m\<lparr>req_to_blocks := dset rid bs (req_to_blocks m)\<rparr>"

definition with_entry :: "string \<Rightarrow> st_manager \<Rightarrow> st_manager" where
  "with_entry rid m = (if dget (req_to_blocks m) rid = None then set_blocks rid [] m else m)"

fun get_num_skipped_tokens :: "spec_type \<Rightarrow> int \<Rightarrow> int" where
  "get_num_skipped_tokens (SlidingWindowSpec w) n = max 0 (n - w + 1)"
| "get_num_skipped_tokens (SlidingWindowMLASpec w) n = max 0 (n - w + 1)"
| "get_num_skipped_tokens (ChunkedLocalAttentionSpec c) n = n div c * c"
| "get_num_skipped_tokens _ n = 0"


section \<open>Allocation\<close>

definition get_num_evictable_blocks :: "block_pool \<Rightarrow> bref list \<Rightarrow> int" where
  "get_num_evictable_blocks p blocks = int (length (filter (\<lambda>b. ref_cnt (heap p b) = 0 \<and> \<not> is_null (heap p b)) blocks))"

definition has_partial_local_hit :: "st_manager \<Rightarrow> bref list \<Rightarrow> int \<Rightarrow> bool" where
  "has_partial_local_hit m new_computed_blocks num_local_computed_tokens \<longleftrightarrow>
     new_computed_blocks \<noteq> [] \<and> num_local_computed_tokens mod mgr_block_size m \<noteq> 0"

definition st_get_num_blocks_to_allocate ::
    "st_manager \<Rightarrow> block_pool \<Rightarrow> string \<Rightarrow> int \<Rightarrow> bref list \<Rightarrow> int \<Rightarrow> int \<Rightarrow> bool \<Rightarrow> int result" where
  "st_get_num_blocks_to_allocate m p rid ntokens new_computed_blocks total_computed_tokens num_local_computed_tokens apply_cap =
     (let required0 = cdiv ntokens (mgr_block_size m);
          num_required_blocks = (if apply_cap then (case mgr_admission_cap m of None \<Rightarrow> required0 | Some c \<Rightarrow> min required0 c) else required0);
          num_req_blocks = int (length (blocks_of m rid)) in
      if dget (num_cached_block m) rid \<noteq> None
      then eassert (new_computed_blocks = []) (Inr (max (num_required_blocks - num_req_blocks) 0))
      else
        (let num_skipped_tokens = get_num_skipped_tokens (mgr_type m) total_computed_tokens;
             num_local_computed_blocks = int (length new_computed_blocks) + num_req_blocks;
             num_skipped_blocks = num_skipped_tokens div mgr_block_size m;
             num_new_blocks = max (num_required_blocks - max num_skipped_blocks num_local_computed_blocks) 0;
             num_skipped_new_computed_blocks = max 0 (num_skipped_blocks - num_req_blocks);
             num_evictable_blocks = get_num_evictable_blocks p (py_slice_from new_computed_blocks num_skipped_new_computed_blocks)
         in Inr ((if has_partial_local_hit m new_computed_blocks num_local_computed_tokens then num_new_blocks + 1 else num_new_blocks)
                 + num_evictable_blocks)))"

definition add_local_computed_blocks ::
    "string \<Rightarrow> bref list \<Rightarrow> int \<Rightarrow> int \<Rightarrow> st_manager \<Rightarrow> block_pool \<Rightarrow> (st_manager \<times> block_pool) result" where
  "add_local_computed_blocks rid new_computed_blocks num_local_computed_tokens num_external_computed_tokens m p =
     (if get_manager_class (mgr_type m) = CrossAttentionManager then eassert (new_computed_blocks = []) (Inr (m, p))
      else
        (let m1 = with_entry rid m in
         eassert (blocks_of m1 rid = [])
         (let num_skipped_tokens = get_num_skipped_tokens (mgr_type m) (num_local_computed_tokens + num_external_computed_tokens);
              num_skipped_blocks = num_skipped_tokens div mgr_block_size m;
              new_computed = (if num_skipped_blocks > 0 then py_slice_from new_computed_blocks num_skipped_blocks else new_computed_blocks) in
          ebind (if mgr_caching m then touch new_computed p else eassert (new_computed = []) (Inr p)) (\<lambda>p1.
          (let req_blocks = replicate (nat num_skipped_blocks) (null_block p) @ new_computed;
               m2 = (set_blocks rid req_blocks m1)\<lparr>num_cached_block := dset rid (int (length req_blocks)) (num_cached_block m1)\<rparr>;
               block_idx = num_local_computed_tokens div mgr_block_size m in
           Inr (if has_partial_local_hit m new_computed num_local_computed_tokens
                then m2\<lparr>partial_hit_reqs := dset rid (block_idx, last new_computed) (partial_hit_reqs m2),
                        num_cached_block := dset rid block_idx (num_cached_block m2)\<rparr>
                else m2, p1))))))"

definition allocate_external_computed_blocks ::
    "string \<Rightarrow> int \<Rightarrow> int \<Rightarrow> st_manager \<Rightarrow> block_pool \<Rightarrow> (st_manager \<times> block_pool) result" where
  "allocate_external_computed_blocks rid num_local_computed_tokens num_external_computed_tokens m p =
     (if get_manager_class (mgr_type m) = CrossAttentionManager then Inr (m, p)
      else
        (let total = num_local_computed_tokens + num_external_computed_tokens;
             num_skipped_tokens = get_num_skipped_tokens (mgr_type m) total;
             ext = (if num_skipped_tokens > 0 then min (total - num_skipped_tokens) num_external_computed_tokens
                    else num_external_computed_tokens) in
         if ext \<le> 0 then Inr (m, p)
         else
           (let m1 = with_entry rid m in
            ebind (get_new_blocks (cdiv total (mgr_block_size m) - int (length (blocks_of m1 rid))) p) (\<lambda>(allocated, p1).
            (let m2 = set_blocks rid (blocks_of m1 rid @ allocated) m1 in
             Inr (if records_new_block_ids m then m2\<lparr>new_block_ids := new_block_ids m2 @ map block_id allocated\<rparr> else m2, p1))))))"

definition apply_cow :: "string \<Rightarrow> int \<Rightarrow> bref \<Rightarrow> bref \<Rightarrow> st_manager \<Rightarrow> block_pool \<Rightarrow> (st_manager \<times> block_pool) result" where
  "apply_cow rid block_idx source_block cow_block m p =
     (let m1 = with_entry rid m; req_blocks = blocks_of m1 rid in
      eassert (block_idx < int (length req_blocks))
      (ebind (py_index req_blocks block_idx) (\<lambda>b.
       eassert (b = source_block)
       (eassert (\<not> is_null (heap p source_block) \<and> ref_cnt (heap p source_block) > 0)
        (let m2 = set_blocks rid (req_blocks[nat block_idx := cow_block]) m1 in
         Inr (m2\<lparr>pending_cow_copies := pending_cow_copies m2 @ [(source_block, cow_block)]\<rparr>, add_ref 1 cow_block p))))))"

text \<open>The copy-on-write redirection of a request whose prefix hit ends inside a block.\<close>

definition redirect_partial_hit :: "string \<Rightarrow> st_manager \<Rightarrow> block_pool \<Rightarrow> (bref list \<times> st_manager \<times> block_pool) result" where
  "redirect_partial_hit rid m p =
     (case dget (partial_hit_reqs m) rid of
        None \<Rightarrow> Inr ([], m, p)
      | Some (block_idx, source_block) \<Rightarrow>
          ebind (get_new_blocks 1 p) (\<lambda>(new, p1).
          ebind (py_index new 0) (\<lambda>cow_block.
          ebind (apply_cow rid block_idx source_block cow_block (m\<lparr>partial_hit_reqs := ddel rid (partial_hit_reqs m)\<rparr>) p1) (\<lambda>(m2, p2).
          Inr ([cow_block], m2\<lparr>new_block_ids := new_block_ids m2 @ [block_id cow_block]\<rparr>, p2)))))"

definition st_allocate_new_blocks :: "string \<Rightarrow> int \<Rightarrow> st_manager \<Rightarrow> block_pool \<Rightarrow> (bref list \<times> st_manager \<times> block_pool) result" where
  "st_allocate_new_blocks rid ntokens m p =
     ebind (redirect_partial_hit rid m p) (\<lambda>(cow_blocks, m1, p1).
     (let m2 = with_entry rid m1;
          num_new_blocks = cdiv ntokens (mgr_block_size m) - int (length (blocks_of m2 rid)) in
      if num_new_blocks \<le> 0 then Inr (cow_blocks, m2, p1)
      else
        ebind (get_new_blocks num_new_blocks p1) (\<lambda>(new_blocks, p2).
        (let m3 = set_blocks rid (blocks_of m2 rid @ new_blocks) m2 in
         Inr (cow_blocks @ new_blocks,
              if records_new_block_ids m then m3\<lparr>new_block_ids := new_block_ids m3 @ map block_id new_blocks\<rparr> else m3, p2)))))"

definition st_take_new_block_ids :: "st_manager \<Rightarrow> int list \<times> st_manager" where
  "st_take_new_block_ids m = (new_block_ids m, m\<lparr>new_block_ids := []\<rparr>)"

definition take_pending_cow_copies :: "st_manager \<Rightarrow> (bref \<times> bref) list \<times> st_manager" where
  "take_pending_cow_copies m = (pending_cow_copies m, m\<lparr>pending_cow_copies := []\<rparr>)"


section \<open>Caching\<close>

definition contiguous_blocks_for_hit :: "int \<Rightarrow> int \<Rightarrow> bool \<Rightarrow> int" where
  "contiguous_blocks_for_hit window_size bs use_eagle = (let blocks = cdiv (window_size - 1) bs in if use_eagle then blocks + 1 else blocks)"

text \<open>
  \<^verbatim>\<open>reachable_block_mask\<close> of a sliding-window group: which of the blocks \<open>[start_block, end_block)\<close> can serve a hit. The code sets
  entries of a list; the model gives each entry its final value.
\<close>

definition sliding_reachable_block_mask ::
    "int \<Rightarrow> int \<Rightarrow> int \<Rightarrow> int \<Rightarrow> int \<Rightarrow> bool \<Rightarrow> int option \<Rightarrow> int list \<Rightarrow> bool list option result" where
  "sliding_reachable_block_mask start_block end_block alignment_tokens bs window use_eagle retention_interval boundaries =
     eassert (alignment_tokens mod bs = 0)
     (let need = contiguous_blocks_for_hit window bs use_eagle;
          shift = (if use_eagle then 1 else 0);
          segment_tokens = (case retention_interval of None \<Rightarrow> Some alignment_tokens | Some r \<Rightarrow> if r = 0 then None else Some r);
          per_segment = map_option (\<lambda>s. s div bs) segment_tokens;
          in_segment = (\<lambda>i. case per_segment of None \<Rightarrow> False | Some s \<Rightarrow> i \<ge> shift \<and> (i - shift) mod s \<ge> s - need);
          at_boundary = (\<lambda>i. retention_interval \<noteq> None \<and>
            list_ex (\<lambda>b. let last = b div alignment_tokens * alignment_tokens div bs + shift
                          in max start_block (last - need) \<le> i \<and> i < min end_block last) boundaries)
      in if (case per_segment of None \<Rightarrow> False | Some s \<Rightarrow> need \<ge> s) then Inr None
         else Inr (Some (map (\<lambda>i. in_segment i \<or> at_boundary i) [start_block..end_block - 1])))"

definition reachable_block_mask ::
    "int \<Rightarrow> int \<Rightarrow> int option \<Rightarrow> int list \<Rightarrow> st_manager \<Rightarrow> bool list option result" where
  "reachable_block_mask start_block end_block retention_interval boundaries m =
     (case sliding_window (mgr_type m) of
        None \<Rightarrow> Inr None
      | Some w \<Rightarrow> sliding_reachable_block_mask start_block end_block (mgr_scheduler_block_size m) (spec_block_size (mgr_spec m)) w
                   (mgr_use_eagle m) retention_interval boundaries)"

definition base_cache_blocks ::
    "hash_env \<Rightarrow> request \<Rightarrow> int \<Rightarrow> int option \<Rightarrow> st_manager \<Rightarrow> block_pool \<Rightarrow> (request \<times> st_manager \<times> block_pool) result" where
  "base_cache_blocks env r ntokens retention_interval m p =
     (let rid = request_id r;
          num_cached_blocks = dget_default (num_cached_block m) rid 0;
          num_full_blocks = ntokens div mgr_block_size m in
      if num_cached_blocks \<ge> num_full_blocks then Inr (r, m, p)
      else
        ebind (reachable_block_mask num_cached_blocks num_full_blocks retention_interval
                 ((num_prompt_tokens r - 1) # (if shared_prefix_boundary r \<noteq> 0 then [shared_prefix_boundary r] else [])) m) (\<lambda>msk.
        (let m1 = with_entry rid m in
         ebind (cache_full_blocks env r (blocks_of m1 rid) num_cached_blocks num_full_blocks (mgr_block_size m) (mgr_group_id m) msk p)
           (\<lambda>(r', p1). Inr (r', m1\<lparr>num_cached_block := dset rid num_full_blocks (num_cached_block m1)\<rparr>, p1)))))"

definition cache_partial_tail_block ::
    "hash_env \<Rightarrow> request \<Rightarrow> int \<Rightarrow> st_manager \<Rightarrow> block_pool \<Rightarrow> (request \<times> st_manager \<times> block_pool) result" where
  "cache_partial_tail_block env r ntokens m p =
     (let boundary_tokens = num_prompt_tokens r div hash_block_size p * hash_block_size p in
      if boundary_tokens = 0 \<or> boundary_tokens > ntokens then Inr (r, m, p)
      else if boundary_tokens mod mgr_block_size m = 0 then Inr (r, m, p)
      else
        (let m1 = with_entry (request_id r) m;
             blocks = blocks_of m1 (request_id r);
             block_idx = boundary_tokens div mgr_block_size m in
         if block_idx \<ge> int (length blocks) then Inr (r, m1, p)
         else
           ebind (py_index blocks block_idx) (\<lambda>b.
           ebind (cache_partial_block env r b boundary_tokens (mgr_group_id m) (mgr_block_size m) p) (\<lambda>(_, r', p1).
           Inr (r', m1, p1)))))"

definition st_cache_blocks ::
    "hash_env \<Rightarrow> request \<Rightarrow> int \<Rightarrow> int option \<Rightarrow> st_manager \<Rightarrow> block_pool \<Rightarrow> (request \<times> st_manager \<times> block_pool) result" where
  "st_cache_blocks env r ntokens retention_interval m p =
     (case get_manager_class (mgr_type m) of
        CrossAttentionManager \<Rightarrow> Inl ValueError
      | SlidingWindowManager \<Rightarrow> base_cache_blocks env r ntokens retention_interval m p
      | ChunkedLocalAttentionManager \<Rightarrow> base_cache_blocks env r ntokens retention_interval m p
      | _ \<Rightarrow>
          ebind (base_cache_blocks env r ntokens retention_interval m p) (\<lambda>(r1, m1, p1).
          if mgr_block_size m = hash_block_size p then Inr (r1, m1, p1)
          else cache_partial_tail_block env r1 ntokens m1 p1))"


section \<open>Release\<close>

definition st_pop_blocks_for_free :: "string \<Rightarrow> st_manager \<Rightarrow> bref list \<times> st_manager" where
  "st_pop_blocks_for_free rid m =
     (blocks_of m rid,
      m\<lparr>req_to_blocks := ddel rid (req_to_blocks m), num_cached_block := ddel rid (num_cached_block m),
        partial_hit_reqs := ddel rid (partial_hit_reqs m)\<rparr>)"

definition st_free :: "string \<Rightarrow> st_manager \<Rightarrow> block_pool \<Rightarrow> (st_manager \<times> block_pool) result" where
  "st_free rid m p =
     (case st_pop_blocks_for_free rid m of (blocks, m1) \<Rightarrow> ebind (free_blocks (rev blocks) p) (\<lambda>p1. Inr (m1, p1)))"

text \<open>The loop of \<^verbatim>\<open>_remove_blocks_in_range\<close>: from the last index down, until a null block; the freed blocks and the table.\<close>

fun null_out :: "bref \<Rightarrow> nat list \<Rightarrow> bref list \<Rightarrow> bref list \<Rightarrow> bref list \<times> bref list" where
  "null_out null [] blocks freed = (freed, blocks)"
| "null_out null (i # is) blocks freed =
     (if blocks ! i = null then (freed, blocks) else null_out null is (blocks[i := null]) (freed @ [blocks ! i]))"

definition remove_blocks_in_range :: "string \<Rightarrow> int \<Rightarrow> int \<Rightarrow> st_manager \<Rightarrow> block_pool \<Rightarrow> (st_manager \<times> block_pool) result" where
  "remove_blocks_in_range rid first_block last_block m p =
     (if dget (req_to_blocks m) rid = None \<or> first_block \<ge> last_block then Inr (m, p)
      else
        (let blocks = blocks_of m rid; last = min last_block (int (length blocks)) in
         case null_out (null_block p) (rev [nat first_block..<nat last]) blocks [] of (freed, blocks') \<Rightarrow>
         (let m1 = set_blocks rid blocks' m in
          if freed = [] then Inr (m1, p) else ebind (free_blocks freed p) (\<lambda>p1. Inr (m1, p1)))))"

definition base_remove_skipped_blocks :: "string \<Rightarrow> int \<Rightarrow> st_manager \<Rightarrow> block_pool \<Rightarrow> (st_manager \<times> block_pool) result" where
  "base_remove_skipped_blocks rid processed_computed_tokens m p =
     (let num_skipped_tokens = get_num_skipped_tokens (mgr_type m) processed_computed_tokens in
      if num_skipped_tokens \<le> 0 then Inr (m, p)
      else
        (let m1 = with_entry rid m;
             num_skipped_blocks = min (num_skipped_tokens div mgr_block_size m) (int (length (blocks_of m1 rid)))
         in remove_blocks_in_range rid 0 num_skipped_blocks m1 p))"

fun st_remove_skipped_blocks :: "string \<Rightarrow> int \<Rightarrow> int option \<Rightarrow> st_manager \<Rightarrow> block_pool \<Rightarrow> (st_manager \<times> block_pool) result" where
  "st_remove_skipped_blocks rid processed_computed_tokens prompt_tokens m p =
     (case (mgr_type m, prompt_tokens) of
        (RSWASpec w, Some n) \<Rightarrow>
          remove_blocks_in_range rid (cdiv n (mgr_block_size m))
            (max n (processed_computed_tokens - w) div mgr_block_size m) m p
      | _ \<Rightarrow> base_remove_skipped_blocks rid processed_computed_tokens m p)"

definition st_get_num_common_prefix_blocks :: "string \<Rightarrow> st_manager \<Rightarrow> block_pool \<Rightarrow> int \<times> st_manager" where
  "st_get_num_common_prefix_blocks rid m p =
     (if get_manager_class (mgr_type m) \<in> {FullAttentionManager, RSWAManager, SinkFullAttentionManager}
      then
        (let m1 = with_entry rid m
         in (int (length (takeWhile (\<lambda>b. ref_cnt (heap p b) = int (length (req_to_blocks m1))) (blocks_of m1 rid))), m1))
      else (0, m))"

end
