(* ===== verification/Prefix_Hit.thy ===== *)
theory Prefix_Hit
  imports Single_Manager Pool_Properties
begin

text \<open>
  \<^verbatim>\<open>find_longest_cache_hit\<close> of the managers in \<^verbatim>\<open>vllm/v1/core/single_type_kv_cache_manager.py\<close>: the longest prefix of a request whose
  blocks are in the prefix cache, for several groups with the same specification at once.
\<close>

section \<open>Lookups\<close>

text \<open>The lookup as a truth value: the code takes no blocks and an empty list alike for a miss.\<close>

definition lookup_hit :: "bytes \<Rightarrow> int list \<Rightarrow> block_pool \<Rightarrow> bref list option result" where
  "lookup_hit h gids p = ebind (get_cached_block h gids p) (\<lambda>r. Inr (case r of Some [] \<Rightarrow> None | _ \<Rightarrow> r))"

text \<open>\<^verbatim>\<open>for computed, cached in zip(computed_blocks, cached_block): computed.append(cached)\<close>.\<close>

definition append_each :: "bref list list \<Rightarrow> bref list \<Rightarrow> bref list list" where
  "append_each computed cached = map2 (\<lambda>c b. c @ [b]) computed cached @ drop (length cached) computed"


section \<open>Full attention\<close>

text \<open>The run of cached full blocks from the start; \<open>idxs\<close> are the positions still to be looked at.\<close>

fun full_run :: "block_hash_list \<Rightarrow> int list \<Rightarrow> block_pool \<Rightarrow> int list \<Rightarrow> bref list list \<Rightarrow> bref list list result" where
  "full_run hs gids p [] computed = Inr computed"
| "full_run hs gids p (i # is) computed =
     ebind (bhl_get hs i) (\<lambda>h.
     ebind (lookup_hit h gids p) (\<lambda>r.
     case r of None \<Rightarrow> Inr computed | Some cached \<Rightarrow> full_run hs gids p is (append_each computed cached)))"

text \<open>The probes inside the first block that is not full, from the longest down: the position found and its blocks.\<close>

fun probe_tail :: "block_hash_list \<Rightarrow> int list \<Rightarrow> block_pool \<Rightarrow> int list \<Rightarrow> (int \<times> bref list) option result" where
  "probe_tail hs gids p [] = Inr None"
| "probe_tail hs gids p (i # is) =
     ebind (bhl_get hs i) (\<lambda>h.
     ebind (lookup_hit h gids p) (\<lambda>r. case r of None \<Rightarrow> probe_tail hs gids p is | Some cached \<Rightarrow> Inr (Some (i, cached))))"

definition hit_len :: "bref list list \<Rightarrow> int \<Rightarrow> int result" where
  "hit_len computed bs = (case computed of [] \<Rightarrow> Inl IndexError | c # _ \<Rightarrow> Inr (int (length c) * bs))"

definition full_find_longest_cache_hit ::
    "bytes list \<Rightarrow> int \<Rightarrow> int list \<Rightarrow> block_pool \<Rightarrow> kv_cache_spec \<Rightarrow> bool \<Rightarrow> int \<Rightarrow> int \<Rightarrow> (bref list list \<times> int) result" where
  "full_find_longest_cache_hit hashes max_length gids p spec drop_eagle_block alignment_tokens dcp_world_size =
     eassert (is_full_attention (spec_type spec) \<or> (case spec_type spec of ChunkedLocalAttentionSpec _ \<Rightarrow> True | _ \<Rightarrow> False))
     (let bs = (if dcp_world_size > 1 then spec_block_size spec * dcp_world_size else spec_block_size spec);
          fine_grained = (alignment_tokens < bs \<and> bs mod alignment_tokens = 0) in
      ebind (resolve_block_hashes (HashList hashes) (hash_block_size p) bs True (Some alignment_tokens)) (\<lambda>hs.
      ebind (if fine_grained then (case hs of HashList l \<Rightarrow> new_hash_view l alignment_tokens bs | HashView _ _ \<Rightarrow> Inl AssertionError)
             else Inr hs) (\<lambda>full_hashes.
      if max_length div bs < 0 then Inl ValueError
      else
      ebind (full_run full_hashes gids p [0..min (max_length div bs) (bhl_len full_hashes) - 1] (map (\<lambda>_. []) gids)) (\<lambda>computed.
      ebind (hit_len computed bs) (\<lambda>hit_length0.
      ebind (if fine_grained then
               (let scale = bs div alignment_tokens;
                    first_partial_idx = hit_length0 div bs * scale;
                    max_partial_idx = min (min (first_partial_idx + scale - 1) (max_length div alignment_tokens)) (bhl_len hs) in
                ebind (probe_tail hs gids p (rev [first_partial_idx..max_partial_idx - 1])) (\<lambda>r.
                Inr (case r of None \<Rightarrow> (computed, hit_length0)
                     | Some (i, cached) \<Rightarrow> (append_each computed cached, (i + 1) * alignment_tokens))))
             else Inr (computed, hit_length0)) (\<lambda>(computed1, hit_length1).
      (let hit_length2 = (if drop_eagle_block \<and> hit_length1 > 0 then hit_length1 - min alignment_tokens bs else hit_length1);
           hit_length = hit_length2 - hit_length2 mod alignment_tokens
       in Inr (map (\<lambda>c. py_slice_to c (cdiv hit_length bs)) computed1, hit_length))))))))"


section \<open>Sliding window\<close>

text \<open>
  The search from right to left: the blocks found so far, the length of the current run, and whether it is long enough. \<open>upd\<close> is
  \<^verbatim>\<open>computed[i] = cached\<close> for every group.
\<close>

definition upd_each :: "nat \<Rightarrow> bref list list \<Rightarrow> bref list \<Rightarrow> bref list list" where
  "upd_each i computed cached = map2 (\<lambda>c b. c[i := b]) computed cached @ drop (length cached) computed"

fun window_run ::
    "block_hash_list \<Rightarrow> int list \<Rightarrow> block_pool \<Rightarrow> int \<Rightarrow> int \<Rightarrow> bool \<Rightarrow> int \<Rightarrow> nat list \<Rightarrow> bref list list \<Rightarrow> int \<Rightarrow>
     (bref list list \<times> int \<times> bool) result" where
  "window_run hs gids p bs alignment_tokens drop_eagle_block need [] computed n = Inr (computed, n, False)"
| "window_run hs gids p bs alignment_tokens drop_eagle_block need (i # is) computed n =
     ebind (bhl_get hs (int i)) (\<lambda>h.
     ebind (lookup_hit h gids p) (\<lambda>r.
     case r of
       None \<Rightarrow> window_run hs gids p bs alignment_tokens drop_eagle_block need is computed 0
     | Some cached \<Rightarrow>
         if n = 0 \<and> bs \<noteq> alignment_tokens \<and> ((if drop_eagle_block then int i else int i + 1) * bs) mod alignment_tokens \<noteq> 0
         then window_run hs gids p bs alignment_tokens drop_eagle_block need is computed n
         else
           (let computed1 = upd_each i computed cached; n1 = n + 1 in
            if n1 \<ge> need then Inr (map (\<lambda>c. py_slice_to c (int i + n1)) computed1, n1, True)
            else window_run hs gids p bs alignment_tokens drop_eagle_block need is computed1 n1)))"

text \<open>The loop that pops blocks until the length is aligned; \<open>n\<close> is the length of the first list.\<close>

fun aligned_len :: "int \<Rightarrow> int \<Rightarrow> nat \<Rightarrow> nat" where
  "aligned_len bs alignment_tokens 0 = 0"
| "aligned_len bs alignment_tokens (Suc n) =
     (if bs \<noteq> alignment_tokens \<and> (int (Suc n) * bs) mod alignment_tokens \<noteq> 0 then aligned_len bs alignment_tokens n else Suc n)"

definition pop_to_alignment :: "int \<Rightarrow> int \<Rightarrow> bref list list \<Rightarrow> bref list list result" where
  "pop_to_alignment bs alignment_tokens computed =
     (case computed of
        [] \<Rightarrow> if bs \<noteq> alignment_tokens then Inl IndexError else Inr []
      | c # _ \<Rightarrow> Inr (map (\<lambda>d. take (length d - (length c - aligned_len bs alignment_tokens (length c))) d) computed))"

text \<open>What follows the loop: cutting to the run at the start if none was long enough, dropping the block of EAGLE, and aligning after each.\<close>

definition window_finish :: "int \<Rightarrow> int \<Rightarrow> bool \<Rightarrow> bool \<Rightarrow> int \<Rightarrow> bref list list \<Rightarrow> bref list list result" where
  "window_finish bs alignment_tokens drop_eagle_block found n computed =
     ebind (if found then Inr computed
            else pop_to_alignment bs alignment_tokens (map (\<lambda>c. py_slice_to c n) computed)) (\<lambda>computed1.
     case computed1 of
       [] \<Rightarrow> if drop_eagle_block then Inl IndexError else Inr []
     | c # _ \<Rightarrow> if drop_eagle_block \<and> c \<noteq> [] then pop_to_alignment bs alignment_tokens (map butlast computed1) else Inr computed1)"

definition sliding_find_longest_cache_hit ::
    "bytes list \<Rightarrow> int \<Rightarrow> int list \<Rightarrow> block_pool \<Rightarrow> kv_cache_spec \<Rightarrow> bool \<Rightarrow> int \<Rightarrow> int \<Rightarrow> (bref list list \<times> int) result" where
  "sliding_find_longest_cache_hit hashes max_length gids p spec drop_eagle_block alignment_tokens dcp_world_size =
     (case sliding_window (spec_type spec) of
        None \<Rightarrow> Inl AssertionError
      | Some w \<Rightarrow>
          eassert (dcp_world_size = 1)
          (let bs = spec_block_size spec in
           eassert (alignment_tokens mod bs = 0)
           (ebind (resolve_block_hashes (HashList hashes) (hash_block_size p) bs False (Some alignment_tokens)) (\<lambda>hs.
            (let need = contiguous_blocks_for_hit w bs drop_eagle_block;
                 max_num_blocks = max_length div bs in
             ebind (window_run hs gids p bs alignment_tokens drop_eagle_block need (rev [0..<nat max_num_blocks])
                      (map (\<lambda>_. replicate (nat max_num_blocks) (null_block p)) gids) 0) (\<lambda>(computed, n, found).
             ebind (window_finish bs alignment_tokens drop_eagle_block found n computed) (\<lambda>computed2.
             ebind (hit_len computed2 bs) (\<lambda>hit_length. Inr (computed2, hit_length)))))))))"


section \<open>Chunked local attention\<close>

definition chunked_find_longest_cache_hit ::
    "bytes list \<Rightarrow> int \<Rightarrow> int list \<Rightarrow> block_pool \<Rightarrow> kv_cache_spec \<Rightarrow> bool \<Rightarrow> int \<Rightarrow> int \<Rightarrow> (bref list list \<times> int) result" where
  "chunked_find_longest_cache_hit hashes max_length gids p spec drop_eagle_block alignment_tokens dcp_world_size =
     (case spec_type spec of
        ChunkedLocalAttentionSpec chunk \<Rightarrow>
          eassert (\<not> drop_eagle_block)
          (eassert (dcp_world_size = 1)
          (eassert (spec_block_size spec = alignment_tokens)
          (let bs = spec_block_size spec in
           ebind (resolve_block_hashes (HashList hashes) (hash_block_size p) bs False (Some alignment_tokens)) (\<lambda>hs.
           (let max_num_blocks = max_length div bs;
                start_idx = (if max_length > 0 then max_length div chunk * chunk else 0);
                start_block = start_idx div bs in
            ebind (full_run hs gids p [start_block..max_num_blocks - 1]
                     (map (\<lambda>_. replicate (nat start_block) (null_block p)) gids)) (\<lambda>computed.
            ebind (hit_len computed bs) (\<lambda>hit_length. Inr (computed, hit_length))))))))
      | _ \<Rightarrow> Inl AssertionError)"

definition st_find_longest_cache_hit ::
    "manager_class \<Rightarrow> bytes list \<Rightarrow> int \<Rightarrow> int list \<Rightarrow> block_pool \<Rightarrow> kv_cache_spec \<Rightarrow> bool \<Rightarrow> int \<Rightarrow> int \<Rightarrow>
     (bref list list \<times> int) result" where
  "st_find_longest_cache_hit cls =
     (case cls of
        SlidingWindowManager \<Rightarrow> sliding_find_longest_cache_hit
      | ChunkedLocalAttentionManager \<Rightarrow> chunked_find_longest_cache_hit
      | CrossAttentionManager \<Rightarrow> (\<lambda>_ _ _ _ _ _ _ _. Inl NotImplementedError)
      | _ \<Rightarrow> full_find_longest_cache_hit)"

end
