(* ===== verification/Coordinator.thy ===== *)
theory Coordinator
  imports Prefix_Hit
begin

text \<open>
  \<^verbatim>\<open>vllm/v1/core/kv_cache_coordinator.py\<close>: the managers of all cache groups over one block pool, without prefix caching, for a single
  group, and for hybrid models with several kinds of attention. Models without Mamba layers and without prefill context parallelism;
  partial hash hits exist only with Mamba layers.
\<close>

section \<open>State\<close>

record kv_cache_group =
  kv_cache_spec :: kv_cache_spec
  is_eagle_group :: bool

record spec_group =
  sg_spec :: kv_cache_spec
  sg_group_ids :: "int list"
  sg_manager_cls :: manager_class
  sg_use_eagle :: bool

datatype coordinator_kind = NoPrefixCache | Unitary | Hybrid

record coordinator =
  co_kind :: coordinator_kind
  kv_cache_groups :: "kv_cache_group list"
  scheduler_block_size :: int
  block_pool :: block_pool
  eagle_group_ids :: "int list"
  single_type_managers :: "st_manager list"
  retention_interval :: "int option"
  co_dcp_world_size :: int
  attention_groups :: "spec_group list"

text \<open>The parameters of the constructors.\<close>

record coordinator_config =
  cc_groups :: "kv_cache_group list"
  cc_num_blocks :: int
  cc_zeroing :: bool
  cc_max_model_len :: int
  cc_max_in_flight_tokens :: int
  cc_use_eagle :: bool
  cc_caching :: bool
  cc_events :: bool
  cc_use_int_hashes :: bool
  cc_dcp_world_size :: int
  cc_scheduler_block_size :: int
  cc_hash_block_size :: int
  cc_retention_interval :: "int option"

definition validate_prefix_cache_retention_interval :: "int option \<Rightarrow> int \<Rightarrow> kv_cache_group list \<Rightarrow> unit result" where
  "validate_prefix_cache_retention_interval interval sched_block_size groups =
     (case interval of
        None \<Rightarrow> Inr ()
      | Some r \<Rightarrow>
          if \<not> list_ex (\<lambda>g. sliding_window (spec_type (kv_cache_spec g)) \<noteq> None) groups then Inl ValueError
          else if r < 0 \<or> r mod sched_block_size \<noteq> 0 then Inl ValueError
          else Inr ())"

definition coordinator_init :: "coordinator_kind \<Rightarrow> bool \<Rightarrow> coordinator_config \<Rightarrow> coordinator result" where
  "coordinator_init kind caching c =
     eassert (cc_scheduler_block_size c mod cc_hash_block_size c = 0 \<and>
              list_all (\<lambda>g. cc_scheduler_block_size c mod spec_block_size (kv_cache_spec g) = 0) (cc_groups c))
     (ebind (pool_init (cc_num_blocks c) caching (cc_hash_block_size c) (cc_events c) (cc_use_int_hashes c)) (\<lambda>p.
      (let flagged = map int (filter (\<lambda>i. is_eagle_group (cc_groups c ! i)) [0..<length (cc_groups c)]);
           eagle = (if cc_use_eagle c \<and> flagged = [] then map int [0..<length (cc_groups c)] else flagged) in
       ebind (emap (\<lambda>(i, g). get_manager_for_kv_cache_spec (kv_cache_spec g) (cc_max_in_flight_tokens c) (cc_max_model_len c) caching (int i)
                     (cc_scheduler_block_size c) (cc_dcp_world_size c) (cc_zeroing c)) (List.enumerate 0 (cc_groups c))) (\<lambda>managers.
       ebind (validate_prefix_cache_retention_interval (cc_retention_interval c) (cc_scheduler_block_size c) (cc_groups c)) (\<lambda>_.
       Inr \<lparr>co_kind = kind, kv_cache_groups = cc_groups c, scheduler_block_size = cc_scheduler_block_size c, block_pool = p,
            eagle_group_ids = eagle, single_type_managers = managers, retention_interval = cc_retention_interval c,
            co_dcp_world_size = cc_dcp_world_size c, attention_groups = []\<rparr>)))))"

definition unitary_init :: "coordinator_config \<Rightarrow> coordinator result" where
  "unitary_init c =
     ebind (coordinator_init Unitary (cc_caching c) c) (\<lambda>co.
     ebind (py_index (kv_cache_groups co) 0) (\<lambda>g.
     (let bs = (if cc_dcp_world_size c > 1 then spec_block_size (kv_cache_spec g) * cc_dcp_world_size c
                else spec_block_size (kv_cache_spec g)) in
      eassert (\<not> cc_caching c \<or> cc_hash_block_size c = bs)
      (eassert (length (kv_cache_groups co) = 1)
       (Inr (co\<lparr>single_type_managers := map (\<lambda>m. m\<lparr>mgr_use_eagle := 0 \<in> set (eagle_group_ids co)\<rparr>) (single_type_managers co)\<rparr>))))))"

text \<open>One turn of the grouping loop: the group joins the first entry with its specification or opens a new one.\<close>

fun join_group :: "int \<Rightarrow> kv_cache_spec \<Rightarrow> manager_class \<Rightarrow> bool \<Rightarrow> spec_group list \<Rightarrow> spec_group list result" where
  "join_group i spec cls use_eagle [] = Inr [\<lparr>sg_spec = spec, sg_group_ids = [i], sg_manager_cls = cls, sg_use_eagle = use_eagle\<rparr>]"
| "join_group i spec cls use_eagle (g # gs) =
     (if sg_spec g = spec
      then eassert (cls = sg_manager_cls g)
             (Inr (g\<lparr>sg_group_ids := sg_group_ids g @ [i], sg_use_eagle := sg_use_eagle g \<or> use_eagle\<rparr> # gs))
      else ebind (join_group i spec cls use_eagle gs) (\<lambda>gs'. Inr (g # gs')))"

definition verify_and_split_kv_cache_groups :: "coordinator \<Rightarrow> coordinator result" where
  "verify_and_split_kv_cache_groups co =
     ebind (efold (\<lambda>(i, g, m). join_group (int i) (kv_cache_spec g) (get_manager_class (mgr_type m)) (int i \<in> set (eagle_group_ids co)))
              (List.enumerate 0 (zip (kv_cache_groups co) (single_type_managers co))) []) (\<lambda>groups.
     eassert (length groups > 1)
     (let sorted_groups = filter (\<lambda>g. is_full_attention (spec_type (sg_spec g))) groups @
            filter (\<lambda>g. \<not> is_full_attention (spec_type (sg_spec g))) groups;
          eagle_ids = concat (map sg_group_ids (filter sg_use_eagle sorted_groups))
      in Inr (co\<lparr>attention_groups := sorted_groups,
                 single_type_managers := map (\<lambda>(i, m). if int i \<in> set eagle_ids then m\<lparr>mgr_use_eagle := True\<rparr> else m)
                   (List.enumerate 0 (single_type_managers co))\<rparr>)))"

definition hybrid_init :: "coordinator_config \<Rightarrow> coordinator result" where
  "hybrid_init c =
     ebind (coordinator_init Hybrid (cc_caching c) c) (\<lambda>co.
     eassert (list_all (\<lambda>m. mgr_block_size m mod cc_hash_block_size c = 0) (single_type_managers co))
     (eassert (cc_dcp_world_size c > 1 \<longrightarrow> list_all (\<lambda>g. is_full_attention (spec_type (kv_cache_spec g))) (kv_cache_groups co))
      (verify_and_split_kv_cache_groups co)))"

definition get_kv_cache_coordinator :: "coordinator_config \<Rightarrow> coordinator result" where
  "get_kv_cache_coordinator c =
     (if \<not> cc_caching c then coordinator_init NoPrefixCache False c
      else if length (cc_groups c) = 1 then unitary_init c
      else hybrid_init c)"


section \<open>Operations on all groups\<close>

text \<open>A loop over the managers that passes the pool along.\<close>

fun each_manager ::
    "('x \<Rightarrow> st_manager \<Rightarrow> 's \<Rightarrow> (st_manager \<times> 's) result) \<Rightarrow> 'x list \<Rightarrow> st_manager list \<Rightarrow> 's \<Rightarrow> (st_manager list \<times> 's) result" where
  "each_manager f (x # xs) (m # ms) s =
     ebind (f x m s) (\<lambda>(m', s'). ebind (each_manager f xs ms s') (\<lambda>(ms', s''). Inr (m' # ms', s'')))"
| "each_manager f _ ms s = Inr (ms, s)"

definition on_managers ::
    "('x \<Rightarrow> st_manager \<Rightarrow> block_pool \<Rightarrow> (st_manager \<times> block_pool) result) \<Rightarrow> 'x list \<Rightarrow> coordinator \<Rightarrow> coordinator result" where
  "on_managers f xs co =
     ebind (each_manager f xs (single_type_managers co) (block_pool co)) (\<lambda>(ms, p).
     Inr (co\<lparr>single_type_managers := ms, block_pool := p\<rparr>))"

definition is_cross :: "st_manager \<Rightarrow> bool" where
  "is_cross m \<longleftrightarrow> get_manager_class (mgr_type m) = CrossAttentionManager"

definition get_num_blocks_to_allocate ::
    "coordinator \<Rightarrow> string \<Rightarrow> int \<Rightarrow> bref list list \<Rightarrow> int \<Rightarrow> int \<Rightarrow> int \<Rightarrow> bool \<Rightarrow> int result" where
  "get_num_blocks_to_allocate co rid ntokens new_computed_blocks num_encoder_tokens total_computed_tokens num_local_computed_tokens apply_cap =
     efold (\<lambda>(i, m) n.
        ebind (if is_cross m
               then st_get_num_blocks_to_allocate m (block_pool co) rid num_encoder_tokens [] 0 0 apply_cap
               else ebind (py_index new_computed_blocks (int i)) (\<lambda>blocks.
                    st_get_num_blocks_to_allocate m (block_pool co) rid ntokens blocks total_computed_tokens num_local_computed_tokens apply_cap))
          (\<lambda>k. Inr (n + k)))
       (List.enumerate 0 (single_type_managers co)) 0"

definition allocate_new_computed_blocks :: "string \<Rightarrow> bref list list \<Rightarrow> int \<Rightarrow> int \<Rightarrow> coordinator \<Rightarrow> coordinator result" where
  "allocate_new_computed_blocks rid new_computed_blocks num_local_computed_tokens num_external_computed_tokens co =
     (if list_ex (\<lambda>m. dget (num_cached_block m) rid \<noteq> None) (single_type_managers co)
      then eassert (list_all (\<lambda>b. b = []) new_computed_blocks) (Inr co)
      else
        ebind (on_managers (\<lambda>i m p. ebind (py_index new_computed_blocks i) (\<lambda>blocks.
                 add_local_computed_blocks rid blocks num_local_computed_tokens num_external_computed_tokens m p))
                 [0..int (length (single_type_managers co)) - 1] co) (\<lambda>co1.
        if num_external_computed_tokens > 0
        then on_managers (\<lambda>_ m p. allocate_external_computed_blocks rid num_local_computed_tokens num_external_computed_tokens m p)
               [0..int (length (single_type_managers co)) - 1] co1
        else Inr co1))"

text \<open>\<^verbatim>\<open>allocate_new_blocks\<close> collects the new blocks of each group.\<close>

fun allocate_each ::
    "string \<Rightarrow> int \<Rightarrow> int \<Rightarrow> st_manager list \<Rightarrow> block_pool \<Rightarrow> (bref list list \<times> st_manager list \<times> block_pool) result" where
  "allocate_each rid ntokens num_encoder_tokens [] p = Inr ([], [], p)"
| "allocate_each rid ntokens num_encoder_tokens (m # ms) p =
     ebind (st_allocate_new_blocks rid (if is_cross m then num_encoder_tokens else ntokens) m p) (\<lambda>(new, m', p1).
     ebind (allocate_each rid ntokens num_encoder_tokens ms p1) (\<lambda>(news, ms', p2). Inr (new # news, m' # ms', p2)))"

definition allocate_new_blocks :: "string \<Rightarrow> int \<Rightarrow> int \<Rightarrow> coordinator \<Rightarrow> (bref list list \<times> coordinator) result" where
  "allocate_new_blocks rid ntokens num_encoder_tokens co =
     ebind (allocate_each rid ntokens num_encoder_tokens (single_type_managers co) (block_pool co)) (\<lambda>(news, ms, p).
     Inr (news, co\<lparr>single_type_managers := ms, block_pool := p\<rparr>))"

text \<open>How many tokens each manager caches; a hybrid coordinator rounds down and adds the look-ahead block of EAGLE groups.\<close>

definition tokens_to_cache :: "coordinator \<Rightarrow> int \<Rightarrow> st_manager \<Rightarrow> int" where
  "tokens_to_cache co n m =
     (if co_kind co = Hybrid then
        (let aligned = n div scheduler_block_size co * scheduler_block_size co
         in if mgr_use_eagle m \<and> aligned > 0 then min n (aligned + mgr_block_size m) else aligned)
      else n)"

fun cache_each ::
    "hash_env \<Rightarrow> int option \<Rightarrow> (st_manager \<Rightarrow> int) \<Rightarrow> st_manager list \<Rightarrow> request \<Rightarrow> block_pool \<Rightarrow> (request \<times> st_manager list \<times> block_pool) result" where
  "cache_each env retention count [] r p = Inr (r, [], p)"
| "cache_each env retention count (m # ms) r p =
     ebind (st_cache_blocks env r (count m) retention m p) (\<lambda>(r1, m', p1).
     ebind (cache_each env retention count ms r1 p1) (\<lambda>(r2, ms', p2). Inr (r2, m' # ms', p2)))"

definition cache_blocks :: "hash_env \<Rightarrow> request \<Rightarrow> int \<Rightarrow> coordinator \<Rightarrow> (request \<times> coordinator) result" where
  "cache_blocks env r n co =
     ebind (cache_each env (retention_interval co) (tokens_to_cache co n) (single_type_managers co) r (block_pool co)) (\<lambda>(r', ms, p).
     Inr (r', co\<lparr>single_type_managers := ms, block_pool := p\<rparr>))"

definition co_free :: "string \<Rightarrow> coordinator \<Rightarrow> coordinator result" where
  "co_free rid co = on_managers (\<lambda>_ m p. st_free rid m p) (single_type_managers co) co"

definition co_pop_blocks_for_free :: "string \<Rightarrow> coordinator \<Rightarrow> bref list \<times> coordinator" where
  "co_pop_blocks_for_free rid co =
     (concat (map (\<lambda>m. fst (st_pop_blocks_for_free rid m)) (single_type_managers co)),
      co\<lparr>single_type_managers := map (\<lambda>m. snd (st_pop_blocks_for_free rid m)) (single_type_managers co)\<rparr>)"

definition co_remove_skipped_blocks :: "string \<Rightarrow> int \<Rightarrow> int option \<Rightarrow> coordinator \<Rightarrow> coordinator result" where
  "co_remove_skipped_blocks rid processed prompt_tokens co =
     on_managers (\<lambda>_ m p. st_remove_skipped_blocks rid processed prompt_tokens m p) (single_type_managers co) co"

definition get_blocks :: "coordinator \<Rightarrow> string \<Rightarrow> bref list list" where
  "get_blocks co rid = map (\<lambda>m. blocks_of m rid) (single_type_managers co)"

definition co_get_num_common_prefix_blocks :: "string \<Rightarrow> coordinator \<Rightarrow> int list \<times> coordinator" where
  "co_get_num_common_prefix_blocks rid co =
     (if co_kind co = NoPrefixCache then (replicate (length (single_type_managers co)) 0, co)
      else
        (map (\<lambda>m. fst (st_get_num_common_prefix_blocks rid m (block_pool co))) (single_type_managers co),
         co\<lparr>single_type_managers := map (\<lambda>m. snd (st_get_num_common_prefix_blocks rid m (block_pool co))) (single_type_managers co)\<rparr>))"


section \<open>The longest common hit\<close>

text \<open>The state of the search: the candidate, the longest hit seen, blocks and length per group, and the verified EAGLE groups.\<close>

record hit_search =
  hs_current :: int
  hs_longest :: int
  hs_blocks :: "bref list option list"
  hs_lengths :: "int list"
  hs_verified :: "nat list"

fun store_hits :: "int list \<Rightarrow> bref list list \<Rightarrow> int \<Rightarrow> hit_search \<Rightarrow> hit_search" where
  "store_hits (g # gs) (b # bs) len s =
     store_hits gs bs len (s\<lparr>hs_blocks := (hs_blocks s)[nat g := Some b], hs_lengths := (hs_lengths s)[nat g := len]\<rparr>)"
| "store_hits _ _ len s = s"

text \<open>One attention group of a pass.\<close>

definition hit_turn ::
    "coordinator \<Rightarrow> bytes list \<Rightarrow> int \<Rightarrow> nat \<times> spec_group \<Rightarrow> hit_search \<Rightarrow> hit_search result" where
  "hit_turn co hashes max_cache_hit_length = (\<lambda>(idx, g) s.
     ebind (py_index (sg_group_ids g) 0) (\<lambda>first_group_id.
     ebind (py_index (single_type_managers co) first_group_id) (\<lambda>mgr.
     ebind (py_index (hs_blocks s) first_group_id) (\<lambda>cached_blocks.
     if is_full_attention (spec_type (sg_spec g)) \<and> cached_blocks \<noteq> None
     then Inr (s\<lparr>hs_current := min (hs_current s) (hs_lengths s ! nat first_group_id)\<rparr>)
     else
       (let drop_eagle_block = (sg_use_eagle g \<and> idx \<notin> set (hs_verified s));
            max_length = (if drop_eagle_block then min (hs_current s + mgr_block_size mgr) max_cache_hit_length else hs_current s) in
        ebind (st_find_longest_cache_hit (sg_manager_cls g) hashes max_length (sg_group_ids g) (block_pool co) (sg_spec g) drop_eagle_block
                 (scheduler_block_size co) (if is_full_attention (spec_type (sg_spec g)) then co_dcp_world_size co else 1))
          (\<lambda>(hit_blocks, new_hit_length).
          (let verified = (if drop_eagle_block then set_add idx (hs_verified s)
                           else if new_hit_length < hs_current s then [] else hs_verified s);
               s1 = store_hits (sg_group_ids g) hit_blocks new_hit_length (s\<lparr>hs_current := new_hit_length, hs_verified := verified\<rparr>)
           in Inr (s1\<lparr>hs_longest := max (hs_longest s1) (hs_current s1)\<rparr>))))))))"

definition hit_pass :: "coordinator \<Rightarrow> bytes list \<Rightarrow> int \<Rightarrow> hit_search \<Rightarrow> hit_search result" where
  "hit_pass co hashes max_cache_hit_length s =
     efold (hit_turn co hashes max_cache_hit_length) (List.enumerate 0 (attention_groups co)) s"

text \<open>
  The loop \<^verbatim>\<open>while True\<close> over passes: the candidate at its start is \<open>hs_current\<close>. It is left with \<open>None\<close> if it never ends.
\<close>

partial_function (option) hit_loop ::
    "coordinator \<Rightarrow> bytes list \<Rightarrow> int \<Rightarrow> bool \<Rightarrow> hit_search \<Rightarrow> (int \<times> hit_search) result option" where
  "hit_loop co hashes max_len simple s =
     (case hit_pass co hashes max_len s of
        Inl e \<Rightarrow> Some (Inl e)
      | Inr s1 \<Rightarrow>
          if hs_current s1 \<ge> hs_current s then Some (Inr (hs_current s, s1))
          else if simple then Some (Inr (hs_current s1, s1))
          else hit_loop co hashes max_len simple s1)"

definition is_simple_hybrid :: "coordinator \<Rightarrow> bool" where
  "is_simple_hybrid co \<longleftrightarrow> length (attention_groups co) = 2 \<and> is_full_attention (spec_type (sg_spec (attention_groups co ! 0)))"

text \<open>The blocks of the first, full-attention entry are cut to the final length.\<close>

definition truncate_full :: "coordinator \<Rightarrow> int \<Rightarrow> bref list option list \<Rightarrow> bref list option list result" where
  "truncate_full co hit_length blocks =
     ebind (py_index (attention_groups co) 0) (\<lambda>g.
     if is_full_attention (spec_type (sg_spec g)) then
       ebind (py_index (sg_group_ids g) 0) (\<lambda>first_group_id.
       ebind (py_index (single_type_managers co) first_group_id) (\<lambda>mgr.
       Inr (fold (\<lambda>gid bl. bl[nat gid := map_option (\<lambda>b. py_slice_to b (cdiv hit_length (mgr_block_size mgr))) (bl ! nat gid)])
              (sg_group_ids g) blocks)))
     else Inr blocks)"

definition hybrid_find_longest_cache_hit :: "coordinator \<Rightarrow> bytes list \<Rightarrow> int \<Rightarrow> (bref list list \<times> int \<times> int) result option" where
  "hybrid_find_longest_cache_hit co hashes max_len =
     Option.bind
       (hit_loop co hashes max_len (is_simple_hybrid co)
          \<lparr>hs_current = max_len, hs_longest = 0, hs_blocks = replicate (length (kv_cache_groups co)) None,
           hs_lengths = replicate (length (kv_cache_groups co)) 0, hs_verified = []\<rparr>)
       (\<lambda>r. Some (ebind r (\<lambda>(hit_length, s).
          ebind (truncate_full co hit_length (hs_blocks s)) (\<lambda>blocks.
          Inr (map (\<lambda>b. case b of None \<Rightarrow> [] | Some l \<Rightarrow> l) blocks, hit_length, hs_longest s - hit_length)))))"

text \<open>
  The lookup of each group on its own. The block size of a full-attention group is not scaled here: the code does not pass
  \<^verbatim>\<open>dcp_world_size\<close>.
\<close>

definition find_longest_cache_hit_per_group :: "coordinator \<Rightarrow> bytes list \<Rightarrow> int \<Rightarrow> (bref list list \<times> int list) result" where
  "find_longest_cache_hit_per_group co hashes max_len =
     efold (\<lambda>g (hit_blocks, hit_lengths).
        ebind (st_find_longest_cache_hit (sg_manager_cls g) hashes max_len (sg_group_ids g) (block_pool co) (sg_spec g) (sg_use_eagle g)
                 (scheduler_block_size co) 1) (\<lambda>(blocks, group_hit).
        Inr (fold (\<lambda>(gid, blks) bl. bl[nat gid := blks]) (zip (sg_group_ids g) blocks) hit_blocks,
             fold (\<lambda>(gid, blks) ls. ls[nat gid := group_hit]) (zip (sg_group_ids g) blocks) hit_lengths)))
       (attention_groups co)
       (replicate (length (kv_cache_groups co)) [], replicate (length (kv_cache_groups co)) 0)"

definition find_longest_cache_hit :: "coordinator \<Rightarrow> bytes list \<Rightarrow> int \<Rightarrow> (bref list list \<times> int \<times> int) result option" where
  "find_longest_cache_hit co hashes max_len =
     (case co_kind co of
        NoPrefixCache \<Rightarrow> Some (Inr (map (\<lambda>_. []) (single_type_managers co), 0, 0))
      | Unitary \<Rightarrow>
          Some (ebind (py_index (kv_cache_groups co) 0) (\<lambda>g.
            ebind (py_index (single_type_managers co) 0) (\<lambda>m.
            ebind (st_find_longest_cache_hit (get_manager_class (mgr_type m)) hashes max_len [0] (block_pool co) (kv_cache_spec g)
                     (0 \<in> set (eagle_group_ids co)) (mgr_block_size m) (co_dcp_world_size co))
              (\<lambda>(blocks, hit_length). Inr (blocks, hit_length, 0)))))
      | Hybrid \<Rightarrow> hybrid_find_longest_cache_hit co hashes max_len)"

end
