(* ===== verification/KV_Manager.thy ===== *)
theory KV_Manager
  imports Coordinator
begin

text \<open>
  \<^verbatim>\<open>KVCacheManager\<close> of \<^verbatim>\<open>vllm/v1/core/kv_cache_manager.py\<close>: what the scheduler calls to look up, allocate, cache and free the KV-cache
  blocks of requests. Statistics, and the annotation of events with the kind of the group, only observe and are left out.
\<close>

section \<open>State\<close>

text \<open>
  A \<^verbatim>\<open>KVCacheBlocks\<close> object is \<open>None\<close> when it is the manager's shared empty object and \<open>Some\<close> otherwise: \<^verbatim>\<open>allocate_slots\<close> compares the
  object's identity.
\<close>

type_synonym kv_cache_blocks = "bref list list option"

record kv_manager =
  km_max_model_len :: int
  km_caching :: bool
  km_events :: bool
  coordinator :: coordinator
  watermark_blocks :: int
  partial_tail_pins :: "(string, bref list) dict"

definition km_init :: "coordinator_config \<Rightarrow> rat \<Rightarrow> kv_manager result" where
  "km_init c watermark =
     ebind (get_kv_cache_coordinator c) (\<lambda>co.
     eassert (watermark \<ge> 0)
     (Inr \<lparr>km_max_model_len = cc_max_model_len c, km_caching = cc_caching c, km_events = cc_events c, coordinator = co,
           watermark_blocks = \<lfloor>watermark * of_int (cc_num_blocks c)\<rfloor>, partial_tail_pins = []\<rparr>))"

definition empty_blocks :: "kv_manager \<Rightarrow> bref list list" where
  "empty_blocks km = map (\<lambda>_. []) (kv_cache_groups (coordinator km))"

definition kv_blocks :: "kv_manager \<Rightarrow> kv_cache_blocks \<Rightarrow> bref list list" where
  "kv_blocks km b = (case b of None \<Rightarrow> empty_blocks km | Some l \<Rightarrow> l)"

definition create_kv_cache_blocks :: "bref list list \<Rightarrow> kv_cache_blocks" where
  "create_kv_cache_blocks blocks = (if list_ex (\<lambda>b. b \<noteq> []) blocks then Some blocks else None)"

definition km_usage :: "kv_manager \<Rightarrow> rat" where
  "km_usage km = get_usage (block_pool (coordinator km))"


section \<open>Views of blocks\<close>

definition add_blocks :: "bref list list \<Rightarrow> bref list list \<Rightarrow> bref list list" where
  "add_blocks a b = map2 (@) a b"

definition get_block_ids :: "bool \<Rightarrow> bref list list \<Rightarrow> int list list option" where
  "get_block_ids allow_none blocks =
     (if allow_none \<and> list_all (\<lambda>g. g = []) blocks then None else Some (map (map block_id) blocks))"

definition get_unhashed_block_ids :: "block_pool \<Rightarrow> bref list list \<Rightarrow> int list result" where
  "get_unhashed_block_ids p blocks =
     eassert (length blocks = 1) (Inr (map block_id (filter (\<lambda>b. block_hash (heap p b) = None) (blocks ! 0))))"

definition get_unhashed_block_ids_all_groups :: "block_pool \<Rightarrow> bref list list \<Rightarrow> int list list" where
  "get_unhashed_block_ids_all_groups p blocks =
     map (\<lambda>g. map block_id (filter (\<lambda>b. block_hash (heap p b) = None \<and> \<not> is_null (heap p b)) g)) blocks"


section \<open>Looking up\<close>

definition prefix_cache_lookup_enabled :: "kv_manager \<Rightarrow> request \<Rightarrow> bool" where
  "prefix_cache_lookup_enabled km r \<longleftrightarrow> km_caching km \<and> \<not> skip_reading_prefix_cache r"

text \<open>
  \<open>report_full\<close> is \<^verbatim>\<open>kv_cache_report_mode == "full"\<close>. The result is \<open>None\<close> when the search of the coordinator does not end.
\<close>

definition get_computed_blocks ::
    "hash_env \<Rightarrow> bool \<Rightarrow> request \<Rightarrow> kv_manager \<Rightarrow> (kv_cache_blocks \<times> int \<times> int \<times> request \<times> kv_manager) result option" where
  "get_computed_blocks env report_full r km =
     (if \<not> prefix_cache_lookup_enabled km r then Some (Inr (None, 0, 0, r, km))
      else
        Option.bind (find_longest_cache_hit (coordinator km) (block_hashes r) (num_tokens r - 1)) (\<lambda>res.
        Some (ebind res (\<lambda>(computed, num_new_computed_tokens, num_uncached).
          ebind (if num_new_computed_tokens > 0 \<and> km_events km \<and> report_full
                 then efold (\<lambda>(i, blocks) (r, p).
                        if blocks \<noteq> [] then
                          ebind (py_index (kv_cache_groups (coordinator km)) (int i)) (\<lambda>g.
                          emit_cached_block_events env r (int (length blocks)) (spec_block_size (kv_cache_spec g)) (int i) p)
                        else Inr (r, p))
                      (List.enumerate 0 computed) (r, block_pool (coordinator km))
                 else Inr (r, block_pool (coordinator km))) (\<lambda>(r', p).
          Inr (create_kv_cache_blocks computed, num_new_computed_tokens,
               if num_uncached \<noteq> 0 then num_new_computed_tokens + num_uncached else 0,
               r', km\<lparr>coordinator := (coordinator km)\<lparr>block_pool := p\<rparr>\<rparr>))))))"

text \<open>
  Per-group hits are used for models with Mamba layers only; for the others this is \<^verbatim>\<open>get_computed_blocks\<close>, and the hit has not diverged.
\<close>

definition get_computed_blocks_for_connector ::
    "hash_env \<Rightarrow> bool \<Rightarrow> request \<Rightarrow> kv_manager \<Rightarrow> (kv_cache_blocks \<times> int \<times> int \<times> bool \<times> request \<times> kv_manager) result option" where
  "get_computed_blocks_for_connector env report_full r km =
     map_option (\<lambda>res. ebind res (\<lambda>(blocks, n, boundary, r', km'). Inr (blocks, n, boundary, False, r', km')))
       (get_computed_blocks env report_full r km)"


section \<open>Allocating\<close>

record slot_args =
  sa_new_tokens :: int
  sa_new_computed_tokens :: int
  sa_new_computed_blocks :: kv_cache_blocks
  sa_lookahead_tokens :: int
  sa_external_computed_tokens :: int
  sa_delay_cache_blocks :: bool
  sa_encoder_tokens :: int
  sa_full_sequence_must_fit :: bool
  sa_reserved_blocks :: int
  sa_has_scheduled_reqs :: bool

definition local_computed :: "request \<Rightarrow> slot_args \<Rightarrow> int" where
  "local_computed r a = num_computed_tokens r + sa_new_computed_tokens a"

definition total_computed :: "kv_manager \<Rightarrow> request \<Rightarrow> slot_args \<Rightarrow> int" where
  "total_computed km r a = min (local_computed r a + sa_external_computed_tokens a) (km_max_model_len km)"

definition tokens_need_slot :: "kv_manager \<Rightarrow> request \<Rightarrow> slot_args \<Rightarrow> int" where
  "tokens_need_slot km r a = min (total_computed km r a + sa_new_tokens a + sa_lookahead_tokens a) (km_max_model_len km)"

definition watermark :: "kv_manager \<Rightarrow> request \<Rightarrow> slot_args \<Rightarrow> int" where
  "watermark km r a = (if sa_has_scheduled_reqs a \<and> status r \<in> {WAITING, PREEMPTED} then watermark_blocks km else 0)"

text \<open>The admission gate: whether the whole sequence fits.\<close>

definition full_sequence_fits :: "request \<Rightarrow> slot_args \<Rightarrow> kv_manager \<Rightarrow> bool result" where
  "full_sequence_fits r a km =
     (if sa_full_sequence_must_fit a then
        ebind (get_num_blocks_to_allocate (coordinator km) (request_id r) (min (num_tokens r) (km_max_model_len km))
                 (kv_blocks km (sa_new_computed_blocks a)) (sa_encoder_tokens a) (total_computed km r a) (local_computed r a) True) (\<lambda>n.
        Inr (n + watermark km r a \<le> get_num_free_blocks (block_pool (coordinator km))))
      else Inr True)"

definition allocate_slots ::
    "hash_env \<Rightarrow> request \<Rightarrow> slot_args \<Rightarrow> kv_manager \<Rightarrow> (kv_cache_blocks option \<times> request \<times> kv_manager) result" where
  "allocate_slots env r a km =
     (if sa_new_tokens a = 0 \<and> sa_external_computed_tokens a = 0 then Inl ValueError
      else
        (let rid = request_id r;
             blocks = kv_blocks km (sa_new_computed_blocks a) in
         ebind (full_sequence_fits r a km) (\<lambda>fits.
         if \<not> fits then Inr (None, r, km)
         else
           ebind (co_remove_skipped_blocks rid (max 0 (total_computed km r a - num_in_flight_tokens r)) (Some (num_prompt_tokens r))
                    (coordinator km)) (\<lambda>co1.
           (let km1 = km\<lparr>coordinator := co1\<rparr> in
            ebind (get_num_blocks_to_allocate co1 rid (tokens_need_slot km r a) blocks (sa_encoder_tokens a)
                     (local_computed r a + sa_external_computed_tokens a) (local_computed r a) False) (\<lambda>n.
            if n + watermark km r a > get_num_free_blocks (block_pool co1) - sa_reserved_blocks a then Inr (None, r, km1)
            else
              ebind (if sa_new_computed_blocks a \<noteq> None \<or> sa_external_computed_tokens a > 0
                     then allocate_new_computed_blocks rid blocks (local_computed r a) (sa_external_computed_tokens a) co1
                     else Inr co1) (\<lambda>co2.
              ebind (allocate_new_blocks rid (tokens_need_slot km r a) (sa_encoder_tokens a) co2) (\<lambda>(new_blocks, co3).
              if \<not> km_caching km \<or> sa_delay_cache_blocks a
              then Inr (Some (create_kv_cache_blocks new_blocks), r, km\<lparr>coordinator := co3\<rparr>)
              else
                ebind (cache_blocks env r (min (total_computed km r a + sa_new_tokens a) (num_tokens r)) co3) (\<lambda>(r', co4).
                Inr (Some (create_kv_cache_blocks new_blocks), r', km\<lparr>coordinator := co4\<rparr>))))))))))"


section \<open>Releasing and the rest\<close>

definition km_free :: "request \<Rightarrow> kv_manager \<Rightarrow> kv_manager result" where
  "km_free r km =
     (let pins = dget_default (partial_tail_pins km) (request_id r) [];
          km1 = km\<lparr>partial_tail_pins := ddel (request_id r) (partial_tail_pins km)\<rparr> in
      ebind (if pins \<noteq> [] then free_blocks pins (block_pool (coordinator km)) else Inr (block_pool (coordinator km))) (\<lambda>p.
      ebind (co_free (request_id r) ((coordinator km)\<lparr>block_pool := p\<rparr>)) (\<lambda>co.
      Inr (km1\<lparr>coordinator := co\<rparr>))))"

definition km_remove_skipped_blocks :: "string \<Rightarrow> int \<Rightarrow> int option \<Rightarrow> kv_manager \<Rightarrow> kv_manager result" where
  "km_remove_skipped_blocks rid processed prompt_tokens km =
     ebind (co_remove_skipped_blocks rid processed prompt_tokens (coordinator km)) (\<lambda>co. Inr (km\<lparr>coordinator := co\<rparr>))"

definition km_pop_blocks_for_free :: "request \<Rightarrow> kv_manager \<Rightarrow> bref list \<times> kv_manager" where
  "km_pop_blocks_for_free r km =
     (case co_pop_blocks_for_free (request_id r) (coordinator km) of (blocks, co) \<Rightarrow>
        (dget_default (partial_tail_pins km) (request_id r) [] @ blocks,
         km\<lparr>coordinator := co, partial_tail_pins := ddel (request_id r) (partial_tail_pins km)\<rparr>))"

definition km_evict_blocks :: "int list \<Rightarrow> kv_manager \<Rightarrow> kv_manager result" where
  "km_evict_blocks ids km =
     ebind (evict_blocks ids (block_pool (coordinator km))) (\<lambda>p. Inr (km\<lparr>coordinator := (coordinator km)\<lparr>block_pool := p\<rparr>\<rparr>))"

definition km_reset_prefix_cache :: "kv_manager \<Rightarrow> bool \<times> kv_manager" where
  "km_reset_prefix_cache km =
     (case reset_prefix_cache (block_pool (coordinator km)) of (ok, p) \<Rightarrow> (ok, km\<lparr>coordinator := (coordinator km)\<lparr>block_pool := p\<rparr>\<rparr>))"

definition km_get_num_common_prefix_blocks :: "string \<Rightarrow> kv_manager \<Rightarrow> int list \<times> kv_manager" where
  "km_get_num_common_prefix_blocks rid km =
     (case co_get_num_common_prefix_blocks rid (coordinator km) of (ns, co) \<Rightarrow> (ns, km\<lparr>coordinator := co\<rparr>))"

definition km_take_events :: "kv_manager \<Rightarrow> kv_event list \<times> kv_manager" where
  "km_take_events km =
     (case take_events (block_pool (coordinator km)) of (evs, p) \<Rightarrow> (evs, km\<lparr>coordinator := (coordinator km)\<lparr>block_pool := p\<rparr>\<rparr>))"

definition km_get_blocks :: "kv_manager \<Rightarrow> string \<Rightarrow> bref list list" where
  "km_get_blocks km rid = kv_blocks km (create_kv_cache_blocks (get_blocks (coordinator km) rid))"

definition get_block_ids_for_computed_tokens :: "kv_manager \<Rightarrow> string \<Rightarrow> int \<Rightarrow> int list list" where
  "get_block_ids_for_computed_tokens km rid ncomputed =
     map2 (\<lambda>g ids. if spec_type (kv_cache_spec g) = CrossAttentionSpec then ids
                   else py_slice_to ids (cdiv ncomputed (spec_block_size (kv_cache_spec g))))
       (kv_cache_groups (coordinator km)) (map (map block_id) (km_get_blocks km rid))"

definition estimate_cached_tokens :: "request \<Rightarrow> kv_manager \<Rightarrow> int" where
  "estimate_cached_tokens r km =
     (let p = block_pool (coordinator km);
          per_group = map (\<lambda>(g, blocks). fold (\<lambda>b n. max n (case block_hash_num_tokens (heap p b) of None \<Rightarrow> 0 | Some t \<Rightarrow> t)) blocks 0)
            (filter (\<lambda>(g, _). spec_type (kv_cache_spec g) \<noteq> CrossAttentionSpec)
               (zip (kv_cache_groups (coordinator km)) (km_get_blocks km (request_id r))))
      in case per_group of [] \<Rightarrow> 0 | n # ns \<Rightarrow> fold min ns n)"

definition km_cache_blocks :: "hash_env \<Rightarrow> request \<Rightarrow> int \<Rightarrow> kv_manager \<Rightarrow> (request \<times> kv_manager) result" where
  "km_cache_blocks env r n km =
     (if km_caching km then ebind (cache_blocks env r n (coordinator km)) (\<lambda>(r', co). Inr (r', km\<lparr>coordinator := co\<rparr>)) else Inr (r, km))"

definition truncate_computed_blocks :: "kv_cache_blocks \<Rightarrow> int \<Rightarrow> kv_manager \<Rightarrow> kv_cache_blocks result" where
  "truncate_computed_blocks blocks ncomputed km =
     (let ms = single_type_managers (coordinator km); bl = kv_blocks km blocks in
      ebind (emap (\<lambda>(b, m). eassert (ncomputed mod mgr_block_size m = 0)
               (eassert (ncomputed div mgr_block_size m \<le> int (length b)) (Inr (py_slice_to b (ncomputed div mgr_block_size m))))) (zip bl ms))
        (\<lambda>t. if length bl \<noteq> length ms then Inl ValueError else Inr (create_kv_cache_blocks t)))"

definition take_new_block_ids :: "kv_manager \<Rightarrow> int list \<times> kv_manager" where
  "take_new_block_ids km =
     (let ms = single_type_managers (coordinator km)
      in (concat (map (\<lambda>m. fst (st_take_new_block_ids m)) ms),
          km\<lparr>coordinator := (coordinator km)\<lparr>single_type_managers := map (\<lambda>m. snd (st_take_new_block_ids m)) ms\<rparr>\<rparr>))"

definition get_zeroing_block_ids_in_range :: "string \<Rightarrow> int \<Rightarrow> int \<Rightarrow> kv_manager \<Rightarrow> int list \<times> kv_manager" where
  "get_zeroing_block_ids_in_range rid start_token end_token km =
     (let ms = map (\<lambda>m. if records_new_block_ids m then with_entry rid m else m) (single_type_managers (coordinator km))
      in (concat (map (\<lambda>m. if records_new_block_ids m
            then map block_id (py_slice (blocks_of m rid) (start_token div mgr_block_size m) (cdiv end_token (mgr_block_size m))) else []) ms),
          km\<lparr>coordinator := (coordinator km)\<lparr>single_type_managers := ms\<rparr>\<rparr>))"

definition record_blocks_for_zeroing :: "string \<Rightarrow> int \<Rightarrow> kv_manager \<Rightarrow> kv_manager result" where
  "record_blocks_for_zeroing rid start_token km =
     ebind (emap (\<lambda>m. if records_new_block_ids m
              then eassert (start_token mod mgr_block_size m = 0)
                     (let m1 = with_entry rid m in
                      Inr (m1\<lparr>new_block_ids := new_block_ids m1 @ map block_id (py_slice_from (blocks_of m1 rid) (start_token div mgr_block_size m))\<rparr>))
              else Inr m) (single_type_managers (coordinator km))) (\<lambda>ms.
     Inr (km\<lparr>coordinator := (coordinator km)\<lparr>single_type_managers := ms\<rparr>\<rparr>))"

text \<open>The pending copies as pairs of ids, and the blocks retained for them, which the caller has to free.\<close>

definition take_kv_cache_block_copies :: "kv_manager \<Rightarrow> (int \<times> int) list \<times> bref list \<times> kv_manager" where
  "take_kv_cache_block_copies km =
     (let ms = single_type_managers (coordinator km);
          pending = concat (map (\<lambda>m. fst (take_pending_cow_copies m)) ms)
      in (map (\<lambda>(s, c). (block_id s, block_id c)) pending, concat (map (\<lambda>(s, c). [s, c]) pending),
          km\<lparr>coordinator := (coordinator km)\<lparr>single_type_managers := map (\<lambda>m. snd (take_pending_cow_copies m)) ms\<rparr>\<rparr>))"

end
