(* ===== verification/Manager_Invariant.thy ===== *)
theory Manager_Invariant
  imports KV_Manager
begin

text \<open>
  What the operations of a single-type manager keep: every reference a block has is accounted for by a request's table, a pending
  copy, or another holder. The lemmas also count the free blocks an operation consumes.
\<close>

section \<open>References held by a manager\<close>

definition table_refs :: "st_manager \<Rightarrow> bref \<Rightarrow> int" where
  "table_refs m b = (\<Sum>(rid, bs) \<leftarrow> req_to_blocks m. int (count_list bs b))"

definition cow_refs :: "st_manager \<Rightarrow> bref \<Rightarrow> int" where
  "cow_refs m b = (\<Sum>(s, c) \<leftarrow> pending_cow_copies m. int (count_list [s, c] b))"

definition mgr_refs :: "st_manager \<Rightarrow> bref \<Rightarrow> int" where
  "mgr_refs m b = table_refs m b + cow_refs m b"

definition mgr_config :: "st_manager \<Rightarrow> kv_cache_spec \<times> int \<times> int \<times> bool \<times> int option \<times> bool \<times> int \<times> bool" where
  "mgr_config m = (mgr_spec m, mgr_scheduler_block_size m, mgr_block_size m, mgr_caching m, mgr_admission_cap m, records_new_block_ids m,
     mgr_group_id m, mgr_use_eagle m)"

lemma mgr_configD:
  assumes "mgr_config m' = mgr_config m"
  shows "mgr_spec m' = mgr_spec m" "mgr_block_size m' = mgr_block_size m" "mgr_caching m' = mgr_caching m"
    "records_new_block_ids m' = records_new_block_ids m" "mgr_use_eagle m' = mgr_use_eagle m" "is_cross m' = is_cross m"
  using assms by (simp_all add: mgr_config_def is_cross_def)

text \<open>The window or chunk of a specification is not empty.\<close>

fun spec_ok :: "spec_type \<Rightarrow> bool" where
  "spec_ok (SlidingWindowSpec w) \<longleftrightarrow> 0 < w"
| "spec_ok (SlidingWindowMLASpec w) \<longleftrightarrow> 0 < w"
| "spec_ok (ChunkedLocalAttentionSpec c) \<longleftrightarrow> 0 < c"
| "spec_ok _ \<longleftrightarrow> True"

lemma skipped_bounds: "spec_ok s \<Longrightarrow> 0 \<le> n \<Longrightarrow> 0 \<le> get_num_skipped_tokens s n \<and> get_num_skipped_tokens s n \<le> n"
proof (cases s)
  case (ChunkedLocalAttentionSpec c)
  assume "spec_ok s" "0 \<le> n"
  then have "0 \<le> n mod c" "n mod c \<le> n" using ChunkedLocalAttentionSpec by (simp_all add: zmod_le_nonneg_dividend)
  then show ?thesis using ChunkedLocalAttentionSpec minus_mod_eq_div_mult [of n c] by simp
qed auto

definition st_ok :: "block_pool \<Rightarrow> st_manager \<Rightarrow> bool" where
  "st_ok p m \<longleftrightarrow> 0 < mgr_block_size m \<and> spec_ok (mgr_type m) \<and> distinct (dkeys (req_to_blocks m)) \<and>
     (\<forall>rid. set (blocks_of m rid) \<subseteq> insert (Blk 0) (real_blocks p)) \<and>
     (\<forall>(s, c) \<in> set (pending_cow_copies m). s \<in> real_blocks p \<and> c \<in> real_blocks p) \<and>
     (\<forall>rid i s. dget (partial_hit_reqs m) rid = Some (i, s) \<longrightarrow>
        0 \<le> i \<and> i < int (length (blocks_of m rid)) \<and> blocks_of m rid ! nat i = s \<and> s \<in> real_blocks p)"

lemma st_okD:
  assumes "st_ok p m"
  shows "0 < mgr_block_size m" "spec_ok (mgr_type m)" "distinct (dkeys (req_to_blocks m))" "set (blocks_of m rid) \<subseteq> insert (Blk 0) (real_blocks p)"
    "dget (partial_hit_reqs m) rid = Some (i, s) \<Longrightarrow>
       0 \<le> i \<and> i < int (length (blocks_of m rid)) \<and> blocks_of m rid ! nat i = s \<and> s \<in> real_blocks p"
  using assms by (auto simp: st_ok_def)

lemma st_ok_config: "pool_config q = pool_config p \<Longrightarrow> st_ok q m = st_ok p m"
  using config_eqs(5) [of q p] by (simp add: st_ok_def)

text \<open>The sum of a count over a table, when an entry is set, deleted or only looked at.\<close>

lemma dict_sum_set:
  fixes f :: "'v \<Rightarrow> int"
  shows "distinct (dkeys d) \<Longrightarrow> (\<Sum>(r, l) \<leftarrow> dset k v d. f l) = (\<Sum>(r, l) \<leftarrow> d. f l) + f v - (case dget d k of None \<Rightarrow> 0 | Some w \<Rightarrow> f w)"
proof (induction d)
  case (Cons x d)
  obtain r l where [simp]: "x = (r, l)" by (cases x)
  show ?case
  proof (cases "r = k")
    case True
    then show ?thesis using Cons.prems by simp
  next
    case False
    then show ?thesis using Cons by simp
  qed
qed simp

lemma dict_sum_del:
  fixes f :: "'v \<Rightarrow> int"
  shows "distinct (dkeys d) \<Longrightarrow> (\<Sum>(r, l) \<leftarrow> ddel k d. f l) = (\<Sum>(r, l) \<leftarrow> d. f l) - (case dget d k of None \<Rightarrow> 0 | Some w \<Rightarrow> f w)"
proof (induction d)
  case (Cons x d)
  obtain r l where [simp]: "x = (r, l)" by (cases x)
  show ?case
  proof (cases "r = k")
    case True
    then have "ddel k d = d" using Cons.prems by simp
    then show ?thesis using True by simp
  next
    case False
    then show ?thesis using Cons by simp
  qed
qed simp

lemma dict_sum_nonneg: "(\<And>l. (0 :: int) \<le> f l) \<Longrightarrow> 0 \<le> (\<Sum>(r, l) \<leftarrow> d. f l)"
  by (induction d) auto

lemma dict_sum_ge: "(\<And>l. (0 :: int) \<le> f l) \<Longrightarrow> (case dget d k of None \<Rightarrow> 0 | Some w \<Rightarrow> f w) \<le> (\<Sum>(r, l) \<leftarrow> d. f l)"
proof (induction d)
  case (Cons x d)
  obtain r l where [simp]: "x = (r, l)" by (cases x)
  show ?case using Cons.IH [OF Cons.prems] Cons.prems [of l] dict_sum_nonneg [of f d, OF Cons.prems] by auto
qed simp

lemma count_blocks_of: "int (count_list (blocks_of m rid) b) = (case dget (req_to_blocks m) rid of None \<Rightarrow> 0 | Some w \<Rightarrow> int (count_list w b))"
  by (auto simp: blocks_of_def dget_default_def split: option.splits)

lemma table_refs_set:
  "distinct (dkeys (req_to_blocks m)) \<Longrightarrow>
    table_refs (set_blocks rid bs m) b = table_refs m b + int (count_list bs b) - int (count_list (blocks_of m rid) b)"
  by (simp add: table_refs_def set_blocks_def dict_sum_set [where f = "\<lambda>l. int (count_list l b)"] count_blocks_of)

lemma table_refs_del:
  "distinct (dkeys (req_to_blocks m)) \<Longrightarrow>
    (\<Sum>(r, l) \<leftarrow> ddel rid (req_to_blocks m). int (count_list l b)) = table_refs m b - int (count_list (blocks_of m rid) b)"
  by (simp add: table_refs_def dict_sum_del [where f = "\<lambda>l. int (count_list l b)"] count_blocks_of)

lemma table_refs_ge: "int (count_list (blocks_of m rid) b) \<le> table_refs m b"
  unfolding table_refs_def count_blocks_of by (rule dict_sum_ge) simp

lemma cow_refs_nonneg: "0 \<le> cow_refs m b"
proof -
  have "0 \<le> (\<Sum>(s, c) \<leftarrow> l. int (count_list [s, c] b))" for l by (induction l) auto
  then show ?thesis by (simp add: cow_refs_def)
qed

lemma mgr_refs_ge: "int (count_list (blocks_of m rid) b) \<le> mgr_refs m b"
  using table_refs_ge [of m rid b] cow_refs_nonneg [of m b] by (simp add: mgr_refs_def)

lemma mgr_refs_nonneg: "0 \<le> mgr_refs m b"
  using table_refs_ge [of m "[]" b] cow_refs_nonneg [of m b] by (simp add: mgr_refs_def)

lemma set_blocks_simps [simp]:
  "blocks_of (set_blocks rid bs m) rid' = (if rid' = rid then bs else blocks_of m rid')"
  "num_cached_block (set_blocks rid bs m) = num_cached_block m" "partial_hit_reqs (set_blocks rid bs m) = partial_hit_reqs m"
  "pending_cow_copies (set_blocks rid bs m) = pending_cow_copies m" "mgr_config (set_blocks rid bs m) = mgr_config m"
  "mgr_spec (set_blocks rid bs m) = mgr_spec m" "mgr_block_size (set_blocks rid bs m) = mgr_block_size m"
  "mgr_caching (set_blocks rid bs m) = mgr_caching m" "records_new_block_ids (set_blocks rid bs m) = records_new_block_ids m"
  "cow_refs (set_blocks rid bs m) = cow_refs m" "distinct (dkeys (req_to_blocks m)) \<Longrightarrow> distinct (dkeys (req_to_blocks (set_blocks rid bs m)))"
  "new_block_ids (set_blocks rid bs m) = new_block_ids m"
  by (simp_all add: set_blocks_def blocks_of_def mgr_config_def fun_eq_iff cow_refs_def)

lemma mgr_refs_set:
  "distinct (dkeys (req_to_blocks m)) \<Longrightarrow>
    mgr_refs (set_blocks rid bs m) b = mgr_refs m b + int (count_list bs b) - int (count_list (blocks_of m rid) b)"
  by (simp add: mgr_refs_def table_refs_set)

lemma blocks_of_with_entry [simp]: "blocks_of (with_entry rid m) rid' = blocks_of m rid'"
proof (cases "dget (req_to_blocks m) rid = None")
  case True
  then have "blocks_of m rid = []" by (simp add: blocks_of_def dget_default_def)
  then show ?thesis using True by (auto simp: with_entry_def)
next
  case False
  then obtain bs where "dget (req_to_blocks m) rid = Some bs" by auto
  then show ?thesis by (simp add: with_entry_def)
qed

lemma has_entry_with_entry [simp]: "\<exists>bs. dget (req_to_blocks (with_entry rid m)) rid = Some bs"
  by (auto simp: with_entry_def set_blocks_def)

lemma with_entry_simps [simp]:
  "mgr_config (with_entry rid m) = mgr_config m"
  "num_cached_block (with_entry rid m) = num_cached_block m" "partial_hit_reqs (with_entry rid m) = partial_hit_reqs m"
  "pending_cow_copies (with_entry rid m) = pending_cow_copies m" "mgr_spec (with_entry rid m) = mgr_spec m"
  "mgr_block_size (with_entry rid m) = mgr_block_size m" "mgr_caching (with_entry rid m) = mgr_caching m"
  "records_new_block_ids (with_entry rid m) = records_new_block_ids m" "cow_refs (with_entry rid m) = cow_refs m"
  "distinct (dkeys (req_to_blocks m)) \<Longrightarrow> distinct (dkeys (req_to_blocks (with_entry rid m)))"
  "new_block_ids (with_entry rid m) = new_block_ids m"
  by (simp_all add: with_entry_def)

lemma with_entry_refs: "distinct (dkeys (req_to_blocks m)) \<Longrightarrow> mgr_refs (with_entry rid m) b = mgr_refs m b"
  by (auto simp: with_entry_def mgr_refs_set blocks_of_def dget_default_def)

lemma st_ok_with_entry: "st_ok p m \<Longrightarrow> st_ok p (with_entry rid m)"
  by (simp add: st_ok_def)

text \<open>Updating the table of a request with admissible blocks.\<close>

lemma st_ok_set_blocks:
  assumes "st_ok p m" "set bs \<subseteq> insert (Blk 0) (real_blocks p)"
    "\<And>i s. dget (partial_hit_reqs m) rid = Some (i, s) \<Longrightarrow> i < int (length bs) \<and> bs ! nat i = s"
  shows "st_ok p (set_blocks rid bs m)"
  using assms unfolding st_ok_def by (auto split: if_splits)


section \<open>What an operation on one manager keeps\<close>

definition kept :: "block_pool \<Rightarrow> st_manager \<Rightarrow> block_pool \<Rightarrow> bref list \<Rightarrow> st_manager \<Rightarrow> bool" where
  "kept p m q fl m' \<longleftrightarrow> pool_ok q fl \<and> pool_config q = pool_config p \<and> st_ok q m' \<and> mgr_config m' = mgr_config m \<and>
     (\<forall>b \<in> real_blocks p. ref_cnt (heap q b) - mgr_refs m' b = ref_cnt (heap p b) - mgr_refs m b)"

lemma keptD:
  assumes "kept p m q fl m'"
  shows "pool_ok q fl" "pool_config q = pool_config p" "st_ok q m'" "mgr_config m' = mgr_config m"
    "b \<in> real_blocks p \<Longrightarrow> ref_cnt (heap q b) - mgr_refs m' b = ref_cnt (heap p b) - mgr_refs m b"
  using assms by (auto simp: kept_def)

lemma kept_trans: "kept p m q fl m1 \<Longrightarrow> kept q m1 q' fl' m' \<Longrightarrow> kept p m q' fl' m'"
  using config_eqs(5) [of q p] by (auto simp: kept_def)

lemma kept_refl: "pool_ok p fl \<Longrightarrow> st_ok p m \<Longrightarrow> kept p m p fl m"
  by (simp add: kept_def)

lemma kept_with_entry: "pool_ok p fl \<Longrightarrow> st_ok p m \<Longrightarrow> kept p m p fl (with_entry rid m)"
  by (simp add: kept_def st_ok_with_entry with_entry_refs st_okD)

text \<open>Recording ids of new blocks and the count of cached blocks is no matter of references.\<close>

lemma st_ok_books [simp]:
  "st_ok p (m\<lparr>new_block_ids := ids\<rparr>) = st_ok p m" "st_ok p (m\<lparr>num_cached_block := c\<rparr>) = st_ok p m"
  "mgr_refs (m\<lparr>new_block_ids := ids\<rparr>) = mgr_refs m" "mgr_refs (m\<lparr>num_cached_block := c\<rparr>) = mgr_refs m"
  "mgr_config (m\<lparr>new_block_ids := ids\<rparr>) = mgr_config m" "mgr_config (m\<lparr>num_cached_block := c\<rparr>) = mgr_config m"
  "blocks_of (m\<lparr>new_block_ids := ids\<rparr>) = blocks_of m" "blocks_of (m\<lparr>num_cached_block := c\<rparr>) = blocks_of m"
  by (simp_all add: st_ok_def blocks_of_def mgr_refs_def table_refs_def cow_refs_def mgr_config_def fun_eq_iff)

lemma kept_books [simp]:
  "kept p m q fl (m'\<lparr>new_block_ids := ids\<rparr>) = kept p m q fl m'" "kept p m q fl (m'\<lparr>num_cached_block := c\<rparr>) = kept p m q fl m'"
  by (simp_all add: kept_def)

text \<open>New blocks from the pool at the end of the table of a request.\<close>

lemma count_distinct: "distinct xs \<Longrightarrow> count_list xs b = (if b \<in> set xs then 1 else 0)"
  by (induction xs) auto

lemma append_new_kept:
  assumes ok: "pool_ok p fl" and st: "st_ok p m" and n: "0 \<le> n" "n \<le> int (length fl)"
  shows "\<exists>q. get_new_blocks n p = Inr (take (nat n) fl, q) \<and>
    kept p m q (drop (nat n) fl) (set_blocks rid (blocks_of m rid @ take (nat n) fl) m)"
proof -
  let ?new = "take (nat n) fl" and ?m' = "set_blocks rid (blocks_of m rid @ take (nat n) fl) m"
  note D = pool_okD [OF ok] and S = st_okD [OF st]
  from get_new_blocks_ok [OF ok n] obtain q where q: "get_new_blocks n p = Inr (?new, q)" "pool_ok q (drop (nat n) fl)"
    "pool_config q = pool_config p" "\<And>c. ref_cnt (heap q c) = (if c \<in> set ?new then 1 else ref_cnt (heap p c))" by blast
  have "set ?new \<subseteq> real_blocks p" using D(5) set_take_subset [of "nat n" fl] by blast
  then have sub: "set (blocks_of m rid @ ?new) \<subseteq> insert (Blk 0) (real_blocks p)" using S(4) [of rid] by auto
  have "st_ok p ?m'"
    by (rule st_ok_set_blocks [OF st sub]) (use S(5) [of rid] in \<open>auto simp: nth_append\<close>)
  then have st': "st_ok q ?m'" using st_ok_config [OF q(3)] by blast
  have "ref_cnt (heap q b) - mgr_refs ?m' b = ref_cnt (heap p b) - mgr_refs m b" if "b \<in> real_blocks p" for b
  proof (cases "b \<in> set ?new")
    case True
    then have "ref_cnt (heap p b) = 0" using D(8) [OF that] set_take_subset [of "nat n" fl] by blast
    then show ?thesis using True q(4) [of b] D(6) by (simp add: mgr_refs_set [OF S(3)] count_distinct)
  next
    case False
    then show ?thesis using q(4) [of b] by (simp add: mgr_refs_set [OF S(3)])
  qed
  then show ?thesis using q st' by (simp add: kept_def)
qed


section \<open>Allocation\<close>

text \<open>The blocks of other requests, and the counts of cached blocks, an operation leaves alone.\<close>

definition only_req :: "string \<Rightarrow> st_manager \<Rightarrow> st_manager \<Rightarrow> bool" where
  "only_req rid m m' \<longleftrightarrow> (\<forall>rid'. rid' \<noteq> rid \<longrightarrow> blocks_of m' rid' = blocks_of m rid' \<and>
     dget (num_cached_block m') rid' = dget (num_cached_block m) rid' \<and> dget (partial_hit_reqs m') rid' = dget (partial_hit_reqs m) rid')"

lemma only_req_trans: "only_req rid m m1 \<Longrightarrow> only_req rid m1 m' \<Longrightarrow> only_req rid m m'"
  by (simp add: only_req_def)

lemma only_req_simps [simp]:
  "only_req rid m m" "only_req rid m (m'\<lparr>new_block_ids := ids\<rparr>) = only_req rid m m'"
  "only_req rid m (set_blocks rid bs m') = only_req rid m m'" "only_req rid m (with_entry rid m') = only_req rid m m'"
  "only_req rid m (m'\<lparr>pending_cow_copies := c\<rparr>) = only_req rid m m'"
  by (auto simp: only_req_def blocks_of_def set_blocks_def with_entry_def)

lemma count_list_upd:
  "i < length xs \<Longrightarrow> int (count_list (xs[i := c]) b) = int (count_list xs b) + (if b = c then 1 else 0) - (if b = xs ! i then 1 else 0)"
proof (induction xs arbitrary: i)
  case (Cons a xs)
  show ?case
  proof (cases i)
    case (Suc j)
    then show ?thesis using Cons.IH [of j] Cons.prems by auto
  qed auto
qed simp

lemma mgr_refs_pending:
  "mgr_refs (m\<lparr>pending_cow_copies := pending_cow_copies m @ [(s, c)]\<rparr>) b = mgr_refs m b + (if b = s then 1 else 0) + (if b = c then 1 else 0)"
  by (simp add: mgr_refs_def table_refs_def cow_refs_def)

lemma mgr_refs_partial [simp]: "mgr_refs (m\<lparr>partial_hit_reqs := d\<rparr>) = mgr_refs m"
  by (simp add: mgr_refs_def table_refs_def cow_refs_def fun_eq_iff)

lemma blocks_of_upd [simp]: "blocks_of (m\<lparr>partial_hit_reqs := d\<rparr>) = blocks_of m" "blocks_of (m\<lparr>pending_cow_copies := c\<rparr>) = blocks_of m"
  by (simp_all add: blocks_of_def fun_eq_iff)

definition cow_cost :: "st_manager \<Rightarrow> string \<Rightarrow> nat" where
  "cow_cost m rid = (if dget (partial_hit_reqs m) rid = None then 0 else 1)"

lemma redirect_kept:
  assumes ok: "pool_ok p fl" and st: "st_ok p m" and refs: "\<And>b. b \<in> real_blocks p \<Longrightarrow> mgr_refs m b \<le> ref_cnt (heap p b)"
    and c: "cow_cost m rid \<le> length fl"
  shows "\<exists>new m' q. redirect_partial_hit rid m p = Inr (new, m', q) \<and> kept p m q (drop (cow_cost m rid) fl) m' \<and>
    length (blocks_of m' rid) = length (blocks_of m rid) \<and> dget (partial_hit_reqs m') rid = None \<and> only_req rid m m' \<and>
    num_cached_block m' = num_cached_block m"
proof (cases "dget (partial_hit_reqs m) rid")
  case None
  then show ?thesis using kept_refl [OF ok st] by (simp add: redirect_partial_hit_def cow_cost_def)
next
  case (Some e)
  obtain i s where [simp]: "e = (i, s)" by (cases e)
  note D = pool_okD [OF ok] and S = st_okD [OF st]
  let ?bl = "blocks_of m rid"
  have src: "0 \<le> i" "nat i < length ?bl" "?bl ! nat i = s" "s \<in> real_blocks p"
    using S(5) [of rid i s] Some by auto
  obtain c fl' where fl: "fl = c # fl'" using c Some by (cases fl) (auto simp: cow_cost_def)
  from get_new_blocks_ok [OF ok, of 1] fl obtain q where q: "get_new_blocks 1 p = Inr ([c], q)" "pool_ok q fl'"
    "pool_config q = pool_config p" "\<And>b. ref_cnt (heap q b) = (if b = c then 1 else ref_cnt (heap p b))" by auto
  have c: "c \<in> real_blocks p" "ref_cnt (heap p c) = 0" "c \<notin> set fl'" using D(5,6,8) fl by auto
  have "s \<in> set ?bl" using nth_mem [OF src(2)] src(3) by simp
  then have "0 < int (count_list ?bl s)" using count_list_0_iff [of ?bl s] by simp
  then have s: "0 < ref_cnt (heap p s)" "s \<noteq> c" using mgr_refs_ge [of m rid s] refs [OF src(4)] c(2) by auto
  define m1 where "m1 = m\<lparr>partial_hit_reqs := ddel rid (partial_hit_reqs m)\<rparr>"
  define m' where "m' = set_blocks rid (?bl[nat i := c]) (with_entry rid m1)\<lparr>pending_cow_copies := pending_cow_copies m @ [(s, c)]\<rparr>"
  let ?q = "add_ref 1 c q"
  have b1: "blocks_of m1 = blocks_of m" "pending_cow_copies m1 = pending_cow_copies m" "req_to_blocks m1 = req_to_blocks m"
    by (simp_all add: m1_def blocks_of_def fun_eq_iff)
  have null: "\<not> is_null (heap q s)" using null_block_iff [OF pool_okD(1) [OF q(2)], of s] src(4) config_eqs(5) [OF q(3)] by simp
  have run: "redirect_partial_hit rid m p = Inr ([c], m'\<lparr>new_block_ids := new_block_ids m' @ [block_id c]\<rparr>, ?q)"
    using q(1) src s null q(4) [of s] b1 Some
    by (simp add: redirect_partial_hit_def apply_cow_def py_index_def m1_def [symmetric] m'_def Let_def)
  have tq: "touch_block c q = Inr ?q" using q(4) [of c] by (simp add: touch_block_def)
  have "filter (\<lambda>b. b \<noteq> c) fl' = fl'" by (rule filter_True) (use c(3) in auto)
  with touch_block_ok [OF q(2), of c] tq c(1) config_eqs(5) [OF q(3)]
  have pq: "pool_ok ?q fl'" "pool_config ?q = pool_config p" using q(3) by auto
  have bl': "blocks_of m' r = (if r = rid then ?bl[nat i := c] else blocks_of m r)" for r
    using b1 by (simp add: m'_def)
  have "distinct (dkeys (req_to_blocks m1))" using S(3) b1 by simp
  then have F: "partial_hit_reqs m' = ddel rid (partial_hit_reqs m)" "mgr_block_size m' = mgr_block_size m" "mgr_spec m' = mgr_spec m"
    "pending_cow_copies m' = pending_cow_copies m @ [(s, c)]" "distinct (dkeys (req_to_blocks m'))" "mgr_config m' = mgr_config m"
    "num_cached_block m' = num_cached_block m"
    by (simp_all add: m'_def m1_def mgr_config_def set_blocks_def with_entry_def)
  have sub: "set (blocks_of m' r) \<subseteq> insert (Blk 0) (real_blocks p)" for r
    using S(4) [of r] c(1) set_update_subset_insert [of ?bl "nat i" c] by (auto simp: bl' split: if_splits)
  have "0 \<le> j \<and> j < int (length (blocks_of m' r)) \<and> blocks_of m' r ! nat j = t \<and> t \<in> real_blocks p"
    if "dget (partial_hit_reqs m') r = Some (j, t)" for r j t
    using that S(5) [of r j t] by (simp add: F bl' split: if_splits)
  then have st': "st_ok p m'" using sub st c(1) src(4) F by (auto simp: st_ok_def)
  have refs': "mgr_refs m' b = mgr_refs m b + (if b = c then 2 else 0)" for b
  proof -
    let ?M = "set_blocks rid (?bl[nat i := c]) (with_entry rid m1)"
    have d1: "distinct (dkeys (req_to_blocks m1))" using S(3) b1 by simp
    have "mgr_refs m' b = mgr_refs ?M b + (if b = s then 1 else 0) + (if b = c then 1 else 0)"
      using mgr_refs_pending [of ?M s c b] by (simp add: m'_def b1)
    moreover have "mgr_refs ?M b = mgr_refs m1 b + int (count_list (?bl[nat i := c]) b) - int (count_list ?bl b)"
      using d1 by (simp add: mgr_refs_set with_entry_refs b1)
    ultimately show ?thesis using count_list_upd [OF src(2), of c b] src(3) s(2) by (auto simp: m1_def)
  qed
  have "kept p m ?q fl' m'"
    using pq st' refs' q(4) c(2) st_ok_config [OF pq(2), of m'] F(6) by (simp add: kept_def)
  moreover have "only_req rid m m'" by (simp add: only_req_def F bl')
  ultimately show ?thesis using run F Some fl by (simp add: cow_cost_def bl')
qed

definition new_cost :: "st_manager \<Rightarrow> string \<Rightarrow> int \<Rightarrow> nat" where
  "new_cost m rid ntokens = nat (cdiv ntokens (mgr_block_size m) - int (length (blocks_of m rid)))"

lemma drop_set: "set (drop n xs) \<subseteq> set xs" by (rule set_drop_subset)

lemma alloc_new_kept:
  assumes ok: "pool_ok p fl" and st: "st_ok p m" and refs: "\<And>b. b \<in> real_blocks p \<Longrightarrow> mgr_refs m b \<le> ref_cnt (heap p b)"
    and c: "cow_cost m rid + new_cost m rid n \<le> length fl"
  shows "\<exists>new m' q. st_allocate_new_blocks rid n m p = Inr (new, m', q) \<and> kept p m q (drop (cow_cost m rid + new_cost m rid n) fl) m' \<and>
    int (length (blocks_of m' rid)) = max (int (length (blocks_of m rid))) (cdiv n (mgr_block_size m)) \<and>
    dget (partial_hit_reqs m') rid = None \<and> only_req rid m m' \<and> num_cached_block m' = num_cached_block m"
proof -
  from redirect_kept [OF ok st refs, of rid] c obtain cow m1 p1 where
    r: "redirect_partial_hit rid m p = Inr (cow, m1, p1)" "kept p m p1 (drop (cow_cost m rid) fl) m1"
      "length (blocks_of m1 rid) = length (blocks_of m rid)" "dget (partial_hit_reqs m1) rid = None" "only_req rid m m1"
      "num_cached_block m1 = num_cached_block m" by auto
  note K = keptD [OF r(2)] and cf = mgr_configD [OF keptD(4) [OF r(2)]]
  let ?m2 = "with_entry rid m1" and ?k = "cdiv n (mgr_block_size m) - int (length (blocks_of m rid))"
  have k2: "kept p m p1 (drop (cow_cost m rid) fl) ?m2" by (rule kept_trans [OF r(2) kept_with_entry [OF K(1,3)]])
  show ?thesis
  proof (cases "?k \<le> 0")
    case True
    then show ?thesis using r k2 by (simp add: st_allocate_new_blocks_def new_cost_def Let_def)
  next
    case False
    have len: "?k \<le> int (length (drop (cow_cost m rid) fl))" using c False by (simp add: new_cost_def)
    from append_new_kept [OF K(1) keptD(3) [OF k2] _ len, of rid] False obtain q where
      q: "get_new_blocks ?k p1 = Inr (take (nat ?k) (drop (cow_cost m rid) fl), q)"
        "kept p1 ?m2 q (drop (nat ?k) (drop (cow_cost m rid) fl))
           (set_blocks rid (blocks_of ?m2 rid @ take (nat ?k) (drop (cow_cost m rid) fl)) ?m2)" by auto
    have "kept p m q (drop (cow_cost m rid + new_cost m rid n) fl)
        (set_blocks rid (blocks_of ?m2 rid @ take (nat ?k) (drop (cow_cost m rid) fl)) ?m2)"
      using kept_trans [OF k2 q(2)] by (simp add: new_cost_def add.commute)
    then show ?thesis using r q(1) False len by (simp add: st_allocate_new_blocks_def Let_def cf)
  qed
qed

text \<open>External tokens.\<close>

definition ext_cost :: "st_manager \<Rightarrow> string \<Rightarrow> int \<Rightarrow> int \<Rightarrow> nat" where
  "ext_cost m rid nlocal next =
     (if is_cross m \<or> next \<le> 0 \<or> nlocal + next \<le> get_num_skipped_tokens (mgr_type m) (nlocal + next) then 0
      else nat (cdiv (nlocal + next) (mgr_block_size m) - int (length (blocks_of m rid))))"

lemma external_kept:
  assumes ok: "pool_ok p fl" and st: "st_ok p m" and n: "0 \<le> nlocal" "0 \<le> next"
    and len: "is_cross m \<or> int (length (blocks_of m rid)) \<le> cdiv (nlocal + next) (mgr_block_size m)"
    and c: "ext_cost m rid nlocal next \<le> length fl"
  shows "\<exists>m' q. allocate_external_computed_blocks rid nlocal next m p = Inr (m', q) \<and> kept p m q (drop (ext_cost m rid nlocal next) fl) m' \<and>
    length (blocks_of m' rid) = length (blocks_of m rid) + ext_cost m rid nlocal next \<and>
    only_req rid m m' \<and> partial_hit_reqs m' = partial_hit_reqs m \<and> num_cached_block m' = num_cached_block m"
proof (cases "is_cross m \<or> next \<le> 0 \<or> nlocal + next \<le> get_num_skipped_tokens (mgr_type m) (nlocal + next)")
  case True
  then have "allocate_external_computed_blocks rid nlocal next m p = Inr (m, p)"
    using n by (auto simp: allocate_external_computed_blocks_def is_cross_def Let_def)
  then show ?thesis using True kept_refl [OF ok st] by (simp add: ext_cost_def)
next
  case False
  let ?k = "cdiv (nlocal + next) (mgr_block_size m) - int (length (blocks_of m rid))" and ?m1 = "with_entry rid m"
  have k: "nat ?k = ext_cost m rid nlocal next" "0 \<le> ?k" using False len by (auto simp: ext_cost_def)
  note K = kept_with_entry [OF ok st, of rid]
  have kl: "?k \<le> int (length fl)" using c k by linarith
  from append_new_kept [OF ok keptD(3) [OF K] k(2) kl, of rid] obtain q where
    q: "get_new_blocks ?k p = Inr (take (nat ?k) fl, q)" "kept p ?m1 q (drop (nat ?k) fl) (set_blocks rid (blocks_of ?m1 rid @ take (nat ?k) fl) ?m1)"
    by auto
  have "allocate_external_computed_blocks rid nlocal next m p =
      Inr (if records_new_block_ids m
           then (set_blocks rid (blocks_of m rid @ take (nat ?k) fl) ?m1)\<lparr>new_block_ids := new_block_ids m @ map block_id (take (nat ?k) fl)\<rparr>
           else set_blocks rid (blocks_of m rid @ take (nat ?k) fl) ?m1, q)"
    using q(1) False by (auto simp: allocate_external_computed_blocks_def is_cross_def Let_def)
  moreover have "kept p m q (drop (nat ?k) fl) (set_blocks rid (blocks_of m rid @ take (nat ?k) fl) ?m1)"
    using kept_trans [OF K q(2)] by simp
  ultimately show ?thesis using k c by simp
qed

text \<open>
  A prefix hit of \<open>n\<close> tokens: cached blocks, or null blocks outside the window, that cover the tokens; a last block that is only
  partly used is a real one.
\<close>

definition hit_ok :: "block_pool \<Rightarrow> st_manager \<Rightarrow> int \<Rightarrow> bref list \<Rightarrow> bool" where
  "hit_ok p m n bl \<longleftrightarrow>
     (if is_cross m then bl = []
      else set bl \<subseteq> insert (Blk 0) (real_blocks p) \<and> int (length bl) = cdiv n (mgr_block_size m) \<and> (mgr_caching m \<or> bl = []) \<and>
        (n mod mgr_block_size m \<noteq> 0 \<and> bl \<noteq> [] \<longrightarrow> last bl \<in> real_blocks p))"

definition num_skipped :: "st_manager \<Rightarrow> int \<Rightarrow> nat" where
  "num_skipped m n = nat (get_num_skipped_tokens (mgr_type m) n div mgr_block_size m)"

lemma touch_cost: "distinct fl \<Longrightarrow> length fl \<le> length (filter (\<lambda>c. c \<notin> set bs) fl) + length (filter (\<lambda>b. b \<in> set fl) bs)"
proof -
  assume d: "distinct fl"
  have "length (filter (\<lambda>c. c \<in> set bs) fl) = card (set (filter (\<lambda>c. c \<in> set bs) fl))" using distinct_card [OF distinct_filter [OF d]] by metis
  also have "set (filter (\<lambda>c. c \<in> set bs) fl) = set (filter (\<lambda>b. b \<in> set fl) bs)" by auto
  also have "card \<dots> \<le> length (filter (\<lambda>b. b \<in> set fl) bs)" by (rule card_length)
  finally show ?thesis using sum_length_filter_compl [of "\<lambda>c. c \<in> set bs" fl] by simp
qed

lemma cdiv_partial: "0 < b \<Longrightarrow> n mod b \<noteq> 0 \<Longrightarrow> cdiv n b = n div b + 1"
proof -
  assume b: "0 < b" "n mod b \<noteq> 0"
  then have "0 < n mod b" using pos_mod_sign [of b n] by linarith
  then have "n div b < cdiv n b" using less_cdiv_iff [OF b(1), of "n div b" n] minus_mod_eq_div_mult [of n b] by (simp add: mult.commute)
  moreover have "n \<le> (n div b + 1) * b"
    unfolding distrib_right using div_mult_mod_eq [of n b] pos_mod_bound [OF b(1), of n] by linarith
  then have "cdiv n b \<le> n div b + 1" using cdiv_le_iff [OF b(1)] by blast
  ultimately show ?thesis by linarith
qed

lemma add_local_kept:
  assumes ok: "pool_ok p fl" and st: "st_ok p m" and n: "0 \<le> nlocal" "0 \<le> next" and hit: "hit_ok p m nlocal bl"
    and no: "blocks_of m rid = []" "dget (partial_hit_reqs m) rid = None" and nc: "\<not> is_cross m"
  defines "k \<equiv> num_skipped m (nlocal + next)"
  shows "\<exists>m' q. add_local_computed_blocks rid bl nlocal next m p = Inr (m', q) \<and>
    kept p m q (filter (\<lambda>c. c \<notin> set (drop k bl)) fl) m' \<and>
    blocks_of m' rid = replicate k (Blk 0) @ drop k bl \<and> only_req rid m m' \<and> dget (num_cached_block m') rid \<noteq> None \<and>
    cow_cost m' rid = (if has_partial_local_hit m (drop k bl) nlocal then 1 else 0)"
proof -
  let ?X = "drop k bl"
  define m1 where "m1 = with_entry rid m"
  define idx where "idx = nlocal div mgr_block_size m"
  note D = pool_okD [OF ok] and S = st_okD [OF st]
  have sk: "0 \<le> get_num_skipped_tokens (mgr_type m) (nlocal + next) div mgr_block_size m"
    using skipped_bounds [OF S(2), of "nlocal + next"] n S(1) by (simp add: pos_imp_zdiv_nonneg_iff)
  have H: "set bl \<subseteq> insert (Blk 0) (real_blocks p)" "int (length bl) = cdiv nlocal (mgr_block_size m)" "mgr_caching m \<or> bl = []"
    "nlocal mod mgr_block_size m \<noteq> 0 \<and> bl \<noteq> [] \<longrightarrow> last bl \<in> real_blocks p" using hit nc by (auto simp: hit_ok_def)
  have X: "set ?X \<subseteq> insert (Blk 0) (real_blocks p)" using H(1) set_drop_subset [of k bl] by blast
  from touch_ok [OF ok X] obtain q where q: "touch ?X p = Inr q" "pool_ok q (filter (\<lambda>c. c \<notin> set ?X) fl)" "pool_config q = pool_config p"
    "\<And>c. ref_cnt (heap q c) = ref_cnt (heap p c) + int (count_list ?X c)" by blast
  define bs where "bs = replicate k (Blk 0) @ ?X"
  define m2 where "m2 = (set_blocks rid bs m1)\<lparr>num_cached_block := dset rid (int (length bs)) (num_cached_block m)\<rparr>"
  define m' where "m' = (if has_partial_local_hit m ?X nlocal
     then m2\<lparr>partial_hit_reqs := dset rid (idx, last ?X) (partial_hit_reqs m), num_cached_block := dset rid idx (num_cached_block m2)\<rparr> else m2)"
  have z: "\<not> mgr_caching m \<Longrightarrow> bl = [] \<and> q = p" using H(3) q(1) by (auto simp: touch_def)
  have nb: "null_block p = Blk 0" using D(1) by (simp add: null_ok_def)
  have g: "get_num_skipped_tokens (mgr_type m) (nlocal + next) div mgr_block_size m = int k"
    using sk by (simp add: k_def num_skipped_def)
  have run: "add_local_computed_blocks rid bl nlocal next m p = Inr (m', q)"
    using nc no q(1) z nb g unfolding add_local_computed_blocks_def is_cross_def Let_def
    by (cases "mgr_caching m"; cases "k = 0") (simp_all add: m'_def m2_def m1_def bs_def idx_def)
  have bl': "blocks_of m' r = (if r = rid then bs else blocks_of m r)" for r
    by (simp add: m'_def m2_def m1_def)
  have d1: "distinct (dkeys (req_to_blocks m1))" using S(3) by (simp add: m1_def)
  then have F: "mgr_config m' = mgr_config m" "mgr_block_size m' = mgr_block_size m" "mgr_spec m' = mgr_spec m"
      "pending_cow_copies m' = pending_cow_copies m" "distinct (dkeys (req_to_blocks m'))" "dget (num_cached_block m') rid \<noteq> None"
      "\<And>r. r \<noteq> rid \<Longrightarrow> dget (num_cached_block m') r = dget (num_cached_block m) r"
      "partial_hit_reqs m' = (if has_partial_local_hit m ?X nlocal then dset rid (idx, last ?X) (partial_hit_reqs m) else partial_hit_reqs m)"
    by (auto simp: m'_def m2_def m1_def mgr_config_def set_blocks_def with_entry_def)
  have part: "0 \<le> idx \<and> idx < int (length bs) \<and> bs ! nat idx = last ?X \<and> last ?X \<in> real_blocks p" if "has_partial_local_hit m ?X nlocal"
  proof -
    have h: "?X \<noteq> []" "nlocal mod mgr_block_size m \<noteq> 0" using that by (simp_all add: has_partial_local_hit_def)
    have i0: "0 \<le> idx" using n(1) S(1) by (simp add: idx_def pos_imp_zdiv_nonneg_iff)
    have "length bl = nat idx + 1" "k < length bl" using H(2) cdiv_partial [OF S(1) h(2)] h(1) i0 by (auto simp: idx_def)
    then show ?thesis using i0 h H(4) by (auto simp: bs_def nth_append last_conv_nth last_drop)
  qed
  have "set bs \<subseteq> insert (Blk 0) (real_blocks p)" using X by (auto simp: bs_def)
  then have "set (blocks_of m' r) \<subseteq> insert (Blk 0) (real_blocks p)" for r using S(4) [of r] by (simp add: bl')
  moreover have "0 \<le> j \<and> j < int (length (blocks_of m' r)) \<and> blocks_of m' r ! nat j = t \<and> t \<in> real_blocks p"
    if "dget (partial_hit_reqs m') r = Some (j, t)" for r j t
    using that S(5) [of r j t] part no(2) by (auto simp: F bl' split: if_splits)
  ultimately have st': "st_ok p m'" using st F(2,3,4,5) by (simp add: st_ok_def)
  have "mgr_refs m' b = mgr_refs m b + int (count_list bs b)" for b
    using mgr_refs_set [OF d1, of rid bs b] no(1) S(3) by (simp add: m'_def m2_def m1_def with_entry_refs)
  moreover have "count_list bs b = count_list ?X b" if "b \<in> real_blocks p" for b
    using that by (auto simp: bs_def real_blocks_def count_list_0_iff)
  ultimately have "kept p m q (filter (\<lambda>c. c \<notin> set ?X) fl) m'"
    using q(2,3,4) st' F(1) st_ok_config [OF q(3), of m'] by (simp add: kept_def)
  moreover have "only_req rid m m'" using F(7) by (auto simp: only_req_def bl' F(8))
  ultimately show ?thesis using run bl' [of rid] F(6,8) no(2) by (simp add: bs_def cow_cost_def)
qed


section \<open>Release\<close>

lemma pop_facts:
  fixes rid :: string
  assumes "st_ok p m"
  defines "m' \<equiv> snd (st_pop_blocks_for_free rid m)"
  shows "st_ok p m'" "mgr_refs m' b = mgr_refs m b - int (count_list (blocks_of m rid) b)" "mgr_config m' = mgr_config m"
    "only_req rid m m'" "blocks_of m' rid = []" "dget (num_cached_block m') rid = None" "dget (partial_hit_reqs m') rid = None"
    "fst (st_pop_blocks_for_free rid m) = blocks_of m rid"
proof -
  note S = st_okD [OF assms(1)]
  have bl: "blocks_of m' r = (if r = rid then [] else blocks_of m r)" for r by (simp add: m'_def st_pop_blocks_for_free_def blocks_of_def)
  show "st_ok p m'" using assms(1) bl by (auto simp: st_ok_def m'_def st_pop_blocks_for_free_def split: if_splits)
  show "mgr_refs m' b = mgr_refs m b - int (count_list (blocks_of m rid) b)"
    using table_refs_del [OF S(3), of b rid] by (simp add: mgr_refs_def m'_def st_pop_blocks_for_free_def table_refs_def cow_refs_def)
  show "only_req rid m m'" by (auto simp: only_req_def bl) (auto simp: m'_def st_pop_blocks_for_free_def)
  show "blocks_of m' rid = []" by (simp add: bl)
qed (simp_all add: m'_def st_pop_blocks_for_free_def mgr_config_def)

text \<open>Giving back a part of the references a manager held.\<close>

lemma give_back_kept:
  assumes ok: "pool_ok p fl" and st: "st_ok p m'" and cf: "mgr_config m' = mgr_config m"
    and sub: "set bl \<subseteq> insert (Blk 0) (real_blocks p)"
    and refs: "\<And>b. b \<in> real_blocks p \<Longrightarrow> mgr_refs m b \<le> ref_cnt (heap p b)"
    and dec: "\<And>b. b \<in> real_blocks p \<Longrightarrow> mgr_refs m' b = mgr_refs m b - int (count_list bl b)"
  shows "\<exists>q fl'. free_blocks bl p = Inr q \<and> kept p m q fl' m' \<and> length fl \<le> length fl'"
proof -
  have cnt: "int (count_list bl b) \<le> ref_cnt (heap p b)" if "b \<in> real_blocks p" for b
    using refs [OF that] dec [OF that] mgr_refs_nonneg [of m' b] by linarith
  from free_blocks_ok [OF ok sub cnt] obtain q fl' where
    q: "free_blocks bl p = Inr q" "pool_config q = pool_config p" "pool_ok q fl'" "length fl \<le> length fl'"
      "\<And>c. ref_cnt (heap q c) = ref_cnt (heap p c) - int (count_list bl c)" by fastforce
  have "kept p m q fl' m'" using q st cf dec st_ok_config [OF q(2), of m'] by (simp add: kept_def)
  then show ?thesis using q by blast
qed

lemma free_kept:
  assumes ok: "pool_ok p fl" and st: "st_ok p m" and refs: "\<And>b. b \<in> real_blocks p \<Longrightarrow> mgr_refs m b \<le> ref_cnt (heap p b)"
  shows "\<exists>m' q fl'. st_free rid m p = Inr (m', q) \<and> kept p m q fl' m' \<and> length fl \<le> length fl' \<and> only_req rid m m' \<and>
    blocks_of m' rid = [] \<and> dget (num_cached_block m') rid = None \<and> dget (partial_hit_reqs m') rid = None \<and>
    pending_cow_copies m' = pending_cow_copies m"
proof -
  note P = pop_facts [OF st, where rid = rid]
  have pc: "pending_cow_copies (snd (st_pop_blocks_for_free rid m)) = pending_cow_copies m" by (simp add: st_pop_blocks_for_free_def)
  have "set (rev (blocks_of m rid)) \<subseteq> insert (Blk 0) (real_blocks p)" using st_okD(4) [OF st, of rid] by simp
  from give_back_kept [OF ok P(1,3) this refs] P(2) obtain q fl' where
    "free_blocks (rev (blocks_of m rid)) p = Inr q" "kept p m q fl' (snd (st_pop_blocks_for_free rid m))" "length fl \<le> length fl'" by auto
  then show ?thesis using P pc by (auto simp: st_free_def split: prod.splits)
qed

lemma null_out_spec:
  assumes "null_out null idx bl fr = (fr', bl')" "\<forall>i \<in> set idx. i < length bl"
  shows "length bl' = length bl \<and> set bl' \<subseteq> insert null (set bl) \<and> set fr' \<subseteq> set fr \<union> (set bl - {null}) \<and>
    (\<forall>b. b \<noteq> null \<longrightarrow> int (count_list bl' b) + int (count_list fr' b) = int (count_list bl b) + int (count_list fr b))"
  using assms
proof (induction null idx bl fr rule: null_out.induct)
  case (2 null i idx bl fr)
  show ?case
  proof (cases "bl ! i = null")
    case True
    then show ?thesis using "2.prems" by auto
  next
    case False
    have i: "i < length bl" using "2.prems" by simp
    from "2.IH" [OF False] "2.prems" False have ih: "length bl' = length bl"
      "set bl' \<subseteq> insert null (set (bl[i := null]))" "set fr' \<subseteq> set (fr @ [bl ! i]) \<union> (set (bl[i := null]) - {null})"
      "\<And>b. b \<noteq> null \<Longrightarrow> int (count_list bl' b) + int (count_list fr' b) = int (count_list (bl[i := null]) b) + int (count_list (fr @ [bl ! i]) b)"
      by simp_all
    have "set (bl[i := null]) \<subseteq> insert null (set bl)" by (rule set_update_subset_insert)
    moreover have "bl ! i \<in> set bl" using i by simp
    ultimately have "set bl' \<subseteq> insert null (set bl)" "set fr' \<subseteq> set fr \<union> (set bl - {null})" using ih(2,3) False by auto
    moreover have "int (count_list bl' b) + int (count_list fr' b) = int (count_list bl b) + int (count_list fr b)" if "b \<noteq> null" for b
      using ih(4) [OF that] count_list_upd [OF i, of null b] that by (auto split: if_splits)
    ultimately show ?thesis using ih(1) by simp
  qed
qed auto

lemma remove_range_kept:
  assumes ok: "pool_ok p fl" and st: "st_ok p m" and refs: "\<And>b. b \<in> real_blocks p \<Longrightarrow> mgr_refs m b \<le> ref_cnt (heap p b)"
    and no: "dget (partial_hit_reqs m) rid = None"
  shows "\<exists>m' q fl'. remove_blocks_in_range rid i j m p = Inr (m', q) \<and> kept p m q fl' m' \<and> length fl \<le> length fl' \<and> only_req rid m m' \<and>
    length (blocks_of m' rid) = length (blocks_of m rid) \<and> num_cached_block m' = num_cached_block m \<and> partial_hit_reqs m' = partial_hit_reqs m"
proof (cases "dget (req_to_blocks m) rid = None \<or> j \<le> i")
  case True
  then have "remove_blocks_in_range rid i j m p = Inr (m, p)" by (simp add: remove_blocks_in_range_def)
  then show ?thesis using kept_refl [OF ok st] by auto
next
  case False
  note D = pool_okD [OF ok] and S = st_okD [OF st]
  let ?bl = "blocks_of m rid"
  obtain fr bl' where nu: "null_out (Blk 0) (rev [nat i..<nat (min j (int (length ?bl)))]) ?bl [] = (fr, bl')" by fastforce
  have "\<forall>k \<in> set (rev [nat i..<nat (min j (int (length ?bl)))]). k < length ?bl" by auto
  from null_out_spec [OF nu this] have L: "length bl' = length ?bl" "set bl' \<subseteq> insert (Blk 0) (set ?bl)" "set fr \<subseteq> set ?bl - {Blk 0}"
    "\<And>b. b \<noteq> Blk 0 \<Longrightarrow> int (count_list bl' b) = int (count_list ?bl b) - int (count_list fr b)" by auto
  have real: "b \<noteq> Blk 0" if "b \<in> real_blocks p" for b using that by (auto simp: real_blocks_def)
  let ?m1 = "set_blocks rid bl' m"
  have sub: "set bl' \<subseteq> insert (Blk 0) (real_blocks p)" "set fr \<subseteq> insert (Blk 0) (real_blocks p)" using L(2,3) S(4) [of rid] by auto
  have st1: "st_ok p ?m1" by (rule st_ok_set_blocks [OF st sub(1)]) (use no in auto)
  have dec: "mgr_refs ?m1 b = mgr_refs m b - int (count_list fr b)" if "b \<in> real_blocks p" for b
    using L(4) [OF real [OF that]] by (simp add: mgr_refs_set [OF S(3)])
  have nb: "null_block p = Blk 0" using D(1) by (simp add: null_ok_def)
  from give_back_kept [OF ok st1 _ sub(2) refs dec] obtain q fl' where
    q: "free_blocks fr p = Inr q" "kept p m q fl' ?m1" "length fl \<le> length fl'" by auto
  show ?thesis
  proof (cases "fr = []")
    case True
    then have "kept p m p fl ?m1" using ok st1 dec by (simp add: kept_def)
    then show ?thesis using False True nu nb L(1) by (auto simp: remove_blocks_in_range_def Let_def)
  next
    case ne: False
    then show ?thesis using False nu nb q L(1) by (auto simp: remove_blocks_in_range_def Let_def)
  qed
qed

lemma remove_skipped_kept:
  assumes ok: "pool_ok p fl" and st: "st_ok p m" and refs: "\<And>b. b \<in> real_blocks p \<Longrightarrow> mgr_refs m b \<le> ref_cnt (heap p b)"
    and no: "dget (partial_hit_reqs m) rid = None"
  shows "\<exists>m' q fl'. st_remove_skipped_blocks rid n np m p = Inr (m', q) \<and> kept p m q fl' m' \<and> length fl \<le> length fl' \<and> only_req rid m m' \<and>
    length (blocks_of m' rid) = length (blocks_of m rid) \<and> num_cached_block m' = num_cached_block m \<and> partial_hit_reqs m' = partial_hit_reqs m"
    (is "?P (st_remove_skipped_blocks rid n np m p)")
proof -
  have base: "?P (base_remove_skipped_blocks rid n m p)"
  proof (cases "get_num_skipped_tokens (mgr_type m) n \<le> 0")
    case True
    then show ?thesis using kept_refl [OF ok st] by (auto simp: base_remove_skipped_blocks_def)
  next
    case False
    note K = kept_with_entry [OF ok st, of rid]
    let ?j = "min (get_num_skipped_tokens (mgr_type m) n div mgr_block_size m) (int (length (blocks_of m rid)))"
    have no1: "dget (partial_hit_reqs (with_entry rid m)) rid = None" using no by simp
    have rf: "mgr_refs (with_entry rid m) b \<le> ref_cnt (heap p b)" if "b \<in> real_blocks p" for b
      using refs [OF that] st_okD(3) [OF st] by (simp add: with_entry_refs)
    from remove_range_kept [OF ok keptD(3) [OF K] rf no1, of 0 ?j] obtain m' q fl' where
      R: "remove_blocks_in_range rid 0 ?j (with_entry rid m) p = Inr (m', q)" "kept p (with_entry rid m) q fl' m'"
        "length fl \<le> length fl'" "only_req rid (with_entry rid m) m'" "length (blocks_of m' rid) = length (blocks_of m rid)"
        "num_cached_block m' = num_cached_block m" "partial_hit_reqs m' = partial_hit_reqs m"
      unfolding blocks_of_with_entry with_entry_simps by blast
    have "only_req rid m m'" by (rule only_req_trans [OF _ R(4)]) simp
    then show ?thesis using R False kept_trans [OF K R(2)] by (auto simp: base_remove_skipped_blocks_def Let_def)
  qed
  show ?thesis
  proof (cases "(\<exists>w. mgr_type m = RSWASpec w) \<and> np \<noteq> None")
    case True
    then obtain w k where "mgr_type m = RSWASpec w" "np = Some k" by auto
    then show ?thesis using remove_range_kept [OF ok st refs no] by simp
  next
    case False
    then have "st_remove_skipped_blocks rid n np m p = base_remove_skipped_blocks rid n m p"
      by (auto split: spec_type.splits option.splits)
    with base show ?thesis by simp
  qed
qed


section \<open>Caching\<close>

lemma core_kept:
  assumes "pool_ok q fl" "core q = core p" "st_ok p m" "blocks_of m' = blocks_of m" "mgr_config m' = mgr_config m"
    "partial_hit_reqs m' = partial_hit_reqs m" "pending_cow_copies m' = pending_cow_copies m" "distinct (dkeys (req_to_blocks m'))"
    "\<And>b. mgr_refs m' b = mgr_refs m b"
  shows "kept p m q fl m'"
proof -
  note cf = core_pool_config [OF assms(2)]
  have "st_ok p m'" using assms(3-8) mgr_configD [OF assms(5)] by (simp add: st_ok_def)
  then show ?thesis using assms(1,5,9) cf st_ok_config [OF cf, of m'] core_block(1) [OF assms(2)] by (simp add: kept_def)
qed

lemma base_cache_kept:
  assumes ok: "pool_ok p fl" and st: "st_ok p m" and res: "base_cache_blocks env r n ret m p = Inr (r', m', q)"
  shows "kept p m q fl m' \<and> core q = core p \<and> blocks_of m' = blocks_of m \<and> partial_hit_reqs m' = partial_hit_reqs m"
proof (cases "dget_default (num_cached_block m) (request_id r) 0 \<ge> n div mgr_block_size m")
  case True
  then show ?thesis using res kept_refl [OF ok st] by (simp add: base_cache_blocks_def Let_def)
next
  case False
  let ?m1 = "with_entry (request_id r) m"
  from False res obtain msk where
    c: "cache_full_blocks env r (blocks_of m (request_id r)) (dget_default (num_cached_block m) (request_id r) 0) (n div mgr_block_size m)
          (mgr_block_size m) (mgr_group_id m) msk p = Inr (r', q)"
    and m': "m' = ?m1\<lparr>num_cached_block := dset (request_id r) (n div mgr_block_size m) (num_cached_block m)\<rparr>"
    by (auto simp: base_cache_blocks_def Let_def ebind_eq_Inr)
  note C = cache_full_blocks_preserves [OF ok st_okD(4) [OF st] c]
  have "kept p m q fl m'"
    by (rule core_kept [OF C st]) (use st_okD(3) [OF st] in \<open>auto simp: m' with_entry_refs\<close>)
  then show ?thesis using C(2) by (auto simp: m')
qed

lemma py_index_mem: "py_index xs i = Inr x \<Longrightarrow> x \<in> set xs"
  by (auto simp: py_index_def Let_def split: if_splits)

lemma cache_partial_kept:
  assumes ok: "pool_ok p fl" and st: "st_ok p m" and res: "cache_partial_tail_block env r n m p = Inr (r', m', q)"
  shows "kept p m q fl m' \<and> core q = core p \<and> blocks_of m' = blocks_of m \<and> partial_hit_reqs m' = partial_hit_reqs m"
proof -
  let ?bt = "num_prompt_tokens r div hash_block_size p * hash_block_size p" and ?m1 = "with_entry (request_id r) m"
  have "(m' = m \<and> q = p) \<or> (m' = ?m1 \<and> q = p) \<or>
      (\<exists>b k. b \<in> set (blocks_of m (request_id r)) \<and> m' = ?m1 \<and> cache_partial_block env r b ?bt (mgr_group_id m) (mgr_block_size m) p = Inr (k, r', q))"
    using res by (auto simp: cache_partial_tail_block_def Let_def dest: py_index_mem split: if_splits)
  then show ?thesis
  proof (elim disjE exE conjE)
    fix b k
    assume b: "b \<in> set (blocks_of m (request_id r))" "m' = ?m1" "cache_partial_block env r b ?bt (mgr_group_id m) (mgr_block_size m) p = Inr (k, r', q)"
    have "b \<in> insert (Blk 0) (real_blocks p)" using b(1) st_okD(4) [OF st, of "request_id r"] by blast
    note C = cache_partial_block_preserves [OF ok this b(3)]
    have "kept p m q fl m'" by (rule core_kept [OF C st]) (use st_okD(3) [OF st] in \<open>auto simp: b(2) with_entry_refs\<close>)
    then show ?thesis using C(2) b(2) by auto
  qed (use kept_refl [OF ok st] kept_with_entry [OF ok st] in auto)
qed

lemma cache_kept:
  assumes ok: "pool_ok p fl" and st: "st_ok p m" and res: "st_cache_blocks env r n ret m p = Inr (r', m', q)"
  shows "kept p m q fl m' \<and> core q = core p \<and> blocks_of m' = blocks_of m \<and> partial_hit_reqs m' = partial_hit_reqs m"
proof -
  have "base_cache_blocks env r n ret m p = Inr (r', m', q) \<or>
      (\<exists>r1 m1 p1. base_cache_blocks env r n ret m p = Inr (r1, m1, p1) \<and> cache_partial_tail_block env r1 n m1 p1 = Inr (r', m', q))"
    using res by (auto simp: st_cache_blocks_def split: manager_class.splits if_splits)
  then show ?thesis
  proof (elim disjE exE conjE)
    assume "base_cache_blocks env r n ret m p = Inr (r', m', q)"
    then show ?thesis by (rule base_cache_kept [OF ok st])
  next
    fix r1 m1 p1
    assume a: "base_cache_blocks env r n ret m p = Inr (r1, m1, p1)" "cache_partial_tail_block env r1 n m1 p1 = Inr (r', m', q)"
    note B = base_cache_kept [OF ok st a(1)]
    then have K: "kept p m p1 fl m1" by blast
    from cache_partial_kept [OF keptD(1,3) [OF K] a(2)] B show ?thesis using kept_trans [OF K] by auto
  qed
qed


section \<open>All managers\<close>

definition all_refs :: "st_manager list \<Rightarrow> bref \<Rightarrow> int" where
  "all_refs ms b = (\<Sum>m \<leftarrow> ms. mgr_refs m b)"

lemma all_refs_simps [simp]: "all_refs [] b = 0" "all_refs (m # ms) b = mgr_refs m b + all_refs ms b"
  by (simp_all add: all_refs_def)

lemma all_refs_nonneg: "0 \<le> all_refs ms b"
  by (induction ms) (auto simp: mgr_refs_nonneg)

definition all_ok :: "block_pool \<Rightarrow> st_manager list \<Rightarrow> bool" where
  "all_ok p ms \<longleftrightarrow> (\<forall>m \<in> set ms. st_ok p m) \<and> (\<forall>b \<in> real_blocks p. all_refs ms b \<le> ref_cnt (heap p b))"

definition kept_all :: "block_pool \<Rightarrow> st_manager list \<Rightarrow> block_pool \<Rightarrow> bref list \<Rightarrow> st_manager list \<Rightarrow> bool" where
  "kept_all p ms q fl ms' \<longleftrightarrow> pool_ok q fl \<and> pool_config q = pool_config p \<and> map mgr_config ms' = map mgr_config ms \<and>
     (\<forall>m \<in> set ms'. st_ok q m) \<and>
     (\<forall>b \<in> real_blocks p. ref_cnt (heap q b) - all_refs ms' b = ref_cnt (heap p b) - all_refs ms b)"

lemma kept_allD:
  assumes "kept_all p ms q fl ms'"
  shows "pool_ok q fl" "pool_config q = pool_config p" "map mgr_config ms' = map mgr_config ms" "length ms' = length ms"
    "b \<in> real_blocks p \<Longrightarrow> ref_cnt (heap q b) - all_refs ms' b = ref_cnt (heap p b) - all_refs ms b"
  using assms by (auto simp: kept_all_def dest: map_eq_imp_length_eq)

lemma kept_all_nth: "kept_all p ms q fl ms' \<Longrightarrow> i < length ms \<Longrightarrow> mgr_config (ms' ! i) = mgr_config (ms ! i)"
  using nth_map [of i ms mgr_config] nth_map [of i ms' mgr_config] kept_allD(3,4) [of p ms q fl ms'] by metis

lemma kept_all_ok: "all_ok p ms \<Longrightarrow> kept_all p ms q fl ms' \<Longrightarrow> all_ok q ms'"
  using config_eqs(5) [of q p] by (fastforce simp: all_ok_def kept_all_def)

lemma kept_all_trans: "kept_all p ms q fl ms1 \<Longrightarrow> kept_all q ms1 q' fl' ms' \<Longrightarrow> kept_all p ms q' fl' ms'"
  using config_eqs(5) [of q p] by (auto simp: kept_all_def)

lemma kept_all_refl: "pool_ok p fl \<Longrightarrow> all_ok p ms \<Longrightarrow> kept_all p ms p fl ms"
  by (simp add: kept_all_def all_ok_def)

text \<open>One manager acts, then the rest.\<close>

lemma all_ok_head:
  assumes "all_ok p (m # ms)"
  shows "st_ok p m" "b \<in> real_blocks p \<Longrightarrow> mgr_refs m b \<le> ref_cnt (heap p b)"
proof -
  show "st_ok p m" using assms by (simp add: all_ok_def)
  assume "b \<in> real_blocks p"
  then have "mgr_refs m b + all_refs ms b \<le> ref_cnt (heap p b)" using assms by (simp add: all_ok_def)
  then show "mgr_refs m b \<le> ref_cnt (heap p b)" using all_refs_nonneg [of ms b] by linarith
qed

lemma all_ok_tail:
  assumes a: "all_ok p (m # ms)" and k: "kept p m q fl m'"
  shows "all_ok q ms"
proof -
  note K = keptD [OF k]
  have "all_refs ms b \<le> ref_cnt (heap q b)" if "b \<in> real_blocks p" for b
  proof -
    have "mgr_refs m b + all_refs ms b \<le> ref_cnt (heap p b)" using a that by (simp add: all_ok_def)
    then show ?thesis using K(5) [OF that] mgr_refs_nonneg [of m' b] by linarith
  qed
  then show ?thesis using a config_eqs(5) [OF K(2)] st_ok_config [OF K(2)] by (simp add: all_ok_def)
qed

lemma kept_all_step:
  assumes k: "kept p m q fl m'" and r: "kept_all q ms q' fl' ms'"
  shows "kept_all p (m # ms) q' fl' (m' # ms')"
proof -
  note K = keptD [OF k] and R = kept_allD [OF r]
  have "st_ok q' m'" using K(3) st_ok_config [OF R(2)] by blast
  moreover have "ref_cnt (heap q' b) - all_refs (m' # ms') b = ref_cnt (heap p b) - all_refs (m # ms) b" if "b \<in> real_blocks p" for b
    using K(5) [OF that] R(5) [of b] that config_eqs(5) [OF K(2)] by simp
  ultimately show ?thesis using r K(2,4) by (auto simp: kept_all_def)
qed

lemma each_manager_kept:
  assumes step: "\<And>x m q gl. (x, m) \<in> set (zip xs ms) \<Longrightarrow> pool_ok q gl \<Longrightarrow> J gl \<Longrightarrow> st_ok q m \<Longrightarrow> pool_config q = pc \<Longrightarrow>
      (\<And>b. b \<in> real_blocks q \<Longrightarrow> mgr_refs m b \<le> ref_cnt (heap q b)) \<Longrightarrow> cost x m \<le> length gl \<Longrightarrow>
      \<exists>m' q' gl'. f x m q = Inr (m', q') \<and> kept q m q' gl' m' \<and> J gl' \<and> length gl \<le> length gl' + cost x m \<and> P x m m'"
    and "pool_ok p fl" "J fl" "all_ok p ms" "pool_config p = pc" "length xs = length ms" "(\<Sum>(x, m) \<leftarrow> zip xs ms. cost x m) \<le> length fl"
  shows "\<exists>ms' q fl'. each_manager f xs ms p = Inr (ms', q) \<and> kept_all p ms q fl' ms' \<and> J fl' \<and>
    length fl \<le> length fl' + (\<Sum>(x, m) \<leftarrow> zip xs ms. cost x m) \<and> list_all2 (\<lambda>(x, m). P x m) (zip xs ms) ms'"
  using assms
proof (induction f xs ms p arbitrary: fl rule: each_manager.induct)
  case (1 f x xs m ms p)
  note H = all_ok_head [OF "1.prems"(4)]
  have "cost x m \<le> length fl" using "1.prems"(7) by simp
  from "1.prems"(1) [OF _ "1.prems"(2,3) H(1) "1.prems"(5) H(2) this] obtain m' q gl where
    s: "f x m p = Inr (m', q)" "kept p m q gl m'" "J gl" "length fl \<le> length gl + cost x m" "P x m m'" by auto
  note K = keptD [OF s(2)]
  have "\<exists>ms' q' fl'. each_manager f xs ms q = Inr (ms', q') \<and> kept_all q ms q' fl' ms' \<and> J fl' \<and>
      length gl \<le> length fl' + (\<Sum>(x, m) \<leftarrow> zip xs ms. cost x m) \<and> list_all2 (\<lambda>(x, m). P x m) (zip xs ms) ms'"
  proof (rule "1.IH" [OF _ K(1) s(3) all_ok_tail [OF "1.prems"(4) s(2)]])
    show "pool_config q = pc" using K(2) "1.prems"(5) by simp
    show "length xs = length ms" "(\<Sum>(x, m) \<leftarrow> zip xs ms. cost x m) \<le> length gl" using "1.prems"(6,7) s(4) by auto
  qed (use "1.prems"(1) in \<open>auto\<close>)
  then obtain ms' q' fl' where e: "each_manager f xs ms q = Inr (ms', q')" "kept_all q ms q' fl' ms'" "J fl'"
    "length gl \<le> length fl' + (\<Sum>(x, m) \<leftarrow> zip xs ms. cost x m)" "list_all2 (\<lambda>(x, m). P x m) (zip xs ms) ms'" by blast
  show ?case using s e kept_all_step [OF s(2) e(2)] by auto
qed (use kept_all_refl in auto)

end
