(* ===== verification/Manager_Allocation.thy ===== *)
theory Manager_Allocation
  imports Manager_Invariant
begin

text \<open>
  The allocation of the slots of a request across all groups: the number of blocks \<^verbatim>\<open>get_num_blocks_to_allocate\<close> predicts is enough for the
  steps of \<^verbatim>\<open>allocate_slots\<close> that follow, so none of them raises.
\<close>

section \<open>Loops over the managers\<close>

lemma allocate_each_kept:
  assumes "pool_ok p fl" "all_ok p ms"
    "(\<Sum>m \<leftarrow> ms. cow_cost m rid + new_cost m rid (if is_cross m then ne else n)) \<le> length fl"
  shows "\<exists>new ms' q fl'. allocate_each rid n ne ms p = Inr (new, ms', q) \<and> kept_all p ms q fl' ms' \<and>
    length fl \<le> length fl' + (\<Sum>m \<leftarrow> ms. cow_cost m rid + new_cost m rid (if is_cross m then ne else n)) \<and>
    list_all2 (\<lambda>m m'. int (length (blocks_of m' rid)) = max (int (length (blocks_of m rid))) (cdiv (if is_cross m then ne else n) (mgr_block_size m)) \<and>
      dget (partial_hit_reqs m') rid = None \<and> only_req rid m m' \<and> num_cached_block m' = num_cached_block m) ms ms'"
  using assms
proof (induction ms arbitrary: p fl)
  case Nil
  then show ?case using kept_all_refl by auto
next
  case (Cons m ms)
  note H = all_ok_head [OF Cons.prems(2)]
  let ?c = "\<lambda>m. cow_cost m rid + new_cost m rid (if is_cross m then ne else n)"
  have "?c m \<le> length fl" using Cons.prems(3) by simp
  from alloc_new_kept [OF Cons.prems(1) H(1) H(2) this] obtain new m' q where
    s: "st_allocate_new_blocks rid (if is_cross m then ne else n) m p = Inr (new, m', q)" "kept p m q (drop (?c m) fl) m'"
      "int (length (blocks_of m' rid)) = max (int (length (blocks_of m rid))) (cdiv (if is_cross m then ne else n) (mgr_block_size m))"
      "dget (partial_hit_reqs m') rid = None" "only_req rid m m'" "num_cached_block m' = num_cached_block m" by blast
  have "(\<Sum>m \<leftarrow> ms. ?c m) \<le> length (drop (?c m) fl)" using Cons.prems(3) by simp
  from Cons.IH [OF keptD(1) [OF s(2)] all_ok_tail [OF Cons.prems(2) s(2)] this] obtain news ms' q' fl' where
    e: "allocate_each rid n ne ms q = Inr (news, ms', q')" "kept_all q ms q' fl' ms'" "length (drop (?c m) fl) \<le> length fl' + (\<Sum>m \<leftarrow> ms. ?c m)"
      "list_all2 (\<lambda>m m'. int (length (blocks_of m' rid)) = max (int (length (blocks_of m rid))) (cdiv (if is_cross m then ne else n) (mgr_block_size m)) \<and>
        dget (partial_hit_reqs m') rid = None \<and> only_req rid m m' \<and> num_cached_block m' = num_cached_block m) ms ms'" by blast
  show ?case
    by (rule exI [of _ "new # news"], rule exI [of _ "m' # ms'"], rule exI [of _ q'], rule exI [of _ fl'])
      (use s e kept_all_step [OF s(2) e(2)] in simp)
qed

lemma cache_each_kept:
  assumes "pool_ok p fl" "all_ok p ms" "cache_each env ret cnt ms r p = Inr (r', ms', q)"
  shows "kept_all p ms q fl ms' \<and> core q = core p \<and> map blocks_of ms' = map blocks_of ms \<and> map partial_hit_reqs ms' = map partial_hit_reqs ms"
  using assms
proof (induction ms arbitrary: p r ms')
  case Nil
  then show ?case using kept_all_refl by auto
next
  case (Cons m ms)
  from Cons.prems(3) obtain r1 m1 p1 ms1 where
    s: "st_cache_blocks env r (cnt m) ret m p = Inr (r1, m1, p1)" "cache_each env ret cnt ms r1 p1 = Inr (r', ms1, q)" "ms' = m1 # ms1" by auto
  from cache_kept [OF Cons.prems(1) all_ok_head(1) [OF Cons.prems(2)] s(1)]
  have k: "kept p m p1 fl m1" "core p1 = core p" "blocks_of m1 = blocks_of m" "partial_hit_reqs m1 = partial_hit_reqs m" by auto
  from Cons.IH [OF keptD(1) [OF k(1)] all_ok_tail [OF Cons.prems(2) k(1)] s(2)] k kept_all_step [OF k(1)] s(3) show ?case by auto
qed


text \<open>The indices of \<^verbatim>\<open>enumerate(self.single_type_managers)\<close>.\<close>

abbreviation idxs :: "'a list \<Rightarrow> int list" where
  "idxs ms \<equiv> [0..int (length ms) - 1]"

lemma idxs_nth: "i < length ms \<Longrightarrow> idxs ms ! i = int i"
  by (simp add: nth_upto)

text \<open>
  An operation on every manager in turn: what holds of each of them, with the free blocks it may use, holds of the whole loop.
\<close>

lemma managers_kept:
  assumes step: "\<And>i q gl. i < length ms \<Longrightarrow> pool_ok q gl \<Longrightarrow> J gl \<Longrightarrow> st_ok q (ms ! i) \<Longrightarrow> pool_config q = pool_config p \<Longrightarrow>
      (\<And>b. b \<in> real_blocks q \<Longrightarrow> mgr_refs (ms ! i) b \<le> ref_cnt (heap q b)) \<Longrightarrow> cost i \<le> length gl \<Longrightarrow>
      \<exists>m' q' gl'. f (xs ! i) (ms ! i) q = Inr (m', q') \<and> kept q (ms ! i) q' gl' m' \<and> J gl' \<and> length gl \<le> length gl' + cost i \<and> P i m'"
    and ok: "pool_ok p fl" and J: "J fl" and all: "all_ok p ms" and len: "length xs = length ms" and c: "(\<Sum>i < length ms. cost i) \<le> length fl"
  shows "\<exists>ms' q fl'. each_manager f xs ms p = Inr (ms', q) \<and> kept_all p ms q fl' ms' \<and> J fl' \<and>
    length fl \<le> length fl' + (\<Sum>i < length ms. cost i) \<and> (\<forall>i < length ms. P i (ms' ! i))"
proof -
  define ys where "ys = zip [0..<length ms] xs"
  let ?g = "\<lambda>(i, x). f x"
  have map: "each_manager f xs ms p = each_manager ?g ys ms p"
  proof -
    have "each_manager ?g (zip js xs) ms p = each_manager f xs ms p" if "length js = length xs" "length xs = length ms" for js xs ms p
      using that by (induction js xs arbitrary: ms p rule: list_induct2) (auto simp: length_Suc_conv Suc_length_conv)
    from this [of "[0..<length ms]" xs ms p] len show ?thesis by (simp add: ys_def)
  qed
  have zs: "zip ys ms = map (\<lambda>i. ((i, xs ! i), ms ! i)) [0..<length ms]" using len by (auto simp: ys_def intro: nth_equalityI)
  have sum: "(\<Sum>(y, m) \<leftarrow> zip ys ms. cost (fst y)) = (\<Sum>i < length ms. cost i)"
    unfolding zs by (simp add: o_def interv_sum_list_conv_sum_set_nat atLeast0LessThan)
  have "\<exists>ms' q fl'. each_manager ?g ys ms p = Inr (ms', q) \<and> kept_all p ms q fl' ms' \<and> J fl' \<and>
      length fl \<le> length fl' + (\<Sum>(y, m) \<leftarrow> zip ys ms. cost (fst y)) \<and> list_all2 (\<lambda>(y, m). P (fst y)) (zip ys ms) ms'"
  proof (rule each_manager_kept [where J = J and pc = "pool_config p", OF _ ok J all refl])
    show "length ys = length ms" using len by (simp add: ys_def)
    show "(\<Sum>(y, m) \<leftarrow> zip ys ms. cost (fst y)) \<le> length fl" using c sum by simp
  next
    fix y m q gl
    assume "(y, m) \<in> set (zip ys ms)" and q: "pool_ok q gl" "J gl" "st_ok q m" "pool_config q = pool_config p"
      "\<And>b. b \<in> real_blocks q \<Longrightarrow> mgr_refs m b \<le> ref_cnt (heap q b)" "cost (fst y) \<le> length gl"
    then obtain i where i: "i < length ms" "y = (i, xs ! i)" "m = ms ! i" unfolding zs by auto
    show "\<exists>m' q' gl'. ?g y m q = Inr (m', q') \<and> kept q m q' gl' m' \<and> J gl' \<and> length gl \<le> length gl' + cost (fst y) \<and> P (fst y) m'"
      using step [OF i(1) q(1,2)] q(3-6) i by simp
  qed
  then obtain ms' q fl' where e: "each_manager ?g ys ms p = Inr (ms', q)" "kept_all p ms q fl' ms'" "J fl'"
      "length fl \<le> length fl' + (\<Sum>(y, m) \<leftarrow> zip ys ms. cost (fst y))" "list_all2 (\<lambda>(y, m). P (fst y)) (zip ys ms) ms'" by blast
  have "P i (ms' ! i)" if "i < length ms" for i using e(5) that unfolding zs by (simp add: list_all2_conv_all_nth)
  then show ?thesis using e(1-4) map sum by auto
qed

lemma list_sum: "(\<Sum>m \<leftarrow> ms. c m) = (\<Sum>i < length ms. c (ms ! i) :: nat)"
  by (simp add: sum_list_sum_nth atLeast0LessThan)


section \<open>Prefix hits of a new request\<close>

definition fresh_call :: "block_pool \<Rightarrow> st_manager list \<Rightarrow> string \<Rightarrow> int \<Rightarrow> int \<Rightarrow> bref list list \<Rightarrow> bool" where
  "fresh_call p ms rid nlocal next nb \<longleftrightarrow> 0 \<le> nlocal \<and> 0 \<le> next \<and> length nb = length ms \<and>
     (\<forall>i < length ms. hit_ok p (ms ! i) nlocal (nb ! i)) \<and>
     (\<forall>m \<in> set ms. blocks_of m rid = [] \<and> dget (num_cached_block m) rid = None \<and> dget (partial_hit_reqs m) rid = None)"

lemma filter_length_mono: "(\<And>x. P x \<Longrightarrow> Q x) \<Longrightarrow> length (filter P xs) \<le> length (filter Q xs)"
  by (induction xs) auto

definition local_cost :: "bref set \<Rightarrow> int \<Rightarrow> st_manager \<Rightarrow> bref list \<Rightarrow> nat" where
  "local_cost F ntotal m bl = (if is_cross m then 0 else length (filter (\<lambda>b. b \<in> F) (drop (num_skipped m ntotal) bl)))"

lemma hit_ok_config: "pool_config q = pool_config p \<Longrightarrow> hit_ok q m n bl = hit_ok p m n bl"
  using config_eqs(5) [of q p] by (simp add: hit_ok_def)

lemma local_phase:
  assumes ok: "pool_ok p fl" and all: "all_ok p ms" and f: "fresh_call p ms rid nlocal next nb"
    and c: "(\<Sum>i < length ms. local_cost (set fl) (nlocal + next) (ms ! i) (nb ! i)) \<le> length fl"
  shows "\<exists>ms' q fl'. each_manager (\<lambda>i m p. ebind (py_index nb i) (\<lambda>bl. add_local_computed_blocks rid bl nlocal next m p)) (idxs ms) ms p = Inr (ms', q) \<and>
    kept_all p ms q fl' ms' \<and> set fl' \<subseteq> set fl \<and>
    length fl \<le> length fl' + (\<Sum>i < length ms. local_cost (set fl) (nlocal + next) (ms ! i) (nb ! i)) \<and>
    (\<forall>i < length ms. only_req rid (ms ! i) (ms' ! i) \<and>
       length (blocks_of (ms' ! i) rid) = (if is_cross (ms ! i) then 0 else max (num_skipped (ms ! i) (nlocal + next)) (length (nb ! i))) \<and>
       cow_cost (ms' ! i) rid \<le> (if has_partial_local_hit (ms ! i) (nb ! i) nlocal then 1 else 0))"
proof (rule managers_kept [OF _ ok _ all])
  have F: "0 \<le> nlocal" "0 \<le> next" "length nb = length ms" "\<And>i. i < length ms \<Longrightarrow> hit_ok p (ms ! i) nlocal (nb ! i)"
    "\<And>m. m \<in> set ms \<Longrightarrow> blocks_of m rid = [] \<and> dget (num_cached_block m) rid = None \<and> dget (partial_hit_reqs m) rid = None"
    using f by (auto simp: fresh_call_def)
  fix i q gl
  assume i: "i < length ms" and q: "pool_ok q gl" "set gl \<subseteq> set fl" "st_ok q (ms ! i)" "pool_config q = pool_config p"
  let ?m = "ms ! i" and ?bl = "nb ! i"
  have ix: "py_index nb (idxs ms ! i) = Inr ?bl" using i F(3) idxs_nth [OF i] by simp
  have e: "blocks_of ?m rid = []" "dget (partial_hit_reqs ?m) rid = None" using F(5) i by auto
  have h: "hit_ok q ?m nlocal ?bl" using F(4) [OF i] hit_ok_config [OF q(4)] by simp
  show "\<exists>m' q' gl'. ebind (py_index nb (idxs ms ! i)) (\<lambda>bl. add_local_computed_blocks rid bl nlocal next ?m q) = Inr (m', q') \<and>
      kept q ?m q' gl' m' \<and> set gl' \<subseteq> set fl \<and> length gl \<le> length gl' + local_cost (set fl) (nlocal + next) ?m ?bl \<and> only_req rid ?m m' \<and>
      length (blocks_of m' rid) = (if is_cross ?m then 0 else max (num_skipped ?m (nlocal + next)) (length ?bl)) \<and>
      cow_cost m' rid \<le> (if has_partial_local_hit ?m ?bl nlocal then 1 else 0)"
  proof (cases "is_cross ?m")
    case True
    then have "?bl = []" using h by (simp add: hit_ok_def)
    then show ?thesis using True ix kept_refl [OF q(1,3)] q(2) e
      by (auto simp: add_local_computed_blocks_def is_cross_def cow_cost_def)
  next
    case False
    let ?k = "num_skipped ?m (nlocal + next)"
    let ?gl = "filter (\<lambda>c. c \<notin> set (drop ?k ?bl)) gl"
    from add_local_kept [OF q(1,3) F(1,2) h e False] obtain m' q' where
      a: "add_local_computed_blocks rid ?bl nlocal next ?m q = Inr (m', q')" "kept q ?m q' ?gl m'"
        "blocks_of m' rid = replicate ?k (Blk 0) @ drop ?k ?bl" "only_req rid ?m m'"
        "cow_cost m' rid = (if has_partial_local_hit ?m (drop ?k ?bl) nlocal then 1 else 0)" by blast
    have "length (filter (\<lambda>b. b \<in> set gl) (drop ?k ?bl)) \<le> length (filter (\<lambda>b. b \<in> set fl) (drop ?k ?bl))"
      using q(2) by (intro filter_length_mono) auto
    then have "length gl \<le> length ?gl + local_cost (set fl) (nlocal + next) ?m ?bl"
      using touch_cost [OF pool_okD(6) [OF q(1)], of "drop ?k ?bl"] False by (simp add: local_cost_def)
    then show ?thesis using a ix q(2) False
      by (intro exI [of _ m'] exI [of _ q'] exI [of _ ?gl]) (auto simp: has_partial_local_hit_def)
  qed
qed (use c in simp_all)

lemma external_phase:
  assumes ok: "pool_ok p fl" and all: "all_ok p ms" and n: "0 \<le> nlocal" "0 \<le> next"
    and len: "\<And>m. m \<in> set ms \<Longrightarrow> is_cross m \<or> int (length (blocks_of m rid)) \<le> cdiv (nlocal + next) (mgr_block_size m)"
    and c: "(\<Sum>i < length ms. ext_cost (ms ! i) rid nlocal next) \<le> length fl"
  shows "\<exists>ms' q fl'. each_manager (\<lambda>_ m p. allocate_external_computed_blocks rid nlocal next m p) (idxs ms) ms p = Inr (ms', q) \<and>
    kept_all p ms q fl' ms' \<and> True \<and> length fl \<le> length fl' + (\<Sum>i < length ms. ext_cost (ms ! i) rid nlocal next) \<and>
    (\<forall>i < length ms. only_req rid (ms ! i) (ms' ! i) \<and>
       length (blocks_of (ms' ! i) rid) = length (blocks_of (ms ! i) rid) + ext_cost (ms ! i) rid nlocal next \<and>
       cow_cost (ms' ! i) rid = cow_cost (ms ! i) rid)"
proof (rule managers_kept [OF _ ok _ all])
  fix i q gl
  assume i: "i < length ms" and q: "pool_ok q gl" "st_ok q (ms ! i)" "ext_cost (ms ! i) rid nlocal next \<le> length gl"
  let ?m = "ms ! i" and ?c = "ext_cost (ms ! i) rid nlocal next"
  from external_kept [OF q(1,2) n len [OF nth_mem [OF i]] q(3)] obtain m' q' where
    "allocate_external_computed_blocks rid nlocal next ?m q = Inr (m', q')" "kept q ?m q' (drop ?c gl) m'"
    "length (blocks_of m' rid) = length (blocks_of ?m rid) + ?c" "only_req rid ?m m'" "cow_cost m' rid = cow_cost ?m rid"
    by (auto simp: cow_cost_def)
  then show "\<exists>m' q' gl'. allocate_external_computed_blocks rid nlocal next ?m q = Inr (m', q') \<and> kept q ?m q' gl' m' \<and> True \<and>
      length gl \<le> length gl' + ?c \<and> only_req rid ?m m' \<and> length (blocks_of m' rid) = length (blocks_of ?m rid) + ?c \<and>
      cow_cost m' rid = cow_cost ?m rid"
    by (intro exI [of _ m'] exI [of _ q'] exI [of _ "drop ?c gl"]) simp
qed (use c in simp_all)


section \<open>The prediction\<close>

text \<open>What \<^verbatim>\<open>get_num_blocks_to_allocate\<close> adds up.\<close>

definition group_need :: "block_pool \<Rightarrow> string \<Rightarrow> int \<Rightarrow> bref list list \<Rightarrow> int \<Rightarrow> int \<Rightarrow> int \<Rightarrow> bool \<Rightarrow> nat \<Rightarrow> st_manager \<Rightarrow> int result" where
  "group_need p rid n nb nenc ntotal nlocal cap i m =
     (if is_cross m then st_get_num_blocks_to_allocate m p rid nenc [] 0 0 cap
      else ebind (py_index nb (int i)) (\<lambda>bl. st_get_num_blocks_to_allocate m p rid n bl ntotal nlocal cap))"

lemma enumerate_sum:
  assumes "\<And>i. i < length ms \<Longrightarrow> g (j + i) (ms ! i) = Inr (k (j + i))"
  shows "efold (\<lambda>(i, m) n. ebind (g i m) (\<lambda>k. Inr (n + k))) (List.enumerate j ms) a = Inr (a + (\<Sum>i < length ms. k (j + i)) :: int)"
  using assms
proof (induction ms arbitrary: j a)
  case (Cons m ms)
  have "g j m = Inr (k j)" using Cons.prems [of 0] by simp
  moreover have "g (Suc j + i) (ms ! i) = Inr (k (Suc j + i))" if "i < length ms" for i using Cons.prems [of "Suc i"] that by simp
  from Cons.IH [OF this] have "efold (\<lambda>(i, m) n. ebind (g i m) (\<lambda>k. Inr (n + k))) (List.enumerate (Suc j) ms) (a + k j) =
    Inr (a + k j + (\<Sum>i < length ms. k (Suc j + i)))" .
  ultimately show ?case by (simp add: sum.lessThan_Suc_shift del: sum.lessThan_Suc)
qed simp

lemma need_sum:
  assumes "\<And>i. i < length (single_type_managers co) \<Longrightarrow>
      group_need (block_pool co) rid n nb nenc ntotal nlocal cap i (single_type_managers co ! i) = Inr (k i)"
  shows "get_num_blocks_to_allocate co rid n nb nenc ntotal nlocal cap = Inr (\<Sum>i < length (single_type_managers co). k i)"
  using enumerate_sum [of "single_type_managers co" "group_need (block_pool co) rid n nb nenc ntotal nlocal cap" 0 k 0] assms
  by (simp add: get_num_blocks_to_allocate_def group_need_def)

lemma evictable_free:
  assumes "pool_ok p fl" "set bl \<subseteq> insert (Blk 0) (real_blocks p)"
  shows "get_num_evictable_blocks p bl = int (length (filter (\<lambda>b. b \<in> set fl) bl))"
proof -
  note D = pool_okD [OF assms(1)]
  have "ref_cnt (heap p b) = 0 \<and> \<not> is_null (heap p b) \<longleftrightarrow> b \<in> set fl" if "b \<in> set bl" for b
    using that assms(2) D(5) D(8) [of b] null_block_iff [OF D(1), of b] by blast
  then show ?thesis by (simp add: get_num_evictable_blocks_def cong: filter_cong)
qed

lemma hit_length_le:
  assumes st: "st_ok p m" and h: "hit_ok p m nlocal bl" and n: "0 \<le> nlocal" "0 \<le> next" and nc: "\<not> is_cross m"
  shows "int (num_skipped m (nlocal + next)) \<le> cdiv (nlocal + next) (mgr_block_size m)" "int (length bl) \<le> cdiv (nlocal + next) (mgr_block_size m)"
    "get_num_skipped_tokens (mgr_type m) (nlocal + next) div mgr_block_size m = int (num_skipped m (nlocal + next))"
proof -
  note S = st_okD [OF st]
  let ?bs = "mgr_block_size m" and ?s = "get_num_skipped_tokens (mgr_type m) (nlocal + next)"
  have sk: "0 \<le> ?s" "?s \<le> nlocal + next" using skipped_bounds [OF S(2), of "nlocal + next"] n by auto
  show k: "?s div ?bs = int (num_skipped m (nlocal + next))" using sk(1) S(1) by (simp add: num_skipped_def pos_imp_zdiv_nonneg_iff)
  have "?s div ?bs \<le> (nlocal + next) div ?bs" using sk(2) S(1) by (simp add: zdiv_mono1)
  then show "int (num_skipped m (nlocal + next)) \<le> cdiv (nlocal + next) ?bs" using k div_le_cdiv [OF S(1), of "nlocal + next"] by simp
  show "int (length bl) \<le> cdiv (nlocal + next) ?bs" using h nc cdiv_mono [OF S(1), of nlocal "nlocal + next"] n by (simp add: hit_ok_def)
qed

text \<open>
  The need of a new request: what taking over the hits, the external tokens and the new tokens cost the free list. \<open>m1\<close> and \<open>m2\<close> are
  the manager after the first and the second of these.
\<close>

lemma fresh_need:
  assumes ok: "pool_ok p fl" and st: "st_ok p m" and h: "hit_ok p m nlocal bl" and n: "0 \<le> nlocal" "0 \<le> next" "nlocal + next \<le> n"
    and e: "blocks_of m rid = []" "dget (num_cached_block m) rid = None"
    and ix: "py_index nb (int i) = Inr bl"
    and m1: "mgr_config m1 = mgr_config m" "length (blocks_of m1 rid) = (if is_cross m then 0 else max (num_skipped m (nlocal + next)) (length bl))"
    and m2: "mgr_config m2 = mgr_config m" "length (blocks_of m2 rid) = length (blocks_of m1 rid) + ext_cost m1 rid nlocal next"
      "cow_cost m2 rid \<le> (if has_partial_local_hit m bl nlocal then 1 else 0)"
  shows "\<exists>k. group_need p rid n nb nenc (nlocal + next) nlocal False i m = Inr k \<and>
    int (local_cost (set fl) (nlocal + next) m bl + ext_cost m1 rid nlocal next + (cow_cost m2 rid + new_cost m2 rid (if is_cross m then nenc else n))) \<le> k"
proof (cases "is_cross m")
  case True
  have "mgr_type m = CrossAttentionSpec" using True by (cases "mgr_type m") (auto simp: is_cross_def)
  moreover have "bl = []" using h True by (simp add: hit_ok_def)
  ultimately show ?thesis using True e m1 m2 mgr_configD [OF m1(1)] mgr_configD [OF m2(1)]
    by (simp add: group_need_def st_get_num_blocks_to_allocate_def local_cost_def ext_cost_def new_cost_def has_partial_local_hit_def
        get_num_evictable_blocks_def)
next
  case False
  note S = st_okD [OF st] and c1 = mgr_configD [OF m1(1)] and c2 = mgr_configD [OF m2(1)]
  let ?bs = "mgr_block_size m" and ?k = "num_skipped m (nlocal + next)"
  define T R where "T = cdiv (nlocal + next) ?bs" and "R = cdiv n ?bs"
  have H: "set bl \<subseteq> insert (Blk 0) (real_blocks p)" using h False by (auto simp: hit_ok_def)
  have R: "T \<le> R" unfolding T_def R_def using cdiv_mono [OF S(1)] n by auto
  note L = hit_length_le [OF st h n(1,2) False, folded T_def]
  note k = L(3)
  have ev: "get_num_evictable_blocks p (drop ?k bl) = int (local_cost (set fl) (nlocal + next) m bl)"
    using evictable_free [OF ok, of "drop ?k bl"] H set_drop_subset [of ?k bl] False by (auto simp: local_cost_def)
  define M where "M = max (int ?k) (int (length bl))"
  have val: "group_need p rid n nb nenc (nlocal + next) nlocal False i m =
      Inr (R - M + (if has_partial_local_hit m bl nlocal then 1 else 0) + int (local_cost (set fl) (nlocal + next) m bl))"
    using False ix e k ev L R by (simp add: group_need_def st_get_num_blocks_to_allocate_def Let_def R_def [symmetric] M_def)
  have "int (length (blocks_of m1 rid)) = M" using m1(2) False by (simp add: M_def)
  moreover have "ext_cost m1 rid nlocal next = 0 \<or> ext_cost m1 rid nlocal next = nat (T - int (length (blocks_of m1 rid)))"
    using c1 by (simp add: ext_cost_def T_def)
  moreover have "new_cost m2 rid n = nat (R - int (length (blocks_of m2 rid)))" using c2 by (simp add: new_cost_def R_def)
  moreover have "M \<le> T" using L by (simp add: M_def)
  ultimately have "int (ext_cost m1 rid nlocal next + new_cost m2 rid n) = R - M" using m2(2) R by auto
  then show ?thesis using val m2(3) False by (simp split: if_splits)
qed

lemma running_need:
  assumes st: "st_ok p m" and n: "0 \<le> nlocal"
    and len: "is_cross m \<or> cdiv nlocal (mgr_block_size m) \<le> int (length (blocks_of m rid))" and ix: "py_index nb (int i) = Inr []"
  shows "group_need p rid n nb nenc nlocal nlocal False i m = Inr (int (new_cost m rid (if is_cross m then nenc else n)))"
proof (cases "is_cross m")
  case True
  have "mgr_type m = CrossAttentionSpec" using True by (cases "mgr_type m") (auto simp: is_cross_def)
  then show ?thesis using True
    by (simp add: group_need_def st_get_num_blocks_to_allocate_def new_cost_def has_partial_local_hit_def get_num_evictable_blocks_def Let_def)
next
  case False
  note S = st_okD [OF st]
  let ?s = "get_num_skipped_tokens (mgr_type m) nlocal"
  have sk: "0 \<le> ?s" "?s \<le> nlocal" using skipped_bounds [OF S(2) n] by auto
  then have "?s div mgr_block_size m \<le> int (length (blocks_of m rid))"
    using len False div_le_cdiv [OF S(1), of nlocal] zdiv_mono1 [OF sk(2) S(1)] by linarith
  then show ?thesis using False ix sk S(1)
    by (simp add: group_need_def st_get_num_blocks_to_allocate_def new_cost_def has_partial_local_hit_def get_num_evictable_blocks_def Let_def)
qed


section \<open>Allocation for a new request\<close>

text \<open>A stand-in for the manager after a phase, of which only the length of the table matters.\<close>

abbreviation table_of_length :: "string \<Rightarrow> nat \<Rightarrow> st_manager \<Rightarrow> st_manager" where
  "table_of_length rid n m \<equiv> set_blocks rid (replicate n (Blk 0)) m"

lemma cow_cost_set [simp]: "cow_cost (set_blocks rid' bs m) rid = cow_cost m rid"
  by (simp add: cow_cost_def)

lemma fresh_need_ext:
  assumes "pool_ok p fl" "all_ok p ms" "fresh_call p ms rid nlocal next nb" "nlocal + next \<le> n" "i < length ms"
    "mgr_config m1 = mgr_config (ms ! i)"
    "length (blocks_of m1 rid) = (if is_cross (ms ! i) then 0 else max (num_skipped (ms ! i) (nlocal + next)) (length (nb ! i)))"
  shows "\<exists>k. group_need p rid n nb nenc (nlocal + next) nlocal False i (ms ! i) = Inr k \<and>
    int (local_cost (set fl) (nlocal + next) (ms ! i) (nb ! i) + ext_cost m1 rid nlocal next) \<le> k"
proof -
  let ?m = "ms ! i"
  have F: "hit_ok p ?m nlocal (nb ! i)" "0 \<le> nlocal" "0 \<le> next" "blocks_of ?m rid = []" "dget (num_cached_block ?m) rid = None"
    "py_index nb (int i) = Inr (nb ! i)" "cow_cost ?m rid = 0" "st_ok p ?m"
    using assms(2,3,5) by (auto simp: fresh_call_def all_ok_def cow_cost_def)
  from fresh_need [OF assms(1) F(8,1,2,3) assms(4) F(4,5,6) assms(6,7), of "table_of_length rid (length (blocks_of m1 rid) + ext_cost m1 rid nlocal next) ?m" nenc] F(7)
  show ?thesis by auto
qed

lemma fresh_need_all:
  assumes "pool_ok p fl" "all_ok p ms" "fresh_call p ms rid nlocal next nb" "nlocal + next \<le> n"
  shows "\<exists>k. \<forall>i < length ms. group_need p rid n nb nenc (nlocal + next) nlocal False i (ms ! i) = Inr (k i) \<and>
    int (local_cost (set fl) (nlocal + next) (ms ! i) (nb ! i)) \<le> k i"
proof -
  have "\<forall>i. \<exists>k. i < length ms \<longrightarrow> group_need p rid n nb nenc (nlocal + next) nlocal False i (ms ! i) = Inr k \<and>
    int (local_cost (set fl) (nlocal + next) (ms ! i) (nb ! i)) \<le> k"
  proof
    fix i
    let ?m1 = "table_of_length rid (if is_cross (ms ! i) then 0 else max (num_skipped (ms ! i) (nlocal + next)) (length (nb ! i))) (ms ! i)"
    show "\<exists>k. i < length ms \<longrightarrow> group_need p rid n nb nenc (nlocal + next) nlocal False i (ms ! i) = Inr k \<and>
      int (local_cost (set fl) (nlocal + next) (ms ! i) (nb ! i)) \<le> k"
      using fresh_need_ext [OF assms, of i ?m1 nenc] by fastforce
  qed
  then show ?thesis by (rule choice)
qed

lemma external_phase_if:
  assumes ok: "pool_ok p fl" and all: "all_ok p ms" and n: "0 \<le> nlocal" "0 \<le> next"
    and len: "\<And>m. m \<in> set ms \<Longrightarrow> is_cross m \<or> int (length (blocks_of m rid)) \<le> cdiv (nlocal + next) (mgr_block_size m)"
    and c: "(\<Sum>i < length ms. ext_cost (ms ! i) rid nlocal next) \<le> length fl"
  shows "\<exists>ms' q fl'. (if next > 0 then each_manager (\<lambda>_ m p. allocate_external_computed_blocks rid nlocal next m p) (idxs ms) ms p else Inr (ms, p)) = Inr (ms', q) \<and>
    kept_all p ms q fl' ms' \<and> length fl \<le> length fl' + (\<Sum>i < length ms. ext_cost (ms ! i) rid nlocal next) \<and>
    (\<forall>i < length ms. only_req rid (ms ! i) (ms' ! i) \<and>
       length (blocks_of (ms' ! i) rid) = length (blocks_of (ms ! i) rid) + ext_cost (ms ! i) rid nlocal next \<and>
       cow_cost (ms' ! i) rid = cow_cost (ms ! i) rid)"
proof (cases "next > 0")
  case True
  then show ?thesis using external_phase [OF ok all n len c] by simp
next
  case False
  then have "ext_cost m rid nlocal next = 0" for m by (simp add: ext_cost_def)
  then show ?thesis using False kept_all_refl [OF ok all] by auto
qed

definition computed_phase :: "string \<Rightarrow> bref list list \<Rightarrow> int \<Rightarrow> int \<Rightarrow> st_manager list \<Rightarrow> block_pool \<Rightarrow> (st_manager list \<times> block_pool) result" where
  "computed_phase rid nb nlocal next ms p =
     ebind (each_manager (\<lambda>i m p. ebind (py_index nb i) (\<lambda>bl. add_local_computed_blocks rid bl nlocal next m p)) (idxs ms) ms p) (\<lambda>(ms1, p1).
     if next > 0 then each_manager (\<lambda>_ m p. allocate_external_computed_blocks rid nlocal next m p) (idxs ms) ms1 p1 else Inr (ms1, p1))"

lemma computed_phase_kept:
  assumes ok: "pool_ok p fl" and all: "all_ok p ms" and f: "fresh_call p ms rid nlocal next nb" and n: "nlocal + next \<le> n"
    and k: "\<And>i. i < length ms \<Longrightarrow> group_need p rid n nb nenc (nlocal + next) nlocal False i (ms ! i) = Inr (k i)"
    and sum: "(\<Sum>i < length ms. k i) \<le> int (length fl)"
  shows "\<exists>ms2 q fl'. computed_phase rid nb nlocal next ms p = Inr (ms2, q) \<and> kept_all p ms q fl' ms2 \<and>
    int (length fl) + (\<Sum>i < length ms. int (cow_cost (ms2 ! i) rid + new_cost (ms2 ! i) rid (if is_cross (ms ! i) then nenc else n)))
      \<le> int (length fl') + (\<Sum>i < length ms. k i) \<and>
    (\<forall>i < length ms. only_req rid (ms ! i) (ms2 ! i))"
proof -
  let ?loc = "\<lambda>i. local_cost (set fl) (nlocal + next) (ms ! i) (nb ! i)"
  have F: "0 \<le> nlocal" "0 \<le> next" using f by (auto simp: fresh_call_def)
  from fresh_need_all [OF ok all f n, of nenc] k have loc: "int (?loc i) \<le> k i" if "i < length ms" for i using that by force
  have "(\<Sum>i < length ms. int (?loc i)) \<le> (\<Sum>i < length ms. k i)" by (rule sum_mono) (use loc in auto)
  then have "(\<Sum>i < length ms. ?loc i) \<le> length fl" using sum by (simp flip: of_nat_sum)
  from local_phase [OF ok all f this] obtain ms1 q1 fl1 where
    p1: "each_manager (\<lambda>i m p. ebind (py_index nb i) (\<lambda>bl. add_local_computed_blocks rid bl nlocal next m p)) (idxs ms) ms p = Inr (ms1, q1)"
      "kept_all p ms q1 fl1 ms1" "length fl \<le> length fl1 + (\<Sum>i < length ms. ?loc i)"
      "\<forall>i < length ms. only_req rid (ms ! i) (ms1 ! i) \<and>
         length (blocks_of (ms1 ! i) rid) = (if is_cross (ms ! i) then 0 else max (num_skipped (ms ! i) (nlocal + next)) (length (nb ! i))) \<and>
         cow_cost (ms1 ! i) rid \<le> (if has_partial_local_hit (ms ! i) (nb ! i) nlocal then 1 else 0)" by blast
  note K1 = kept_allD [OF p1(2)]
  have cfg: "mgr_config (ms1 ! i) = mgr_config (ms ! i)" if "i < length ms" for i by (rule kept_all_nth [OF p1(2) that])
  have FF: "hit_ok p (ms ! i) nlocal (nb ! i)" "st_ok p (ms ! i)" "blocks_of (ms ! i) rid = []" "dget (num_cached_block (ms ! i)) rid = None"
    "py_index nb (int i) = Inr (nb ! i)" if "i < length ms" for i using f all that by (auto simp: fresh_call_def all_ok_def)
  let ?ext = "\<lambda>i. ext_cost (ms1 ! i) rid nlocal next"
  have le: "int (?loc i + ?ext i) \<le> k i" if "i < length ms" for i
    using fresh_need_ext [OF ok all f n that cfg [OF that], of nenc] p1(4) that k [OF that] by auto
  have "(\<Sum>i < length ms. int (?loc i + ?ext i)) \<le> (\<Sum>i < length ms. k i)" by (rule sum_mono) (use le in auto)
  then have ext: "(\<Sum>i < length ms1. ?ext i) \<le> length fl1"
    using sum p1(3) K1(4) by (simp add: sum.distrib flip: of_nat_sum)
  have len1: "is_cross m \<or> int (length (blocks_of m rid)) \<le> cdiv (nlocal + next) (mgr_block_size m)" if "m \<in> set ms1" for m
  proof -
    from that obtain i where i: "i < length ms" "m = ms1 ! i" using K1(4) by (auto simp: in_set_conv_nth)
    then show ?thesis using p1(4) hit_length_le [OF FF(2,1) F, OF i(1) i(1)] mgr_configD [OF cfg [OF i(1)]] by auto
  qed
  from external_phase_if [OF K1(1) kept_all_ok [OF all p1(2)] F len1 ext, unfolded K1(4)] obtain ms2 q2 fl2 where
    p2: "(if next > 0 then each_manager (\<lambda>_ m p. allocate_external_computed_blocks rid nlocal next m p) (idxs ms) ms1 q1 else Inr (ms1, q1)) = Inr (ms2, q2)"
      "kept_all q1 ms1 q2 fl2 ms2" "length fl1 \<le> length fl2 + (\<Sum>i < length ms. ?ext i)"
      "\<And>i. i < length ms \<Longrightarrow> only_req rid (ms1 ! i) (ms2 ! i) \<and> length (blocks_of (ms2 ! i) rid) = length (blocks_of (ms1 ! i) rid) + ?ext i \<and>
         cow_cost (ms2 ! i) rid = cow_cost (ms1 ! i) rid" by blast
  note K = kept_all_trans [OF p1(2) p2(2)]
  have cfg2: "mgr_config (ms2 ! i) = mgr_config (ms ! i)" if "i < length ms" for i
    by (rule kept_all_nth [OF K that])
  let ?new = "\<lambda>i. cow_cost (ms2 ! i) rid + new_cost (ms2 ! i) rid (if is_cross (ms ! i) then nenc else n)"
  have "int (?loc i + ?ext i + ?new i) \<le> k i" if i: "i < length ms" for i
    using fresh_need [OF ok FF(2,1) F n FF(3,4,5) cfg _ cfg2, OF i i i i i i _ i, of nenc] p1(4) p2(4) [OF i] i k [OF i] by auto
  then have "(\<Sum>i < length ms. int (?loc i + ?ext i + ?new i)) \<le> (\<Sum>i < length ms. k i)" by (intro sum_mono) auto
  moreover have "int (length fl) \<le> int (length fl2) + (\<Sum>i < length ms. int (?ext i)) + (\<Sum>i < length ms. int (?loc i))"
    using p1(3) p2(3) by (simp flip: of_nat_sum)
  ultimately have "int (length fl) + (\<Sum>i < length ms. int (?new i)) \<le> int (length fl2) + (\<Sum>i < length ms. k i)"
    by (simp only: sum.distrib of_nat_add)
  moreover have "computed_phase rid nb nlocal next ms p = Inr (ms2, q2)" using p1(1) p2(1) by (simp add: computed_phase_def)
  moreover have "\<forall>i < length ms. only_req rid (ms ! i) (ms2 ! i)" using p1(4) p2(4) only_req_trans by blast
  ultimately show ?thesis using K by blast
qed

lemma allocate_computed_eq:
  assumes "\<And>m. m \<in> set (single_type_managers co) \<Longrightarrow> dget (num_cached_block m) rid = None"
  shows "allocate_new_computed_blocks rid nb nlocal next co =
    ebind (computed_phase rid nb nlocal next (single_type_managers co) (block_pool co)) (\<lambda>(ms, p).
    Inr (co\<lparr>single_type_managers := ms, block_pool := p\<rparr>))"
proof -
  have "\<not> list_ex (\<lambda>m. dget (num_cached_block m) rid \<noteq> None) (single_type_managers co)" using assms by (auto simp: list_ex_iff)
  then show ?thesis
    unfolding allocate_new_computed_blocks_def on_managers_def computed_phase_def
    by (simp add: ebind_def split: sum.splits prod.splits)
qed

text \<open>What an allocation of \<open>n\<close> tokens, and \<open>nenc\<close> encoder tokens, has done to the managers.\<close>

definition slots_done :: "string \<Rightarrow> int \<Rightarrow> int \<Rightarrow> st_manager \<Rightarrow> st_manager \<Rightarrow> bool" where
  "slots_done rid n nenc m m' \<longleftrightarrow> only_req rid m m' \<and> dget (partial_hit_reqs m') rid = None \<and>
     cdiv (if is_cross m then nenc else n) (mgr_block_size m) \<le> int (length (blocks_of m' rid))"

lemma new_blocks_phase:
  assumes ok: "pool_ok (block_pool co) fl" and all: "all_ok (block_pool co) (single_type_managers co)"
    and c: "(\<Sum>i < length (single_type_managers co). cow_cost (single_type_managers co ! i) rid +
      new_cost (single_type_managers co ! i) rid (if is_cross (single_type_managers co ! i) then nenc else n)) \<le> length fl"
  shows "\<exists>news co' fl'. allocate_new_blocks rid n nenc co = Inr (news, co') \<and>
    kept_all (block_pool co) (single_type_managers co) (block_pool co') fl' (single_type_managers co') \<and>
    co' = co\<lparr>single_type_managers := single_type_managers co', block_pool := block_pool co'\<rparr> \<and>
    length fl \<le> length fl' + (\<Sum>i < length (single_type_managers co). cow_cost (single_type_managers co ! i) rid +
      new_cost (single_type_managers co ! i) rid (if is_cross (single_type_managers co ! i) then nenc else n)) \<and>
    list_all2 (slots_done rid n nenc) (single_type_managers co) (single_type_managers co')"
proof -
  from allocate_each_kept [OF ok all, of rid nenc n] c obtain new ms' q fl' where
    a: "allocate_each rid n nenc (single_type_managers co) (block_pool co) = Inr (new, ms', q)"
      "kept_all (block_pool co) (single_type_managers co) q fl' ms'"
      "length fl \<le> length fl' + (\<Sum>i < length (single_type_managers co). cow_cost (single_type_managers co ! i) rid +
        new_cost (single_type_managers co ! i) rid (if is_cross (single_type_managers co ! i) then nenc else n))"
      "list_all2 (\<lambda>m m'. int (length (blocks_of m' rid)) = max (int (length (blocks_of m rid))) (cdiv (if is_cross m then nenc else n) (mgr_block_size m)) \<and>
        dget (partial_hit_reqs m') rid = None \<and> only_req rid m m' \<and> num_cached_block m' = num_cached_block m) (single_type_managers co) ms'"
    unfolding list_sum by blast
  have "list_all2 (slots_done rid n nenc) (single_type_managers co) ms'"
    by (rule list_all2_mono [OF a(4)]) (auto simp: slots_done_def)
  then show ?thesis using a by (intro exI [of _ new] exI [of _ "co\<lparr>single_type_managers := ms', block_pool := q\<rparr>"] exI [of _ fl'])
    (simp add: allocate_new_blocks_def)
qed

text \<open>Without hits and external tokens nothing has been computed.\<close>

lemma no_hit_need:
  assumes ok: "pool_ok p fl" and st: "st_ok p m" and h: "hit_ok p m nlocal []" and n: "0 \<le> nlocal" "nlocal \<le> n"
    and e: "blocks_of m rid = []" "dget (num_cached_block m) rid = None" "dget (partial_hit_reqs m) rid = None" and ix: "py_index nb (int i) = Inr []"
  shows "\<exists>k. group_need p rid n nb nenc nlocal nlocal False i m = Inr k \<and>
    int (cow_cost m rid + new_cost m rid (if is_cross m then nenc else n)) \<le> k"
proof -
  have z: "\<not> is_cross m \<Longrightarrow> num_skipped m nlocal = 0"
  proof -
    assume nc: "\<not> is_cross m"
    then have "cdiv nlocal (mgr_block_size m) \<le> 0" using h by (simp add: hit_ok_def)
    then have "nlocal = 0" using cdiv_le_iff [OF st_okD(1) [OF st], of nlocal 0] n(1) by simp
    then have "get_num_skipped_tokens (mgr_type m) nlocal = 0" using skipped_bounds [OF st_okD(2) [OF st], of nlocal] by auto
    then show ?thesis by (simp add: num_skipped_def)
  qed
  have len: "length (blocks_of m rid) = (if is_cross m then 0 else max (num_skipped m (nlocal + 0)) (length ([] :: bref list)))" using z e by simp
  have x: "ext_cost m rid nlocal 0 = 0" by (simp add: ext_cost_def)
  show ?thesis
    using fresh_need [OF ok st h n(1) _ _ e(1,2) ix refl len refl, of n nenc] n(2) e x by (cases "is_cross m") (simp_all add: cow_cost_def local_cost_def)
qed

lemma slots_done_trans:
  assumes "list_all2 (only_req rid) ms ms2" "map mgr_config ms2 = map mgr_config ms" "list_all2 (slots_done rid n nenc) ms2 ms3"
  shows "list_all2 (slots_done rid n nenc) ms ms3"
proof (rule list_all2_all_nthI)
  show len: "length ms = length ms3" using assms(1,3) by (simp add: list_all2_lengthD)
  fix i
  assume i: "i < length ms"
  have "mgr_config (ms2 ! i) = mgr_config (ms ! i)" using arg_cong [OF assms(2), of "\<lambda>l. l ! i"] i assms(1) by (simp add: list_all2_lengthD)
  moreover have "only_req rid (ms ! i) (ms2 ! i)" using list_all2_nthD [OF assms(1) i] .
  moreover have "slots_done rid n nenc (ms2 ! i) (ms3 ! i)" using list_all2_nthD2 [OF assms(3)] i len by simp
  ultimately show "slots_done rid n nenc (ms ! i) (ms3 ! i)" using mgr_configD [of "ms2 ! i" "ms ! i"] by (auto simp: slots_done_def intro: only_req_trans)
qed

lemma fresh_alloc:
  assumes ok: "pool_ok (block_pool co) fl" and all: "all_ok (block_pool co) (single_type_managers co)"
    and f: "fresh_call (block_pool co) (single_type_managers co) rid nlocal next nb" and n: "nlocal + next \<le> n"
    and need: "get_num_blocks_to_allocate co rid n nb nenc (nlocal + next) nlocal False = Inr k" and fits: "k \<le> int (length fl)"
    and c: "c \<or> next = 0 \<and> (\<forall>bl \<in> set nb. bl = [])"
  shows "\<exists>co2 news co3 fl'. (if c then allocate_new_computed_blocks rid nb nlocal next co else Inr co) = Inr co2 \<and>
    allocate_new_blocks rid n nenc co2 = Inr (news, co3) \<and>
    kept_all (block_pool co) (single_type_managers co) (block_pool co3) fl' (single_type_managers co3) \<and>
    co3 = co\<lparr>single_type_managers := single_type_managers co3, block_pool := block_pool co3\<rparr> \<and>
    int (length fl) \<le> int (length fl') + k \<and> list_all2 (slots_done rid n nenc) (single_type_managers co) (single_type_managers co3)"
proof -
  let ?ms = "single_type_managers co" and ?p = "block_pool co"
  let ?new = "\<lambda>ms i. cow_cost (ms ! i) rid + new_cost (ms ! i) rid (if is_cross (ms ! i) then nenc else n)"
  from fresh_need_all [OF ok all f n, of nenc] obtain k' where
    k': "\<And>i. i < length ?ms \<Longrightarrow> group_need ?p rid n nb nenc (nlocal + next) nlocal False i (?ms ! i) = Inr (k' i)" by blast
  from need_sum [of co, OF k'] need have k: "k = (\<Sum>i < length ?ms. k' i)" by simp
  have "\<exists>ms2 q fl2. (if c then computed_phase rid nb nlocal next ?ms ?p else Inr (?ms, ?p)) = Inr (ms2, q) \<and> kept_all ?p ?ms q fl2 ms2 \<and>
      int (length fl) + (\<Sum>i < length ?ms. int (?new ms2 i)) \<le> int (length fl2) + k \<and> list_all2 (only_req rid) ?ms ms2"
  proof (cases c)
    case True
    have "(\<Sum>i < length ?ms. k' i) \<le> int (length fl)" using fits k by simp
    from computed_phase_kept [OF ok all f n k' this, folded k] obtain ms2 q fl2 where
      m2: "computed_phase rid nb nlocal next ?ms ?p = Inr (ms2, q)" "kept_all ?p ?ms q fl2 ms2"
        "int (length fl) + (\<Sum>i < length ?ms. int (cow_cost (ms2 ! i) rid + new_cost (ms2 ! i) rid (if is_cross (?ms ! i) then nenc else n))) \<le> int (length fl2) + k"
        "\<forall>i < length ?ms. only_req rid (?ms ! i) (ms2 ! i)" by blast
    have "is_cross (ms2 ! i) = is_cross (?ms ! i)" if "i < length ?ms" for i
      by (rule mgr_configD(6) [OF kept_all_nth [OF m2(2) that]])
    then have "(\<Sum>i < length ?ms. int (?new ms2 i)) =
        (\<Sum>i < length ?ms. int (cow_cost (ms2 ! i) rid + new_cost (ms2 ! i) rid (if is_cross (?ms ! i) then nenc else n)))"
      by (intro sum.cong) auto
    moreover have "list_all2 (only_req rid) ?ms ms2" using m2(4) kept_allD(4) [OF m2(2)] by (simp add: list_all2_conv_all_nth)
    ultimately show ?thesis using True m2 by auto
  next
    case False
    then have z: "next = 0" "\<And>i. i < length ?ms \<Longrightarrow> nb ! i = []" using c f by (auto simp: fresh_call_def)
    have "int (?new ?ms i) \<le> k' i" if i: "i < length ?ms" for i
    proof -
      have F: "hit_ok ?p (?ms ! i) nlocal []" "0 \<le> nlocal" "blocks_of (?ms ! i) rid = []" "dget (num_cached_block (?ms ! i)) rid = None"
        "dget (partial_hit_reqs (?ms ! i)) rid = None" "py_index nb (int i) = Inr []" "st_ok ?p (?ms ! i)"
        using f all i z(2) [OF i] py_index_nat [of i nb] by (auto simp: fresh_call_def all_ok_def) 
      from no_hit_need [OF ok F(7,1,2) _ F(3-6), of n nenc] n z(1) k' [OF i] show ?thesis by auto
    qed
    then have "(\<Sum>i < length ?ms. int (?new ?ms i)) \<le> k" unfolding k by (intro sum_mono) auto
    then show ?thesis using False kept_all_refl [OF ok all] by (auto simp: list_all2_refl)
  qed
  then obtain ms2 q fl2 where m2: "(if c then computed_phase rid nb nlocal next ?ms ?p else Inr (?ms, ?p)) = Inr (ms2, q)"
    "kept_all ?p ?ms q fl2 ms2" "int (length fl) + (\<Sum>i < length ?ms. int (?new ms2 i)) \<le> int (length fl2) + k" "list_all2 (only_req rid) ?ms ms2" by blast
  let ?co2 = "co\<lparr>single_type_managers := ms2, block_pool := q\<rparr>"
  have r2: "(if c then allocate_new_computed_blocks rid nb nlocal next co else Inr co) = Inr ?co2"
    using m2(1) f allocate_computed_eq [of co rid nb nlocal "next"] by (auto simp: fresh_call_def split: if_splits)
  have K2: "pool_ok q fl2" "length ms2 = length ?ms" "map mgr_config ms2 = map mgr_config ?ms" using kept_allD [OF m2(2)] by auto
  have "(\<Sum>i < length ?ms. ?new ms2 i) \<le> length fl2" using m2(3) fits by (simp flip: of_nat_sum of_nat_add)
  then have "\<exists>news co3 fl'. allocate_new_blocks rid n nenc ?co2 = Inr (news, co3) \<and>
      kept_all q ms2 (block_pool co3) fl' (single_type_managers co3) \<and>
      co3 = ?co2\<lparr>single_type_managers := single_type_managers co3, block_pool := block_pool co3\<rparr> \<and>
      length fl2 \<le> length fl' + (\<Sum>i < length ?ms. ?new ms2 i) \<and> list_all2 (slots_done rid n nenc) ms2 (single_type_managers co3)"
    using new_blocks_phase [of ?co2 fl2 rid nenc n] K2(1,2) kept_all_ok [OF all m2(2)] by simp
  then obtain news co3 fl' where
    a: "allocate_new_blocks rid n nenc ?co2 = Inr (news, co3)" "kept_all q ms2 (block_pool co3) fl' (single_type_managers co3)"
      "co3 = ?co2\<lparr>single_type_managers := single_type_managers co3, block_pool := block_pool co3\<rparr>"
      "length fl2 \<le> length fl' + (\<Sum>i < length ?ms. ?new ms2 i)" "list_all2 (slots_done rid n nenc) ms2 (single_type_managers co3)"
    by blast
  have "int (length fl) \<le> int (length fl') + k" using m2(3) a(4) by (simp flip: of_nat_sum of_nat_add)
  then show ?thesis
    using r2 a(1,3) kept_all_trans [OF m2(2) a(2)] slots_done_trans [OF m2(4) K2(3) a(5)]
    by (intro exI [of _ ?co2] exI [of _ news] exI [of _ co3] exI [of _ fl']) simp
qed

end
