(* ===== verification/Group_Layout.thy ===== *)
theory Group_Layout
  imports Manager_Allocation "HOL-Library.Multiset"
begin

text \<open>
  What the constructors of the coordinators establish and no later call changes: which manager serves which group, with which block
  size, and how \<^verbatim>\<open>verify_and_split_kv_cache_groups\<close> divides the groups of a hybrid model by their specification.
\<close>

section \<open>The layout of a coordinator\<close>

text \<open>The block size of a manager: a block of the specification on each rank of decode context parallelism.\<close>

definition group_block_size :: "int \<Rightarrow> kv_cache_spec \<Rightarrow> int" where
  "group_block_size dcp spec = (if dcp > 1 then spec_block_size spec * dcp else spec_block_size spec)"

text \<open>Every group is in one entry, the entry of its specification.\<close>

definition layout_ok :: "(nat \<Rightarrow> kv_cache_spec) \<Rightarrow> nat \<Rightarrow> spec_group list \<Rightarrow> bool" where
  "layout_ok sp k gs \<longleftrightarrow>
     (\<forall>g \<in> set gs. sg_group_ids g \<noteq> [] \<and> (\<forall>i \<in> set (sg_group_ids g). sp (nat i) = sg_spec g) \<and>
        sg_manager_cls g = get_manager_class (spec_type (sg_spec g))) \<and>
     mset (concat (map sg_group_ids gs)) = mset (map int [0..<k])"

text \<open>Entries of full attention come first.\<close>

definition full_first :: "spec_group list \<Rightarrow> bool" where
  "full_first gs \<longleftrightarrow> (\<exists>fs os. gs = fs @ os \<and> list_all (\<lambda>g. is_full_attention (spec_type (sg_spec g))) fs \<and>
     list_all (\<lambda>g. \<not> is_full_attention (spec_type (sg_spec g))) os)"

definition co_wf :: "coordinator \<Rightarrow> bool" where
  "co_wf co \<longleftrightarrow>
     (let ms = single_type_managers co; gs = kv_cache_groups co in
      0 < scheduler_block_size co \<and> 0 < hash_block_size (block_pool co) \<and> length gs = length ms \<and>
      (\<forall>i < length ms. mgr_spec (ms ! i) = kv_cache_spec (gs ! i) \<and> mgr_block_size (ms ! i) = group_block_size (co_dcp_world_size co) (mgr_spec (ms ! i)) \<and>
         scheduler_block_size co mod mgr_block_size (ms ! i) = 0 \<and> (mgr_caching (ms ! i) \<longleftrightarrow> co_kind co \<noteq> NoPrefixCache)) \<and>
      (co_kind co = Unitary \<longrightarrow> length ms = 1) \<and>
      (co_kind co = Hybrid \<longrightarrow> layout_ok (\<lambda>i. kv_cache_spec (gs ! i)) (length gs) (attention_groups co) \<and> full_first (attention_groups co) \<and>
         (co_dcp_world_size co > 1 \<longrightarrow> (\<forall>g \<in> set gs. is_full_attention (spec_type (kv_cache_spec g)))) \<and> attention_groups co \<noteq> []))"

lemma co_wf_cong:
  assumes wf: "co_wf co" and cf: "map mgr_config ms = map mgr_config (single_type_managers co)" and p: "pool_config p = pool_config (block_pool co)"
  shows "co_wf (co\<lparr>single_type_managers := ms, block_pool := p\<rparr>)"
proof -
  have l: "length ms = length (single_type_managers co)" using cf by (metis length_map)
  have "mgr_config (ms ! i) = mgr_config (single_type_managers co ! i)" if "i < length ms" for i using that cf l by (metis nth_map)
  then have "mgr_spec (ms ! i) = mgr_spec (single_type_managers co ! i)" "mgr_block_size (ms ! i) = mgr_block_size (single_type_managers co ! i)"
    "mgr_caching (ms ! i) = mgr_caching (single_type_managers co ! i)" if "i < length ms" for i using that mgr_configD(1-3) by metis+
  then show ?thesis using wf l config_eqs(3) [OF p] by (auto simp: co_wf_def Let_def)
qed

lemma co_wf_map:
  assumes "co_wf co" "\<And>m. m \<in> set (single_type_managers co) \<Longrightarrow> mgr_config (f m) = mgr_config m"
  shows "co_wf (co\<lparr>single_type_managers := map f (single_type_managers co)\<rparr>)"
  using co_wf_cong [OF assms(1) _ refl, of "map f (single_type_managers co)"] assms(2) by simp

lemma co_wf_managers:
  assumes "co_wf co" "i < length (single_type_managers co)"
  shows "mgr_spec (single_type_managers co ! i) = kv_cache_spec (kv_cache_groups co ! i)"
    "mgr_block_size (single_type_managers co ! i) = group_block_size (co_dcp_world_size co) (mgr_spec (single_type_managers co ! i))"
    "scheduler_block_size co mod mgr_block_size (single_type_managers co ! i) = 0"
    "mgr_caching (single_type_managers co ! i) \<longleftrightarrow> co_kind co \<noteq> NoPrefixCache"
  using assms by (auto simp: co_wf_def Let_def)


section \<open>The constructors\<close>

text \<open>
  Every group has blocks of at least one token and a window that is not empty, and the scheduler's block is a multiple of each group's
  block: \<^verbatim>\<open>resolve_kv_cache_block_sizes\<close> takes their least common multiple.
\<close>

definition config_ok :: "coordinator_config \<Rightarrow> bool" where
  "config_ok c \<longleftrightarrow> 0 < cc_scheduler_block_size c \<and> 0 < cc_hash_block_size c \<and>
     (\<forall>g \<in> set (cc_groups c). 0 < spec_block_size (kv_cache_spec g) \<and> spec_ok (spec_type (kv_cache_spec g)) \<and>
        cc_scheduler_block_size c mod group_block_size (cc_dcp_world_size c) (kv_cache_spec g) = 0)"

lemma emap_elem: "emap f xs = Inr ys \<Longrightarrow> length ys = length xs \<and> (\<forall>y \<in> set ys. \<exists>x \<in> set xs. f x = Inr y)"
  by (induction xs arbitrary: ys) fastforce+

lemma new_manager_fields:
  "get_manager_for_kv_cache_spec spec mif mml caching gid sbs dcp z = Inr m \<Longrightarrow>
     mgr_spec m = spec \<and> mgr_block_size m = group_block_size dcp spec \<and> (mgr_caching m \<longleftrightarrow> caching)"
  by (auto simp: get_manager_for_kv_cache_spec_def group_block_size_def split: if_splits)

lemma coordinator_init_fields:
  assumes c: "config_ok c" and i: "coordinator_init kind caching c = Inr co"
  shows "co_kind co = kind" "kv_cache_groups co = cc_groups c" "scheduler_block_size co = cc_scheduler_block_size c"
    "co_dcp_world_size co = cc_dcp_world_size c" "length (single_type_managers co) = length (cc_groups c)"
    "hash_block_size (block_pool co) = cc_hash_block_size c"
    "j < length (cc_groups c) \<Longrightarrow> mgr_spec (single_type_managers co ! j) = kv_cache_spec (cc_groups c ! j) \<and>
       mgr_block_size (single_type_managers co ! j) = group_block_size (cc_dcp_world_size c) (kv_cache_spec (cc_groups c ! j)) \<and>
       (mgr_caching (single_type_managers co ! j) \<longleftrightarrow> caching)"
proof -
  from i obtain ms where ms: "emap (\<lambda>(i, g). get_manager_for_kv_cache_spec (kv_cache_spec g) (cc_max_in_flight_tokens c) (cc_max_model_len c) caching (int i)
      (cc_scheduler_block_size c) (cc_dcp_world_size c) (cc_zeroing c)) (List.enumerate 0 (cc_groups c)) = Inr ms"
    and co: "co_kind co = kind" "kv_cache_groups co = cc_groups c" "scheduler_block_size co = cc_scheduler_block_size c"
      "co_dcp_world_size co = cc_dcp_world_size c" "single_type_managers co = ms"
    by (auto simp: coordinator_init_def Let_def)
  show "co_kind co = kind" "kv_cache_groups co = cc_groups c" "scheduler_block_size co = cc_scheduler_block_size c"
    "co_dcp_world_size co = cc_dcp_world_size c" using co by simp_all
  show "length (single_type_managers co) = length (cc_groups c)" using ms co(5) by (simp add: emap_eq_Inr)
  from i obtain p where p: "pool_init (cc_num_blocks c) caching (cc_hash_block_size c) (cc_events c) (cc_use_int_hashes c) = Inr p" "block_pool co = p"
    by (auto simp: coordinator_init_def Let_def)
  then have "0 < cc_num_blocks c" by (simp add: pool_init_def eassert_def split: if_splits)
  from pool_init_ok [OF this, of caching "cc_hash_block_size c" "cc_events c" "cc_use_int_hashes c"] p
  show "hash_block_size (block_pool co) = cc_hash_block_size c" by (auto simp: pool_config_def)
  assume j: "j < length (cc_groups c)"
  with ms have "get_manager_for_kv_cache_spec (kv_cache_spec (cc_groups c ! j)) (cc_max_in_flight_tokens c) (cc_max_model_len c) caching (int j)
      (cc_scheduler_block_size c) (cc_dcp_world_size c) (cc_zeroing c) = Inr (ms ! j)"
    unfolding emap_eq_Inr by (auto simp: nth_enumerate_eq)
  then show "mgr_spec (single_type_managers co ! j) = kv_cache_spec (cc_groups c ! j) \<and>
       mgr_block_size (single_type_managers co ! j) = group_block_size (cc_dcp_world_size c) (kv_cache_spec (cc_groups c ! j)) \<and>
       (mgr_caching (single_type_managers co ! j) \<longleftrightarrow> caching)"
    unfolding co(5) by (rule new_manager_fields)
qed

lemma join_group_layout:
  assumes j: "join_group i spec cls e gs = Inr gs'" and cls: "cls = get_manager_class (spec_type spec)" and sp: "sp (nat i) = spec"
    and gs: "\<forall>g \<in> set gs. sg_group_ids g \<noteq> [] \<and> (\<forall>i \<in> set (sg_group_ids g). sp (nat i) = sg_spec g) \<and>
        sg_manager_cls g = get_manager_class (spec_type (sg_spec g))"
  shows "(\<forall>g \<in> set gs'. sg_group_ids g \<noteq> [] \<and> (\<forall>i \<in> set (sg_group_ids g). sp (nat i) = sg_spec g) \<and>
        sg_manager_cls g = get_manager_class (spec_type (sg_spec g))) \<and>
    mset (concat (map sg_group_ids gs')) = add_mset i (mset (concat (map sg_group_ids gs)))"
  using j gs
proof (induction gs arbitrary: gs')
  case Nil
  then show ?case using cls sp by auto
next
  case (Cons g gs)
  show ?case
  proof (cases "sg_spec g = spec")
    case True
    then have "gs' = g\<lparr>sg_group_ids := sg_group_ids g @ [i], sg_use_eagle := sg_use_eagle g \<or> e\<rparr> # gs" using Cons.prems(1) by auto
    then show ?thesis using Cons.prems(2) True cls sp by auto
  next
    case False
    then obtain gs1 where g1: "join_group i spec cls e gs = Inr gs1" "gs' = g # gs1" using Cons.prems(1) by auto
    from Cons.IH [OF g1(1)] Cons.prems(2) show ?thesis by (auto simp: g1(2))
  qed
qed

lemma split_loop_layout:
  assumes e: "efold (\<lambda>(i, g, m). join_group (int i) (kv_cache_spec g) (get_manager_class (mgr_type m)) (int i \<in> set ids))
      (List.enumerate k (zip gs ms)) acc = Inr groups"
    and l: "length ms = length gs" and m: "\<And>i. i < length gs \<Longrightarrow> mgr_spec (ms ! i) = kv_cache_spec (gs ! i)"
    and sp: "\<And>i. i < length gs \<Longrightarrow> sp (k + i) = kv_cache_spec (gs ! i)" and acc: "layout_ok sp k acc"
  shows "layout_ok sp (k + length gs) groups"
  using assms
proof (induction gs arbitrary: ms k acc)
  case (Cons g gs)
  obtain m ms' where ms: "ms = m # ms'" using Cons.prems(2) by (cases ms) auto
  from Cons.prems(1) obtain acc1 where j: "join_group (int k) (kv_cache_spec g) (get_manager_class (mgr_type m)) (int k \<in> set ids) acc = Inr acc1"
    and rest: "efold (\<lambda>(i, g, m). join_group (int i) (kv_cache_spec g) (get_manager_class (mgr_type m)) (int i \<in> set ids))
      (List.enumerate (Suc k) (zip gs ms')) acc1 = Inr groups" by (auto simp: ms)
  have "get_manager_class (mgr_type m) = get_manager_class (spec_type (kv_cache_spec g))" "sp (nat (int k)) = kv_cache_spec g"
    using Cons.prems(3) [of 0] Cons.prems(4) [of 0] by (simp_all add: ms)
  from join_group_layout [OF j this Cons.prems(5) [unfolded layout_ok_def, THEN conjunct1]] Cons.prems(5) [unfolded layout_ok_def, THEN conjunct2]
  have "layout_ok sp (Suc k) acc1" unfolding layout_ok_def by (intro conjI) (blast, simp)
  have m1: "mgr_spec (ms' ! i) = kv_cache_spec (gs ! i)" "sp (Suc k + i) = kv_cache_spec (gs ! i)" if "i < length gs" for i
    using that Cons.prems(3) [of "Suc i"] Cons.prems(4) [of "Suc i"] by (simp_all add: ms)
  have "length ms' = length gs" using Cons.prems(2) by (simp add: ms)
  from Cons.IH [OF rest this m1 \<open>layout_ok sp (Suc k) acc1\<close>] show ?case by simp
qed (simp add: layout_ok_def)

lemma layout_sorted:
  assumes "layout_ok sp k gs" shows "layout_ok sp k (filter P gs @ filter (\<lambda>g. \<not> P g) gs)"
proof -
  have "mset (concat (map sg_group_ids (filter P gs @ filter (\<lambda>g. \<not> P g) gs))) = mset (concat (map sg_group_ids gs))"
    by (induction gs) auto
  then show ?thesis using assms by (auto simp: layout_ok_def)
qed

lemma hybrid_init_wf:
  assumes c: "config_ok c" and i: "hybrid_init c = Inr co" and caching: "cc_caching c"
  shows "co_wf co"
proof -
  from i obtain co0 where h: "coordinator_init Hybrid (cc_caching c) c = Inr co0" "verify_and_split_kv_cache_groups co0 = Inr co"
    and d: "cc_dcp_world_size c > 1 \<longrightarrow> list_all (\<lambda>g. is_full_attention (spec_type (kv_cache_spec g))) (kv_cache_groups co0)"
    by (auto simp: hybrid_init_def)
  note F = coordinator_init_fields [OF c h(1)]
  from h(2) obtain groups ms where g: "efold (\<lambda>(i, g, m). join_group (int i) (kv_cache_spec g) (get_manager_class (mgr_type m)) (int i \<in> set (eagle_group_ids co0)))
        (List.enumerate 0 (zip (kv_cache_groups co0) (single_type_managers co0))) [] = Inr groups" "length groups > 1"
    and co: "co = co0\<lparr>attention_groups := filter (\<lambda>g. is_full_attention (spec_type (sg_spec g))) groups @
            filter (\<lambda>g. \<not> is_full_attention (spec_type (sg_spec g))) groups, single_type_managers := ms\<rparr>"
    and ms: "length ms = length (single_type_managers co0)" "\<And>j. j < length ms \<Longrightarrow> mgr_spec (ms ! j) = mgr_spec (single_type_managers co0 ! j) \<and>
        mgr_block_size (ms ! j) = mgr_block_size (single_type_managers co0 ! j) \<and> mgr_caching (ms ! j) = mgr_caching (single_type_managers co0 ! j)"
    by (auto simp: verify_and_split_kv_cache_groups_def Let_def nth_enumerate_eq)
  have "layout_ok (\<lambda>i. kv_cache_spec (cc_groups c ! i)) (0 + length (cc_groups c)) groups"
    by (rule split_loop_layout [OF g(1) [unfolded F(2)]]) (use F(5,7) in \<open>auto simp: layout_ok_def\<close>)
  then have "layout_ok (\<lambda>i. kv_cache_spec (cc_groups c ! i)) (length (cc_groups c)) (attention_groups co)" by (simp add: co layout_sorted)
  moreover have "full_first (attention_groups co)" unfolding full_first_def co
    by (intro exI [of _ "filter (\<lambda>g. is_full_attention (spec_type (sg_spec g))) groups"]
        exI [of _ "filter (\<lambda>g. \<not> is_full_attention (spec_type (sg_spec g))) groups"]) (simp add: list_all_iff)
  moreover have "attention_groups co \<noteq> []" using g(2) by (cases groups) (auto simp: co)
  ultimately show ?thesis using F ms d c caching by (auto simp: co_wf_def Let_def co config_ok_def list_all_iff)
qed

lemma get_coordinator_wf:
  assumes c: "config_ok c" and i: "get_kv_cache_coordinator c = Inr co"
  shows "co_wf co \<and> (cc_caching c \<longleftrightarrow> co_kind co \<noteq> NoPrefixCache)"
proof -
  consider "\<not> cc_caching c" "coordinator_init NoPrefixCache False c = Inr co" | "cc_caching c" "unitary_init c = Inr co" | "cc_caching c" "hybrid_init c = Inr co"
    using i by (auto simp: get_kv_cache_coordinator_def split: if_splits)
  then show ?thesis
  proof cases
    case 1
    then show ?thesis using coordinator_init_fields [OF c 1(2)] c by (auto simp: co_wf_def Let_def config_ok_def)
  next
    case 2
    then obtain co0 where u: "coordinator_init Unitary (cc_caching c) c = Inr co0" "length (kv_cache_groups co0) = 1"
      "co = co0\<lparr>single_type_managers := map (\<lambda>m. m\<lparr>mgr_use_eagle := 0 \<in> set (eagle_group_ids co0)\<rparr>) (single_type_managers co0)\<rparr>"
      by (auto simp: unitary_init_def Let_def)
    then show ?thesis using coordinator_init_fields [OF c u(1)] c 2(1) by (auto simp: co_wf_def Let_def config_ok_def)
  next
    case 3
    then obtain co0 where "coordinator_init Hybrid (cc_caching c) c = Inr co0" "verify_and_split_kv_cache_groups co0 = Inr co"
      by (auto simp: hybrid_init_def)
    then have "co_kind co = Hybrid" using coordinator_init_fields(1) [OF c] by (fastforce simp: verify_and_split_kv_cache_groups_def Let_def)
    then show ?thesis using hybrid_init_wf [OF c 3(2,1)] 3(1) by simp
  qed
qed

end
