(* ===== verification/Manager_Properties.thy ===== *)
theory Manager_Properties
  imports Group_Layout
begin

text \<open>
  The guarantees of \<^verbatim>\<open>KVCacheManager\<close> over every sequence of calls: whose references the blocks of the pool have, and what
  \<^verbatim>\<open>allocate_slots\<close> does on every branch.
\<close>

section \<open>The invariant of the manager\<close>

text \<open>
  \<open>held\<close> are the blocks the scheduler holds on its own: those popped for a deferred release and the two ends of copies handed to the
  worker.
\<close>

definition km_ok :: "kv_manager \<Rightarrow> bref list \<Rightarrow> bref list \<Rightarrow> bool" where
  "km_ok km held fl \<longleftrightarrow>
     (let co = coordinator km; p = block_pool co; ms = single_type_managers co in
      pool_ok p fl \<and> (\<forall>m \<in> set ms. st_ok p m \<and> (\<forall>rid. dget (partial_hit_reqs m) rid = None)) \<and>
      (\<forall>b \<in> real_blocks p. ref_cnt (heap p b) = all_refs ms b + int (count_list held b)) \<and>
      set held \<subseteq> insert (Blk 0) (real_blocks p) \<and> partial_tail_pins km = [] \<and> length (kv_cache_groups co) = length ms \<and>
      0 \<le> watermark_blocks km \<and> co_wf co \<and> (km_caching km \<longleftrightarrow> co_kind co \<noteq> NoPrefixCache))"

lemma km_okD:
  assumes "km_ok km held fl"
  shows "pool_ok (block_pool (coordinator km)) fl" "all_ok (block_pool (coordinator km)) (single_type_managers (coordinator km))"
    "m \<in> set (single_type_managers (coordinator km)) \<Longrightarrow> dget (partial_hit_reqs m) rid = None"
    "b \<in> real_blocks (block_pool (coordinator km)) \<Longrightarrow>
       ref_cnt (heap (block_pool (coordinator km)) b) = all_refs (single_type_managers (coordinator km)) b + int (count_list held b)"
    "set held \<subseteq> insert (Blk 0) (real_blocks (block_pool (coordinator km)))" "partial_tail_pins km = []"
    "length (kv_cache_groups (coordinator km)) = length (single_type_managers (coordinator km))" "0 \<le> watermark_blocks km"
    "co_wf (coordinator km)" "km_caching km \<longleftrightarrow> co_kind (coordinator km) \<noteq> NoPrefixCache"
  using assms by (auto simp: km_ok_def all_ok_def Let_def)

lemma km_ok_kept:
  assumes ok: "km_ok km held fl" and k: "kept_all (block_pool (coordinator km)) (single_type_managers (coordinator km)) q fl' ms'"
    and none: "\<And>m rid. m \<in> set ms' \<Longrightarrow> dget (partial_hit_reqs m) rid = None"
  shows "km_ok (km\<lparr>coordinator := (coordinator km)\<lparr>single_type_managers := ms', block_pool := q\<rparr>\<rparr>) held fl'"
proof -
  note D = km_okD [OF ok] and K = kept_allD [OF k]
  have "ref_cnt (heap q b) = all_refs ms' b + int (count_list held b)" if "b \<in> real_blocks (block_pool (coordinator km))" for b
    using K(5) [OF that] D(4) [OF that] by linarith
  moreover have "\<forall>m \<in> set ms'. st_ok q m" using k by (simp add: kept_all_def)
  ultimately show ?thesis using K(1,4) D(5-8,10) none config_eqs(5) [OF K(2)] co_wf_cong [OF D(9) K(3,2)] by (simp add: km_ok_def Let_def)
qed

lemma km_ok_core:
  assumes ok: "km_ok km held fl" and q: "pool_ok q fl" "core q = core (block_pool (coordinator km))"
  shows "km_ok (km\<lparr>coordinator := (coordinator km)\<lparr>block_pool := q\<rparr>\<rparr>) held fl"
proof -
  note cf = core_pool_config [OF q(2)]
  have "co_wf ((coordinator km)\<lparr>block_pool := q\<rparr>)" using co_wf_cong [OF km_okD(9) [OF ok] refl cf] by simp
  then show ?thesis using ok q(1) core_block(1) [OF q(2)] config_eqs(5) [OF cf] st_ok_config [OF cf] by (simp add: km_ok_def Let_def)
qed

text \<open>Changes to the bookkeeping of the managers that no reference depends on.\<close>

lemma km_ok_books:
  assumes ok: "km_ok km held fl"
    and f: "\<And>m p. st_ok p m \<Longrightarrow> st_ok p (f m) \<and> mgr_refs (f m) = mgr_refs m \<and> partial_hit_reqs (f m) = partial_hit_reqs m \<and>
      mgr_config (f m) = mgr_config m"
  shows "km_ok (km\<lparr>coordinator := (coordinator km)\<lparr>single_type_managers := map f (single_type_managers (coordinator km))\<rparr>\<rparr>) held fl"
proof -
  have "all_refs (map f ms) b = all_refs ms b" if "\<forall>m \<in> set ms. st_ok p m" for ms b p using that f by (induction ms) auto
  from this [of "single_type_managers (coordinator km)" "block_pool (coordinator km)"] ok
  have "all_refs (map f (single_type_managers (coordinator km))) b = all_refs (single_type_managers (coordinator km)) b" for b
    by (simp add: km_ok_def Let_def)
  moreover have "co_wf ((coordinator km)\<lparr>single_type_managers := map f (single_type_managers (coordinator km))\<rparr>)"
    by (rule co_wf_map [OF km_okD(9) [OF ok]]) (use ok f in \<open>auto simp: km_ok_def Let_def\<close>)
  ultimately show ?thesis using ok f by (auto simp: km_ok_def Let_def)
qed


section \<open>Calls that release or cache\<close>

lemma co_remove_skipped_kept:
  assumes ok: "pool_ok (block_pool co) fl" and all: "all_ok (block_pool co) (single_type_managers co)"
    and no: "\<And>m. m \<in> set (single_type_managers co) \<Longrightarrow> dget (partial_hit_reqs m) rid = None"
  shows "\<exists>ms' q fl'. co_remove_skipped_blocks rid n np co = Inr (co\<lparr>single_type_managers := ms', block_pool := q\<rparr>) \<and>
    kept_all (block_pool co) (single_type_managers co) q fl' ms' \<and> length fl \<le> length fl' \<and>
    list_all2 (\<lambda>m m'. only_req rid m m' \<and> length (blocks_of m' rid) = length (blocks_of m rid) \<and>
      num_cached_block m' = num_cached_block m \<and> partial_hit_reqs m' = partial_hit_reqs m) (single_type_managers co) ms'"
proof -
  let ?ms = "single_type_managers co"
  let ?P = "\<lambda>m m'. only_req rid m m' \<and> length (blocks_of m' rid) = length (blocks_of m rid) \<and>
    num_cached_block m' = num_cached_block m \<and> partial_hit_reqs m' = partial_hit_reqs m"
  have "\<exists>ms' q fl'. each_manager (\<lambda>_ m p. st_remove_skipped_blocks rid n np m p) ?ms ?ms (block_pool co) = Inr (ms', q) \<and>
      kept_all (block_pool co) ?ms q fl' ms' \<and> True \<and> length fl \<le> length fl' + (\<Sum>i < length ?ms. 0) \<and> (\<forall>i < length ?ms. ?P (?ms ! i) (ms' ! i))"
  proof (rule managers_kept [OF _ ok _ all])
    fix i q gl
    assume i: "i < length ?ms" and q: "pool_ok q gl" "st_ok q (?ms ! i)"
      and r: "\<And>b. b \<in> real_blocks q \<Longrightarrow> mgr_refs (?ms ! i) b \<le> ref_cnt (heap q b)"
    from remove_skipped_kept [OF q r no [OF nth_mem [OF i]], of n np]
    show "\<exists>m' q' gl'. st_remove_skipped_blocks rid n np (?ms ! i) q = Inr (m', q') \<and> kept q (?ms ! i) q' gl' m' \<and> True \<and>
      length gl \<le> length gl' + 0 \<and> ?P (?ms ! i) m'" unfolding add_0_right simp_thms by blast
  qed simp_all
  then obtain ms' q fl' where e: "each_manager (\<lambda>_ m p. st_remove_skipped_blocks rid n np m p) ?ms ?ms (block_pool co) = Inr (ms', q)"
    "kept_all (block_pool co) ?ms q fl' ms'" "length fl \<le> length fl'" "\<forall>i < length ?ms. ?P (?ms ! i) (ms' ! i)" by auto
  have "co_remove_skipped_blocks rid n np co = Inr (co\<lparr>single_type_managers := ms', block_pool := q\<rparr>)"
    using e(1) by (simp add: co_remove_skipped_blocks_def on_managers_def)
  moreover have "list_all2 ?P ?ms ms'" using e(4) kept_allD(4) [OF e(2)] by (simp add: list_all2_conv_all_nth)
  ultimately show ?thesis using e(2,3) by blast
qed

lemma co_free_kept:
  assumes ok: "pool_ok (block_pool co) fl" and all: "all_ok (block_pool co) (single_type_managers co)"
  shows "\<exists>ms' q fl'. co_free rid co = Inr (co\<lparr>single_type_managers := ms', block_pool := q\<rparr>) \<and>
    kept_all (block_pool co) (single_type_managers co) q fl' ms' \<and> length fl \<le> length fl' \<and>
    list_all2 (\<lambda>m m'. only_req rid m m' \<and> blocks_of m' rid = [] \<and> dget (num_cached_block m') rid = None \<and> dget (partial_hit_reqs m') rid = None \<and>
      pending_cow_copies m' = pending_cow_copies m)
      (single_type_managers co) ms'"
proof -
  let ?ms = "single_type_managers co"
  let ?P = "\<lambda>m m'. only_req rid m m' \<and> blocks_of m' rid = [] \<and> dget (num_cached_block m') rid = None \<and> dget (partial_hit_reqs m') rid = None \<and>
    pending_cow_copies m' = pending_cow_copies m"
  have "\<exists>ms' q fl'. each_manager (\<lambda>_ m p. st_free rid m p) ?ms ?ms (block_pool co) = Inr (ms', q) \<and>
      kept_all (block_pool co) ?ms q fl' ms' \<and> True \<and> length fl \<le> length fl' + (\<Sum>i < length ?ms. 0) \<and> (\<forall>i < length ?ms. ?P (?ms ! i) (ms' ! i))"
  proof (rule managers_kept [OF _ ok _ all])
    fix i q gl
    assume i: "i < length ?ms" and q: "pool_ok q gl" "st_ok q (?ms ! i)"
      and r: "\<And>b. b \<in> real_blocks q \<Longrightarrow> mgr_refs (?ms ! i) b \<le> ref_cnt (heap q b)"
    from free_kept [OF q r, of rid]
    show "\<exists>m' q' gl'. st_free rid (?ms ! i) q = Inr (m', q') \<and> kept q (?ms ! i) q' gl' m' \<and> True \<and> length gl \<le> length gl' + 0 \<and> ?P (?ms ! i) m'"
      unfolding add_0_right simp_thms by blast
  qed simp_all
  then obtain ms' q fl' where e: "each_manager (\<lambda>_ m p. st_free rid m p) ?ms ?ms (block_pool co) = Inr (ms', q)"
    "kept_all (block_pool co) ?ms q fl' ms'" "length fl \<le> length fl'" "\<forall>i < length ?ms. ?P (?ms ! i) (ms' ! i)" by auto
  have "co_free rid co = Inr (co\<lparr>single_type_managers := ms', block_pool := q\<rparr>)" using e(1) by (simp add: co_free_def on_managers_def)
  moreover have "list_all2 ?P ?ms ms'" using e(4) kept_allD(4) [OF e(2)] by (simp add: list_all2_conv_all_nth)
  ultimately show ?thesis using e(2,3) by blast
qed

lemma partial_none_all2:
  assumes "list_all2 (\<lambda>m m'. only_req rid m m' \<and> dget (partial_hit_reqs m') rid = None) ms ms'"
    "\<And>m r. m \<in> set ms \<Longrightarrow> dget (partial_hit_reqs m) r = None" "m' \<in> set ms'"
  shows "dget (partial_hit_reqs m') r = None"
proof -
  from assms(3) obtain i where i: "i < length ms'" "m' = ms' ! i" by (auto simp: in_set_conv_nth)
  then have "i < length ms" "only_req rid (ms ! i) m'" "dget (partial_hit_reqs m') rid = None"
    using assms(1) by (auto simp: list_all2_conv_all_nth)
  then show ?thesis using assms(2) [of "ms ! i" r] by (cases "r = rid") (auto simp: only_req_def)
qed

lemma km_free_ok:
  assumes ok: "km_ok km held fl"
  shows "\<exists>ms' q fl'. km_free r km = Inr (km\<lparr>coordinator := (coordinator km)\<lparr>single_type_managers := ms', block_pool := q\<rparr>\<rparr>) \<and>
    km_ok (km\<lparr>coordinator := (coordinator km)\<lparr>single_type_managers := ms', block_pool := q\<rparr>\<rparr>) held fl' \<and> length fl \<le> length fl' \<and>
    pool_config q = pool_config (block_pool (coordinator km)) \<and>
    list_all2 (\<lambda>m m'. only_req (request_id r) m m' \<and> blocks_of m' (request_id r) = [] \<and> pending_cow_copies m' = pending_cow_copies m)
      (single_type_managers (coordinator km)) ms'"
proof -
  note D = km_okD [OF ok]
  from co_free_kept [OF D(1,2), of "request_id r"] obtain ms' q fl' where
    e: "co_free (request_id r) (coordinator km) = Inr ((coordinator km)\<lparr>single_type_managers := ms', block_pool := q\<rparr>)"
      "kept_all (block_pool (coordinator km)) (single_type_managers (coordinator km)) q fl' ms'" "length fl \<le> length fl'"
      "list_all2 (\<lambda>m m'. only_req (request_id r) m m' \<and> blocks_of m' (request_id r) = [] \<and> dget (num_cached_block m') (request_id r) = None \<and>
        dget (partial_hit_reqs m') (request_id r) = None \<and> pending_cow_copies m' = pending_cow_copies m) (single_type_managers (coordinator km)) ms'" by blast
  have "dget (partial_hit_reqs m) rid = None" if "m \<in> set ms'" for m rid
    by (rule partial_none_all2 [OF list_all2_mono [OF e(4)] _ that]) (use D(3) in auto)
  note K = km_ok_kept [OF ok e(2) this]
  have "km_free r km = Inr (km\<lparr>coordinator := (coordinator km)\<lparr>single_type_managers := ms', block_pool := q\<rparr>\<rparr>)"
    using e(1) D(6) by (simp add: km_free_def Let_def)
  moreover have "list_all2 (\<lambda>m m'. only_req (request_id r) m m' \<and> blocks_of m' (request_id r) = [] \<and> pending_cow_copies m' = pending_cow_copies m)
      (single_type_managers (coordinator km)) ms'"
    by (rule list_all2_mono [OF e(4)]) blast
  ultimately show ?thesis using K e(3) kept_allD(2) [OF e(2)] by blast
qed


section \<open>Allocating slots\<close>

text \<open>
  How the scheduler calls \<^verbatim>\<open>allocate_slots\<close>: for a new request with the prefix hits of a lookup and perhaps external tokens, or for a
  running request whose blocks cover the tokens computed so far, without new hits.
\<close>

definition running_call :: "st_manager list \<Rightarrow> string \<Rightarrow> int \<Rightarrow> bool" where
  "running_call ms rid nlocal \<longleftrightarrow> 0 \<le> nlocal \<and>
     (\<forall>m \<in> set ms. is_cross m \<or> cdiv nlocal (mgr_block_size m) \<le> int (length (blocks_of m rid)))"

definition slot_call :: "kv_manager \<Rightarrow> request \<Rightarrow> slot_args \<Rightarrow> bool" where
  "slot_call km r a \<longleftrightarrow>
     0 \<le> sa_reserved_blocks a \<and> 0 \<le> sa_new_tokens a \<and> 0 \<le> sa_lookahead_tokens a \<and> (sa_new_tokens a \<noteq> 0 \<or> sa_external_computed_tokens a \<noteq> 0) \<and>
     local_computed r a + sa_external_computed_tokens a \<le> km_max_model_len km \<and>
     (fresh_call (block_pool (coordinator km)) (single_type_managers (coordinator km)) (request_id r) (local_computed r a)
        (sa_external_computed_tokens a) (kv_blocks km (sa_new_computed_blocks a)) \<or>
      sa_new_computed_blocks a = None \<and> sa_external_computed_tokens a = 0 \<and>
        running_call (single_type_managers (coordinator km)) (request_id r) (local_computed r a))"

lemma need_defined:
  assumes "dget (num_cached_block m) rid = None \<or> bl = []"
  shows "\<exists>k. st_get_num_blocks_to_allocate m p rid n bl nt nl cap = Inr k"
  using assms by (auto simp: st_get_num_blocks_to_allocate_def Let_def)

lemma group_need_defined:
  assumes "\<And>i. i < length ms \<Longrightarrow> dget (num_cached_block (ms ! i)) rid = None \<or> nb ! i = []" "length nb = length ms"
  shows "\<exists>k. \<forall>i < length ms. group_need p rid n nb nenc nt nl cap i (ms ! i) = Inr (k i)"
proof -
  have "\<forall>i. \<exists>k. i < length ms \<longrightarrow> group_need p rid n nb nenc nt nl cap i (ms ! i) = Inr k"
  proof
    fix i
    show "\<exists>k. i < length ms \<longrightarrow> group_need p rid n nb nenc nt nl cap i (ms ! i) = Inr k"
      using assms need_defined [of "ms ! i" rid "nb ! i"] need_defined [of "ms ! i" rid "[]"] by (simp add: group_need_def)
  qed
  then show ?thesis by (rule choice)
qed

lemma running_alloc:
  assumes ok: "pool_ok (block_pool co) fl" and all: "all_ok (block_pool co) (single_type_managers co)"
    and run: "running_call (single_type_managers co) rid nlocal"
    and none: "\<And>m. m \<in> set (single_type_managers co) \<Longrightarrow> dget (partial_hit_reqs m) rid = None"
    and nb: "length nb = length (single_type_managers co)" "\<And>bl. bl \<in> set nb \<Longrightarrow> bl = []"
    and need: "get_num_blocks_to_allocate co rid n nb nenc nlocal nlocal False = Inr k" and fits: "k \<le> int (length fl)"
  shows "\<exists>news co3 fl'. allocate_new_blocks rid n nenc co = Inr (news, co3) \<and>
    kept_all (block_pool co) (single_type_managers co) (block_pool co3) fl' (single_type_managers co3) \<and>
    co3 = co\<lparr>single_type_managers := single_type_managers co3, block_pool := block_pool co3\<rparr> \<and>
    int (length fl) \<le> int (length fl') + k \<and> list_all2 (slots_done rid n nenc) (single_type_managers co) (single_type_managers co3)"
proof -
  let ?ms = "single_type_managers co"
  let ?c = "\<lambda>i. new_cost (?ms ! i) rid (if is_cross (?ms ! i) then nenc else n)"
  have "group_need (block_pool co) rid n nb nenc nlocal nlocal False i (?ms ! i) = Inr (int (?c i))" if i: "i < length ?ms" for i
  proof (rule running_need)
    show "st_ok (block_pool co) (?ms ! i)" using all i by (simp add: all_ok_def)
    show "0 \<le> nlocal" "is_cross (?ms ! i) \<or> cdiv nlocal (mgr_block_size (?ms ! i)) \<le> int (length (blocks_of (?ms ! i) rid))"
      using run i by (auto simp: running_call_def)
    show "py_index nb (int i) = Inr []" using nb i nth_mem [of i nb] by simp
  qed
  from need_sum [of co, OF this] need have k: "k = int (\<Sum>i < length ?ms. ?c i)" by simp
  have z: "cow_cost (?ms ! i) rid = 0" if "i < length ?ms" for i using none [OF nth_mem [OF that]] by (simp add: cow_cost_def)
  have eq: "(\<Sum>i < length ?ms. cow_cost (?ms ! i) rid + ?c i) = (\<Sum>i < length ?ms. ?c i)" by (rule sum.cong) (auto simp: z)
  from new_blocks_phase [OF ok all, of rid nenc n, unfolded eq] k fits show ?thesis by (simp flip: of_nat_add of_nat_sum)
qed

text \<open>Releasing blocks outside the window leaves the preconditions of the call in place.\<close>

lemma call_after_removal:
  assumes k: "kept_all p ms q fl ms'"
    and rel: "list_all2 (\<lambda>m m'. only_req rid m m' \<and> length (blocks_of m' rid) = length (blocks_of m rid) \<and>
      num_cached_block m' = num_cached_block m \<and> partial_hit_reqs m' = partial_hit_reqs m) ms ms'"
  shows "fresh_call p ms rid nlocal next nb \<Longrightarrow> fresh_call q ms' rid nlocal next nb" "running_call ms rid nlocal \<Longrightarrow> running_call ms' rid nlocal"
proof -
  have len: "length ms' = length ms" using kept_allD(4) [OF k] .
  have R: "length (blocks_of (ms' ! i) rid) = length (blocks_of (ms ! i) rid)" "num_cached_block (ms' ! i) = num_cached_block (ms ! i)"
    "partial_hit_reqs (ms' ! i) = partial_hit_reqs (ms ! i)" "mgr_block_size (ms' ! i) = mgr_block_size (ms ! i)"
    "mgr_caching (ms' ! i) = mgr_caching (ms ! i)" "is_cross (ms' ! i) = is_cross (ms ! i)" if "i < length ms" for i
    using list_all2_nthD [OF rel that] mgr_configD [OF kept_all_nth [OF k that]] by simp_all
  show "fresh_call q ms' rid nlocal next nb" if f: "fresh_call p ms rid nlocal next nb"
  proof -
    have "hit_ok q (ms' ! i) nlocal (nb ! i)" if "i < length ms" for i
      using f that R [OF that] config_eqs(5) [OF kept_allD(2) [OF k]] by (simp add: fresh_call_def hit_ok_def)
    moreover have "blocks_of m rid = [] \<and> dget (num_cached_block m) rid = None \<and> dget (partial_hit_reqs m) rid = None" if "m \<in> set ms'" for m
    proof -
      from that obtain i where i: "i < length ms" "m = ms' ! i" using len by (auto simp: in_set_conv_nth)
      then show ?thesis using f R [OF i(1)] nth_mem [OF i(1)] by (auto simp: fresh_call_def)
    qed
    ultimately show ?thesis using f len by (simp add: fresh_call_def)
  qed
  show "running_call ms' rid nlocal" if f: "running_call ms rid nlocal"
    using f R len by (auto simp: running_call_def all_set_conv_all_nth)
qed

lemma kv_blocks_facts:
  assumes ok: "km_ok km held fl" and call: "slot_call km r a"
  shows "length (kv_blocks km (sa_new_computed_blocks a)) = length (single_type_managers (coordinator km))"
    "sa_new_computed_blocks a = None \<Longrightarrow> bl \<in> set (kv_blocks km (sa_new_computed_blocks a)) \<Longrightarrow> bl = []"
    "i < length (single_type_managers (coordinator km)) \<Longrightarrow>
       dget (num_cached_block (single_type_managers (coordinator km) ! i)) (request_id r) = None \<or> kv_blocks km (sa_new_computed_blocks a) ! i = []"
proof -
  have e: "sa_new_computed_blocks a = None \<Longrightarrow> kv_blocks km (sa_new_computed_blocks a) = replicate (length (single_type_managers (coordinator km))) []"
    using km_okD(7) [OF ok] by (simp add: kv_blocks_def empty_blocks_def map_replicate_const)
  then show "bl = []" if "sa_new_computed_blocks a = None" "bl \<in> set (kv_blocks km (sa_new_computed_blocks a))" using that by simp
  show "length (kv_blocks km (sa_new_computed_blocks a)) = length (single_type_managers (coordinator km))"
    using call e by (auto simp: slot_call_def fresh_call_def)
  show "dget (num_cached_block (single_type_managers (coordinator km) ! i)) (request_id r) = None \<or> kv_blocks km (sa_new_computed_blocks a) ! i = []"
    if "i < length (single_type_managers (coordinator km))"
    using call e that by (auto simp: slot_call_def fresh_call_def)
qed

lemma slot_tokens:
  assumes "slot_call km r a"
  shows "total_computed km r a = local_computed r a + sa_external_computed_tokens a"
    "local_computed r a + sa_external_computed_tokens a \<le> tokens_need_slot km r a"
  using assms by (auto simp: slot_call_def total_computed_def tokens_need_slot_def)

text \<open>After the check of the free blocks nothing can fail before the caching.\<close>

lemma slots_allocated:
  assumes ok: "km_ok km held fl" and call: "slot_call km r a"
    and need: "get_num_blocks_to_allocate (coordinator km) (request_id r) (tokens_need_slot km r a) (kv_blocks km (sa_new_computed_blocks a))
      (sa_encoder_tokens a) (local_computed r a + sa_external_computed_tokens a) (local_computed r a) False = Inr k"
    and fits: "k \<le> int (length fl)"
  shows "\<exists>co2 news co3 fl3.
    (if sa_new_computed_blocks a \<noteq> None \<or> sa_external_computed_tokens a > 0
     then allocate_new_computed_blocks (request_id r) (kv_blocks km (sa_new_computed_blocks a)) (local_computed r a) (sa_external_computed_tokens a)
            (coordinator km) else Inr (coordinator km)) = Inr co2 \<and>
    allocate_new_blocks (request_id r) (tokens_need_slot km r a) (sa_encoder_tokens a) co2 = Inr (news, co3) \<and>
    km_ok (km\<lparr>coordinator := co3\<rparr>) held fl3 \<and> int (length fl) \<le> int (length fl3) + k \<and>
    list_all2 (slots_done (request_id r) (tokens_need_slot km r a) (sa_encoder_tokens a))
      (single_type_managers (coordinator km)) (single_type_managers co3)"
proof -
  note D = km_okD [OF ok] and B = kv_blocks_facts [OF ok call] and T = slot_tokens [OF call]
  let ?co = "coordinator km" and ?nb = "kv_blocks km (sa_new_computed_blocks a)" and ?rid = "request_id r"
  let ?n = "tokens_need_slot km r a" and ?nenc = "sa_encoder_tokens a" and ?l = "local_computed r a" and ?e = "sa_external_computed_tokens a"
  let ?c = "sa_new_computed_blocks a \<noteq> None \<or> ?e > 0"
  have "\<exists>co2 news co3 fl3. (if ?c then allocate_new_computed_blocks ?rid ?nb ?l ?e ?co else Inr ?co) = Inr co2 \<and>
    allocate_new_blocks ?rid ?n ?nenc co2 = Inr (news, co3) \<and>
    kept_all (block_pool ?co) (single_type_managers ?co) (block_pool co3) fl3 (single_type_managers co3) \<and>
    co3 = ?co\<lparr>single_type_managers := single_type_managers co3, block_pool := block_pool co3\<rparr> \<and>
    int (length fl) \<le> int (length fl3) + k \<and> list_all2 (slots_done ?rid ?n ?nenc) (single_type_managers ?co) (single_type_managers co3)"
  proof (cases "fresh_call (block_pool ?co) (single_type_managers ?co) ?rid ?l ?e ?nb")
    case True
    have "?c \<or> ?e = 0 \<and> (\<forall>bl \<in> set ?nb. bl = [])" using B(2) True by (auto simp: fresh_call_def)
    from fresh_alloc [OF D(1,2) True T(2) need fits this] show ?thesis .
  next
    case False
    then have c: "sa_new_computed_blocks a = None" "?e = 0" "running_call (single_type_managers ?co) ?rid ?l" using call by (auto simp: slot_call_def)
    have nd: "get_num_blocks_to_allocate ?co ?rid ?n ?nb ?nenc ?l ?l False = Inr k" using need c(2) by simp
    from running_alloc [OF D(1,2) c(3) D(3) B(1) B(2) [OF c(1)] nd fits] c(1,2) show ?thesis by simp
  qed
  then obtain co2 news co3 fl3 where a: "(if ?c then allocate_new_computed_blocks ?rid ?nb ?l ?e ?co else Inr ?co) = Inr co2"
    "allocate_new_blocks ?rid ?n ?nenc co2 = Inr (news, co3)"
    "kept_all (block_pool ?co) (single_type_managers ?co) (block_pool co3) fl3 (single_type_managers co3)"
    "co3 = ?co\<lparr>single_type_managers := single_type_managers co3, block_pool := block_pool co3\<rparr>"
    "int (length fl) \<le> int (length fl3) + k" "list_all2 (slots_done ?rid ?n ?nenc) (single_type_managers ?co) (single_type_managers co3)" by blast
  have "dget (partial_hit_reqs m) rid = None" if "m \<in> set (single_type_managers co3)" for m rid
    by (rule partial_none_all2 [OF list_all2_mono [OF a(6)] _ that]) (use D(3) in \<open>auto simp: slots_done_def\<close>)
  from km_ok_kept [OF ok a(3) this] a(4) have "km_ok (km\<lparr>coordinator := co3\<rparr>) held fl3" by simp
  then show ?thesis using a(1,2,5,6) by blast
qed

text \<open>The three outcomes: the gate refuses, too few blocks are free after the release, or the request has its blocks.\<close>

definition slots_granted :: "hash_env \<Rightarrow> request \<Rightarrow> slot_args \<Rightarrow> kv_manager \<Rightarrow> coordinator \<Rightarrow> bref list list \<Rightarrow> bool" where
  "slots_granted env r a km co3 news \<longleftrightarrow>
     allocate_slots env r a km =
       (if \<not> km_caching km \<or> sa_delay_cache_blocks a then Inr (Some (create_kv_cache_blocks news), r, km\<lparr>coordinator := co3\<rparr>)
        else ebind (cache_blocks env r (min (total_computed km r a + sa_new_tokens a) (num_tokens r)) co3)
               (\<lambda>(r', co4). Inr (Some (create_kv_cache_blocks news), r', km\<lparr>coordinator := co4\<rparr>))) \<and>
     list_all2 (slots_done (request_id r) (tokens_need_slot km r a) (sa_encoder_tokens a))
       (single_type_managers (coordinator km)) (single_type_managers co3)"

definition blocks_needed :: "request \<Rightarrow> slot_args \<Rightarrow> kv_manager \<Rightarrow> coordinator \<Rightarrow> int result" where
  "blocks_needed r a km co =
     get_num_blocks_to_allocate co (request_id r) (tokens_need_slot km r a) (kv_blocks km (sa_new_computed_blocks a)) (sa_encoder_tokens a)
       (local_computed r a + sa_external_computed_tokens a) (local_computed r a) False"

definition release_skipped :: "request \<Rightarrow> slot_args \<Rightarrow> kv_manager \<Rightarrow> coordinator result" where
  "release_skipped r a km =
     co_remove_skipped_blocks (request_id r) (max 0 (total_computed km r a - num_in_flight_tokens r)) (Some (num_prompt_tokens r)) (coordinator km)"

lemma release_skipped_ok:
  assumes ok: "km_ok km held fl" and call: "slot_call km r a"
  shows "\<exists>co1 fl1. release_skipped r a km = Inr co1 \<and> km_ok (km\<lparr>coordinator := co1\<rparr>) held fl1 \<and> slot_call (km\<lparr>coordinator := co1\<rparr>) r a \<and>
    kv_cache_groups co1 = kv_cache_groups (coordinator km) \<and> map mgr_config (single_type_managers co1) = map mgr_config (single_type_managers (coordinator km)) \<and>
    list_all2 (only_req (request_id r)) (single_type_managers (coordinator km)) (single_type_managers co1)"
proof -
  note D = km_okD [OF ok]
  let ?co = "coordinator km"
  from co_remove_skipped_kept [OF D(1,2) D(3)] obtain ms' q fl' where
    e: "release_skipped r a km = Inr (?co\<lparr>single_type_managers := ms', block_pool := q\<rparr>)"
      "kept_all (block_pool ?co) (single_type_managers ?co) q fl' ms'"
      "list_all2 (\<lambda>m m'. only_req (request_id r) m m' \<and> length (blocks_of m' (request_id r)) = length (blocks_of m (request_id r)) \<and>
        num_cached_block m' = num_cached_block m \<and> partial_hit_reqs m' = partial_hit_reqs m) (single_type_managers ?co) ms'"
    unfolding release_skipped_def by meson
  let ?co1 = "?co\<lparr>single_type_managers := ms', block_pool := q\<rparr>"
  have none: "dget (partial_hit_reqs m) rid = None" if "m \<in> set ms'" for m rid
  proof -
    from that obtain i where i: "i < length ms'" "m = ms' ! i" by (auto simp: in_set_conv_nth)
    then have "i < length (single_type_managers ?co)" using kept_allD(4) [OF e(2)] by simp
    then show ?thesis using list_all2_nthD [OF e(3)] D(3) i by auto
  qed
  have "slot_call (km\<lparr>coordinator := ?co1\<rparr>) r a"
    using call call_after_removal [OF e(2,3)] by (auto simp: slot_call_def kv_blocks_def empty_blocks_def split: option.splits)
  moreover have "list_all2 (only_req (request_id r)) (single_type_managers ?co) ms'" by (rule list_all2_mono [OF e(3)]) blast
  ultimately show ?thesis using e(1) km_ok_kept [OF ok e(2) none] kept_allD(3) [OF e(2)] by (intro exI [of _ ?co1] exI [of _ fl']) simp
qed

lemma need_total:
  assumes ok: "km_ok km held fl" and call: "slot_call km r a"
  shows "\<exists>k. get_num_blocks_to_allocate (coordinator km) (request_id r) n (kv_blocks km (sa_new_computed_blocks a)) nenc nt nl cap = Inr k"
proof -
  note B = kv_blocks_facts [OF ok call]
  from group_need_defined [OF B(3,1)] obtain k where
    "\<And>i. i < length (single_type_managers (coordinator km)) \<Longrightarrow> group_need (block_pool (coordinator km)) (request_id r) n
      (kv_blocks km (sa_new_computed_blocks a)) nenc nt nl cap i (single_type_managers (coordinator km) ! i) = Inr (k i)" by meson
  from need_sum [of "coordinator km", OF this] show ?thesis by blast
qed

lemma full_sequence_fits_ok:
  assumes ok: "km_ok km held fl" and call: "slot_call km r a"
  shows "\<exists>fits. full_sequence_fits r a km = Inr fits"
  using need_total [OF ok call, of "min (num_tokens r) (km_max_model_len km)" "sa_encoder_tokens a" "total_computed km r a" "local_computed r a" True]
  by (auto simp: full_sequence_fits_def)

lemma allocate_slots_ok:
  assumes ok: "km_ok km held fl" and call: "slot_call km r a"
  shows "\<exists>fits. full_sequence_fits r a km = Inr fits \<and>
    (if \<not> fits then allocate_slots env r a km = Inr (None, r, km)
     else \<exists>co1 k fl1. release_skipped r a km = Inr co1 \<and> km_ok (km\<lparr>coordinator := co1\<rparr>) held fl1 \<and> blocks_needed r a km co1 = Inr k \<and>
       (if k + watermark km r a > get_num_free_blocks (block_pool co1) - sa_reserved_blocks a
        then allocate_slots env r a km = Inr (None, r, km\<lparr>coordinator := co1\<rparr>)
        else \<exists>news co3 fl3. slots_granted env r a km co3 news \<and> km_ok (km\<lparr>coordinator := co3\<rparr>) held fl3 \<and>
          get_num_free_blocks (block_pool co1) \<le> get_num_free_blocks (block_pool co3) + k))"
proof -
  from full_sequence_fits_ok [OF ok call] obtain fits where f: "full_sequence_fits r a km = Inr fits" ..
  have g: "\<not> (sa_new_tokens a = 0 \<and> sa_external_computed_tokens a = 0)" using call by (auto simp: slot_call_def)
  show ?thesis
  proof (cases fits)
    case False
    then show ?thesis using f g by (auto simp: allocate_slots_def Let_def)
  next
    case True
    from release_skipped_ok [OF ok call] obtain co1 fl1 where
      r1: "release_skipped r a km = Inr co1" "km_ok (km\<lparr>coordinator := co1\<rparr>) held fl1" "slot_call (km\<lparr>coordinator := co1\<rparr>) r a"
        "kv_cache_groups co1 = kv_cache_groups (coordinator km)" "map mgr_config (single_type_managers co1) = map mgr_config (single_type_managers (coordinator km))"
        "list_all2 (only_req (request_id r)) (single_type_managers (coordinator km)) (single_type_managers co1)" by blast
    have same: "kv_blocks (km\<lparr>coordinator := co1\<rparr>) = kv_blocks km" "tokens_need_slot (km\<lparr>coordinator := co1\<rparr>) r a = tokens_need_slot km r a"
      "coordinator (km\<lparr>coordinator := co1\<rparr>) = co1" "\<And>co. km\<lparr>coordinator := co1, coordinator := co\<rparr> = km\<lparr>coordinator := co\<rparr>"
      using r1(4) by (simp_all add: kv_blocks_def empty_blocks_def tokens_need_slot_def total_computed_def fun_eq_iff split: option.split)
    have "\<exists>k. blocks_needed r a km co1 = Inr k" unfolding blocks_needed_def using need_total [OF r1(2,3)] by (simp add: same)
    then obtain k where k: "blocks_needed r a km co1 = Inr k" ..
    note D1 = km_okD [OF r1(2)]
    have free: "get_num_free_blocks (block_pool co1) = int (length fl1)" using pool_okD(9) [OF D1(1)] by simp
    show ?thesis
    proof (cases "k + watermark km r a > get_num_free_blocks (block_pool co1) - sa_reserved_blocks a")
      case full: True
      have "allocate_slots env r a km = Inr (None, r, km\<lparr>coordinator := co1\<rparr>)"
        using f True g r1(1) k full by (simp add: allocate_slots_def Let_def release_skipped_def blocks_needed_def)
      then show ?thesis using f True r1(1,2) k full by auto
    next
      case room: False
      have "0 \<le> watermark km r a" "0 \<le> sa_reserved_blocks a" using km_okD(8) [OF ok] call by (simp_all add: watermark_def slot_call_def)
      then have "k \<le> int (length fl1)" using room free by linarith
      from slots_allocated [OF r1(2,3) _ this, unfolded same, OF k [unfolded blocks_needed_def]] obtain co2 news co3 fl3 where
        a: "(if sa_new_computed_blocks a \<noteq> None \<or> sa_external_computed_tokens a > 0
           then allocate_new_computed_blocks (request_id r) (kv_blocks km (sa_new_computed_blocks a)) (local_computed r a) (sa_external_computed_tokens a)
                  co1 else Inr co1) = Inr co2" "allocate_new_blocks (request_id r) (tokens_need_slot km r a) (sa_encoder_tokens a) co2 = Inr (news, co3)"
          "km_ok (km\<lparr>coordinator := co3\<rparr>) held fl3" "int (length fl1) \<le> int (length fl3) + k"
          "list_all2 (slots_done (request_id r) (tokens_need_slot km r a) (sa_encoder_tokens a)) (single_type_managers co1) (single_type_managers co3)"
        by blast
      have "slots_granted env r a km co3 news"
        using f True r1(1) k room a(1,2) slots_done_trans [OF r1(6,5) a(5)] unfolding slots_granted_def allocate_slots_def if_not_P [OF g]
        by (simp add: Let_def release_skipped_def blocks_needed_def)
      moreover have "get_num_free_blocks (block_pool co1) \<le> get_num_free_blocks (block_pool co3) + k"
        using free a(4) pool_okD(9) [OF km_okD(1) [OF a(3)]] by simp
      ultimately show ?thesis using f True r1(1,2) k room a(3) by auto
    qed
  qed
qed

lemma slots_outcome:
  assumes ok: "km_ok km held fl" and call: "slot_call km r a"
  shows "full_sequence_fits r a km = Inr False \<Longrightarrow> allocate_slots env r a km = Inr (None, r, km)"
    "full_sequence_fits r a km = Inr True \<Longrightarrow> \<exists>co1 k. release_skipped r a km = Inr co1 \<and> blocks_needed r a km co1 = Inr k"
    "full_sequence_fits r a km = Inr True \<Longrightarrow> release_skipped r a km = Inr co1 \<Longrightarrow> blocks_needed r a km co1 = Inr k \<Longrightarrow>
       k + watermark km r a > get_num_free_blocks (block_pool co1) - sa_reserved_blocks a \<Longrightarrow>
       allocate_slots env r a km = Inr (None, r, km\<lparr>coordinator := co1\<rparr>)"
    "full_sequence_fits r a km = Inr True \<Longrightarrow> release_skipped r a km = Inr co1 \<Longrightarrow> blocks_needed r a km co1 = Inr k \<Longrightarrow>
       \<not> k + watermark km r a > get_num_free_blocks (block_pool co1) - sa_reserved_blocks a \<Longrightarrow>
       \<exists>news co3 fl3. slots_granted env r a km co3 news \<and> km_ok (km\<lparr>coordinator := co3\<rparr>) held fl3 \<and>
         get_num_free_blocks (block_pool co1) \<le> get_num_free_blocks (block_pool co3) + k"
proof -
  from allocate_slots_ok [OF ok call, of env] obtain fits where f: "full_sequence_fits r a km = Inr fits"
    and g: "if \<not> fits then allocate_slots env r a km = Inr (None, r, km)
     else \<exists>co1 k fl1. release_skipped r a km = Inr co1 \<and> km_ok (km\<lparr>coordinator := co1\<rparr>) held fl1 \<and> blocks_needed r a km co1 = Inr k \<and>
       (if k + watermark km r a > get_num_free_blocks (block_pool co1) - sa_reserved_blocks a
        then allocate_slots env r a km = Inr (None, r, km\<lparr>coordinator := co1\<rparr>)
        else \<exists>news co3 fl3. slots_granted env r a km co3 news \<and> km_ok (km\<lparr>coordinator := co3\<rparr>) held fl3 \<and>
          get_num_free_blocks (block_pool co1) \<le> get_num_free_blocks (block_pool co3) + k)" by (elim exE conjE) (rule that)
  show "full_sequence_fits r a km = Inr False \<Longrightarrow> allocate_slots env r a km = Inr (None, r, km)" using f g by simp
  have T: "\<exists>co1 k. release_skipped r a km = Inr co1 \<and> blocks_needed r a km co1 = Inr k \<and>
       (if k + watermark km r a > get_num_free_blocks (block_pool co1) - sa_reserved_blocks a
        then allocate_slots env r a km = Inr (None, r, km\<lparr>coordinator := co1\<rparr>)
        else \<exists>news co3 fl3. slots_granted env r a km co3 news \<and> km_ok (km\<lparr>coordinator := co3\<rparr>) held fl3 \<and>
          get_num_free_blocks (block_pool co1) \<le> get_num_free_blocks (block_pool co3) + k)" if "full_sequence_fits r a km = Inr True"
  proof -
    have "fits = True" using that f by simp
    with g show ?thesis by (simp only: not_True_eq_False if_False) (elim exE conjE, intro exI conjI)
  qed
  then show "full_sequence_fits r a km = Inr True \<Longrightarrow> \<exists>co1 k. release_skipped r a km = Inr co1 \<and> blocks_needed r a km co1 = Inr k" by blast
  assume t: "full_sequence_fits r a km = Inr True" "release_skipped r a km = Inr co1" "blocks_needed r a km co1 = Inr k"
  from T [OF t(1)] obtain co2 k2 where u: "release_skipped r a km = Inr co2" "blocks_needed r a km co2 = Inr k2"
    "if k2 + watermark km r a > get_num_free_blocks (block_pool co2) - sa_reserved_blocks a
        then allocate_slots env r a km = Inr (None, r, km\<lparr>coordinator := co2\<rparr>)
        else \<exists>news co3 fl3. slots_granted env r a km co3 news \<and> km_ok (km\<lparr>coordinator := co3\<rparr>) held fl3 \<and>
          get_num_free_blocks (block_pool co2) \<le> get_num_free_blocks (block_pool co3) + k2" by (elim exE conjE) (rule that)
  have e: "co2 = co1" using t(2) u(1) by simp
  then have e2: "k2 = k" using t(3) u(2) by simp
  note U = u(3) [unfolded e e2]
  show "k + watermark km r a > get_num_free_blocks (block_pool co1) - sa_reserved_blocks a \<Longrightarrow>
       allocate_slots env r a km = Inr (None, r, km\<lparr>coordinator := co1\<rparr>)" using U by (simp only: if_True)
  show "\<not> k + watermark km r a > get_num_free_blocks (block_pool co1) - sa_reserved_blocks a \<Longrightarrow>
       \<exists>news co3 fl3. slots_granted env r a km co3 news \<and> km_ok (km\<lparr>coordinator := co3\<rparr>) held fl3 \<and>
         get_num_free_blocks (block_pool co1) \<le> get_num_free_blocks (block_pool co3) + k" using U by (simp only: if_False)
qed


section \<open>Reachable managers\<close>

text \<open>
  A call that raises ends the run. The scheduler gives back only blocks it holds, and evicts by the ids of blocks of the pool.
\<close>

inductive km_reach :: "kv_manager \<Rightarrow> bref list \<Rightarrow> bool" where
  reach_start: "config_ok c \<Longrightarrow> km_init c w = Inr km \<Longrightarrow> km_reach km []"
| reach_lookup: "km_reach km held \<Longrightarrow> get_computed_blocks env full r km = Some (Inr (b, n, bd, r', km')) \<Longrightarrow> km_reach km' held"
| reach_slots: "km_reach km held \<Longrightarrow> slot_call km r a \<Longrightarrow> allocate_slots env r a km = Inr (res, r', km') \<Longrightarrow> km_reach km' held"
| reach_cache: "km_reach km held \<Longrightarrow> km_cache_blocks env r n km = Inr (r', km') \<Longrightarrow> km_reach km' held"
| reach_free: "km_reach km held \<Longrightarrow> km_free r km = Inr km' \<Longrightarrow> km_reach km' held"
| reach_skip: "km_reach km held \<Longrightarrow> km_remove_skipped_blocks rid n np km = Inr km' \<Longrightarrow> km_reach km' held"
| reach_pop: "km_reach km held \<Longrightarrow> km_pop_blocks_for_free r km = (bl, km') \<Longrightarrow> km_reach km' (held @ bl)"
| reach_release: "km_reach km held \<Longrightarrow> (\<And>b. count_list held b = count_list bl b + count_list held' b) \<Longrightarrow>
    free_blocks bl (block_pool (coordinator km)) = Inr q \<Longrightarrow> km_reach (km\<lparr>coordinator := (coordinator km)\<lparr>block_pool := q\<rparr>\<rparr>) held'"
| reach_evict: "km_reach km held \<Longrightarrow> (\<And>i. i \<in> set ids \<Longrightarrow> 0 \<le> i \<and> i < num_gpu_blocks (block_pool (coordinator km))) \<Longrightarrow>
    km_evict_blocks ids km = Inr km' \<Longrightarrow> km_reach km' held"
| reach_reset: "km_reach km held \<Longrightarrow> km_reset_prefix_cache km = (res, km') \<Longrightarrow> km_reach km' held"
| reach_events: "km_reach km held \<Longrightarrow> km_take_events km = (evs, km') \<Longrightarrow> km_reach km' held"
| reach_new_ids: "km_reach km held \<Longrightarrow> take_new_block_ids km = (ids, km') \<Longrightarrow> km_reach km' held"
| reach_zeroing: "km_reach km held \<Longrightarrow> get_zeroing_block_ids_in_range rid i j km = (ids, km') \<Longrightarrow> km_reach km' held"
| reach_record: "km_reach km held \<Longrightarrow> record_blocks_for_zeroing rid i km = Inr km' \<Longrightarrow> km_reach km' held"
| reach_copies: "km_reach km held \<Longrightarrow> take_kv_cache_block_copies km = (copies, bl, km') \<Longrightarrow> km_reach km' (held @ bl)"
| reach_prefix: "km_reach km held \<Longrightarrow> km_get_num_common_prefix_blocks rid km = (ns, km') \<Longrightarrow> km_reach km' held"

subsection \<open>The first state\<close>

definition fresh_mgr :: "st_manager \<Rightarrow> bool" where
  "fresh_mgr m \<longleftrightarrow> req_to_blocks m = [] \<and> partial_hit_reqs m = [] \<and> pending_cow_copies m = [] \<and> 0 < mgr_block_size m \<and> spec_ok (mgr_type m)"

lemma fresh_mgr_ok: "fresh_mgr m \<Longrightarrow> st_ok p m \<and> mgr_refs m b = 0 \<and> dget (partial_hit_reqs m) rid = None"
  by (simp add: fresh_mgr_def st_ok_def mgr_refs_def table_refs_def cow_refs_def blocks_of_def dget_default_def)

lemma coordinator_init_ok:
  assumes c: "config_ok c" and i: "coordinator_init kind caching c = Inr co"
  shows "\<exists>fl. pool_ok (block_pool co) fl \<and> (\<forall>i. ref_cnt (heap (block_pool co) (Blk i)) = 0) \<and> (\<forall>m \<in> set (single_type_managers co). fresh_mgr m) \<and>
    length (kv_cache_groups co) = length (single_type_managers co) \<and> 0 < cc_num_blocks c"
proof -
  from i obtain p ms where p: "pool_init (cc_num_blocks c) caching (cc_hash_block_size c) (cc_events c) (cc_use_int_hashes c) = Inr p"
    and ms: "emap (\<lambda>(i, g). get_manager_for_kv_cache_spec (kv_cache_spec g) (cc_max_in_flight_tokens c) (cc_max_model_len c) caching (int i)
      (cc_scheduler_block_size c) (cc_dcp_world_size c) (cc_zeroing c)) (List.enumerate 0 (cc_groups c)) = Inr ms"
    and co: "block_pool co = p" "single_type_managers co = ms" "kv_cache_groups co = cc_groups c"
    by (auto simp: coordinator_init_def Let_def)
  have pos: "0 < cc_num_blocks c" using p by (simp add: pool_init_def eassert_def split: if_splits)
  from pool_init_ok [OF pos, of caching "cc_hash_block_size c" "cc_events c" "cc_use_int_hashes c"] p
  obtain fl where "pool_ok p fl" "\<forall>i. ref_cnt (heap p (Blk i)) = 0" by auto
  moreover have "fresh_mgr m" if m: "m \<in> set ms" for m
  proof -
    from emap_elem [OF ms] m obtain j g where "(j, g) \<in> set (List.enumerate 0 (cc_groups c))"
      and r: "get_manager_for_kv_cache_spec (kv_cache_spec g) (cc_max_in_flight_tokens c) (cc_max_model_len c) caching (int j)
        (cc_scheduler_block_size c) (cc_dcp_world_size c) (cc_zeroing c) = Inr m" by fastforce
    then have "g \<in> set (cc_groups c)" by (auto simp: in_set_enumerate_eq)
    then show ?thesis using c r by (auto simp: config_ok_def get_manager_for_kv_cache_spec_def fresh_mgr_def split: if_splits)
  qed
  ultimately show ?thesis using co emap_elem [OF ms] pos by auto
qed

lemma fresh_mgr_eagle [simp]: "fresh_mgr (m\<lparr>mgr_use_eagle := e\<rparr>) = fresh_mgr m"
  by (simp add: fresh_mgr_def)

lemma split_fields:
  assumes "verify_and_split_kv_cache_groups co0 = Inr co"
  shows "block_pool co = block_pool co0" "kv_cache_groups co = kv_cache_groups co0" "length (single_type_managers co) = length (single_type_managers co0)"
    "(\<forall>m \<in> set (single_type_managers co0). fresh_mgr m) \<Longrightarrow> (\<forall>m \<in> set (single_type_managers co). fresh_mgr m)"
  using assms by (auto simp: verify_and_split_kv_cache_groups_def Let_def in_set_enumerate_eq split: if_splits)

lemma get_coordinator_ok:
  assumes c: "config_ok c" and i: "get_kv_cache_coordinator c = Inr co"
  shows "\<exists>fl. pool_ok (block_pool co) fl \<and> (\<forall>i. ref_cnt (heap (block_pool co) (Blk i)) = 0) \<and> (\<forall>m \<in> set (single_type_managers co). fresh_mgr m) \<and>
    length (kv_cache_groups co) = length (single_type_managers co) \<and> 0 < cc_num_blocks c"
proof -
  consider "coordinator_init NoPrefixCache False c = Inr co" | "unitary_init c = Inr co" | "hybrid_init c = Inr co"
    using i by (auto simp: get_kv_cache_coordinator_def split: if_splits)
  then show ?thesis
  proof cases
    case 1
    then show ?thesis using coordinator_init_ok [OF c] by blast
  next
    case 2
    then obtain co0 where "coordinator_init Unitary (cc_caching c) c = Inr co0" "block_pool co = block_pool co0" "kv_cache_groups co = kv_cache_groups co0"
      "single_type_managers co = map (\<lambda>m. m\<lparr>mgr_use_eagle := 0 \<in> set (eagle_group_ids co0)\<rparr>) (single_type_managers co0)"
      by (auto simp: unitary_init_def Let_def)
    then show ?thesis using coordinator_init_ok [OF c, of Unitary "cc_caching c" co0] by auto
  next
    case 3
    then obtain co0 where h: "coordinator_init Hybrid (cc_caching c) c = Inr co0" "verify_and_split_kv_cache_groups co0 = Inr co"
      by (auto simp: hybrid_init_def)
    from coordinator_init_ok [OF c h(1)] show ?thesis unfolding split_fields(1-3) [OF h(2)] using split_fields(4) [OF h(2)] by blast
  qed
qed

lemma km_init_ok:
  assumes c: "config_ok c" and i: "km_init c w = Inr km"
  shows "\<exists>fl. km_ok km [] fl"
proof -
  from i obtain co where co: "get_kv_cache_coordinator c = Inr co" "coordinator km = co" "partial_tail_pins km = []" "0 \<le> w"
      "watermark_blocks km = \<lfloor>w * of_int (cc_num_blocks c)\<rfloor>"
    by (auto simp: km_init_def)
  from get_coordinator_ok [OF c co(1)] obtain fl where
    p: "pool_ok (block_pool co) fl" "\<forall>i. ref_cnt (heap (block_pool co) (Blk i)) = 0" "\<forall>m \<in> set (single_type_managers co). fresh_mgr m"
      "length (kv_cache_groups co) = length (single_type_managers co)" "0 < cc_num_blocks c" by blast
  have wm: "0 \<le> watermark_blocks km" using co(4,5) p(5) by simp
  have "all_refs ms b = 0" if "\<forall>m \<in> set ms. fresh_mgr m" for ms b using that fresh_mgr_ok by (induction ms) auto
  then show ?thesis using p co(2,3) wm fresh_mgr_ok get_coordinator_wf [OF c co(1)] i by (auto simp: km_ok_def km_init_def Let_def real_blocks_def)
qed

subsection \<open>Each call\<close>

lemma same_events_trans: "same_but_events p q \<Longrightarrow> same_but_events q s \<Longrightarrow> same_but_events p s"
  by (cases p, cases q, cases s) (auto simp: same_but_events_def)

lemma same_events_refl: "same_but_events p p"
  by (simp add: same_but_events_def)

lemma emit_loop_same:
  assumes "efold (\<lambda>(i, blocks) (r, p). if blocks \<noteq> [] then ebind (py_index gs (int i)) (\<lambda>g.
      emit_cached_block_events env r (int (length blocks)) (spec_block_size (kv_cache_spec g)) (int i) p) else Inr (r, p)) xs (r, p) = Inr (r', q)"
  shows "same_but_events p q"
  using assms
proof (induction xs arbitrary: r p)
  case (Cons x xs)
  obtain i bl where [simp]: "x = (i, bl)" by (cases x)
  from Cons.prems obtain r1 p1 where s: "(if bl \<noteq> [] then ebind (py_index gs (int i)) (\<lambda>g.
      emit_cached_block_events env r (int (length bl)) (spec_block_size (kv_cache_spec g)) (int i) p) else Inr (r, p)) = Inr (r1, p1)"
    and rest: "efold (\<lambda>(i, blocks) (r, p). if blocks \<noteq> [] then ebind (py_index gs (int i)) (\<lambda>g.
      emit_cached_block_events env r (int (length blocks)) (spec_block_size (kv_cache_spec g)) (int i) p) else Inr (r, p)) xs (r1, p1) = Inr (r', q)"
    by auto
  have "same_but_events p p1" using s emit_cached_same same_events_refl by (auto split: if_splits)
  then show ?case using Cons.IH [OF rest] same_events_trans by blast
qed (simp add: same_events_refl)

lemma km_ok_events:
  assumes ok: "km_ok km held fl" and e: "same_but_events (block_pool (coordinator km)) q"
  shows "km_ok (km\<lparr>coordinator := (coordinator km)\<lparr>block_pool := q\<rparr>\<rparr>) held fl"
  by (rule km_ok_core [OF ok same_but_events_ok [OF e km_okD(1) [OF ok]] same_but_events_fields(2) [OF e]])

lemma lookup_ok:
  assumes ok: "km_ok km held fl" and g: "get_computed_blocks env full r km = Some (Inr (b, n, bd, r', km'))"
  shows "km_ok km' held fl"
proof (cases "prefix_cache_lookup_enabled km r")
  case False
  then show ?thesis using ok g by (simp add: get_computed_blocks_def)
next
  case True
  let ?E = "\<lambda>computed n. if n > 0 \<and> km_events km \<and> full
     then efold (\<lambda>(i, blocks) (r, p). if blocks \<noteq> [] then ebind (py_index (kv_cache_groups (coordinator km)) (int i)) (\<lambda>g.
       emit_cached_block_events env r (int (length blocks)) (spec_block_size (kv_cache_spec g)) (int i) p) else Inr (r, p))
       (List.enumerate 0 computed) (r, block_pool (coordinator km))
     else Inr (r, block_pool (coordinator km))"
  from g True obtain computed u where h: "find_longest_cache_hit (coordinator km) (block_hashes r) (num_tokens r - 1) = Some (Inr (computed, n, u))"
    by (auto simp: get_computed_blocks_def bind_eq_Some_conv)
  from g True obtain q where q: "?E computed n = Inr (r', q)" "km' = km\<lparr>coordinator := (coordinator km)\<lparr>block_pool := q\<rparr>\<rparr>"
    unfolding get_computed_blocks_def h by (auto simp del: efold.simps)
  have "same_but_events (block_pool (coordinator km)) q"
  proof (cases "n > 0 \<and> km_events km \<and> full")
    case True
    then show ?thesis using q(1) emit_loop_same by simp blast
  qed (use q(1) same_events_refl in auto)
  then show ?thesis using km_ok_events [OF ok] q(2) by simp
qed

lemma km_caching_ok:
  assumes ok: "km_ok km held fl" and c: "cache_blocks env r n (coordinator km) = Inr (r', co)"
  shows "km_ok (km\<lparr>coordinator := co\<rparr>) held fl"
proof -
  note D = km_okD [OF ok]
  from c obtain ms q where m: "cache_each env (retention_interval (coordinator km)) (tokens_to_cache (coordinator km) n)
      (single_type_managers (coordinator km)) r (block_pool (coordinator km)) = Inr (r', ms, q)"
    and co: "co = (coordinator km)\<lparr>single_type_managers := ms, block_pool := q\<rparr>" by (auto simp: cache_blocks_def)
  from cache_each_kept [OF D(1,2) m] have k: "kept_all (block_pool (coordinator km)) (single_type_managers (coordinator km)) q fl ms"
    "map partial_hit_reqs ms = map partial_hit_reqs (single_type_managers (coordinator km))" by auto
  have "dget (partial_hit_reqs m) rid = None" if "m \<in> set ms" for m rid
  proof -
    have "partial_hit_reqs m \<in> set (map partial_hit_reqs (single_type_managers (coordinator km)))" using that k(2) by (metis image_eqI list.set_map)
    then show ?thesis using D(3) by auto
  qed
  from km_ok_kept [OF ok k(1) this] show ?thesis by (simp add: co)
qed

lemma slots_ok:
  assumes ok: "km_ok km held fl" and call: "slot_call km r a" and res: "allocate_slots env r a km = Inr (res, r', km')"
  shows "\<exists>fl'. km_ok km' held fl'"
proof -
  obtain fits where f: "full_sequence_fits r a km = Inr fits" using full_sequence_fits_ok [OF ok call] by blast
  consider "km' = km" | co1 fl1 where "km' = km\<lparr>coordinator := co1\<rparr>" "km_ok (km\<lparr>coordinator := co1\<rparr>) held fl1"
    | co3 news fl3 where "slots_granted env r a km co3 news" "km_ok (km\<lparr>coordinator := co3\<rparr>) held fl3"
  proof (cases fits)
    case False
    then show ?thesis using slots_outcome(1) [OF ok call, of env] f res that(1) by simp
  next
    case True
    obtain co1 k where c: "release_skipped r a km = Inr co1" "blocks_needed r a km co1 = Inr k" using slots_outcome(2) [OF ok call] f True by auto
    have "full_sequence_fits r a km = Inr True" using f True by simp
    note O = slots_outcome(3,4) [OF ok call this c, of env]
    show ?thesis
    proof (cases "k + watermark km r a > get_num_free_blocks (block_pool co1) - sa_reserved_blocks a")
      case True
      then show ?thesis using O(1) res release_skipped_ok [OF ok call] c(1) that(2) by fastforce
    next
      case False
      then show ?thesis using O(2) that(3) by blast
    qed
  qed
  then show ?thesis
  proof cases
    case 3
    then have "km' = km\<lparr>coordinator := co3\<rparr> \<or> (\<exists>n co4. cache_blocks env r n co3 = Inr (r', co4) \<and> km' = km\<lparr>coordinator := co4\<rparr>)"
      using res by (auto simp: slots_granted_def split: if_splits)
    then show ?thesis using 3(2) km_caching_ok [OF 3(2)] by (elim disjE exE conjE) (blast, fastforce)
  qed (use ok in auto)
qed

text \<open>Blocks that leave the tables or the pending copies of the managers and are held by the caller from then on.\<close>

lemma hand_over_ok:
  assumes ok: "km_ok km held fl"
    and f: "\<And>m p b. st_ok p m \<Longrightarrow> st_ok p (f m) \<and> mgr_refs (f m) b = mgr_refs m b - int (count_list (g m) b) \<and>
      set (g m) \<subseteq> insert (Blk 0) (real_blocks p) \<and> (\<forall>rid. dget (partial_hit_reqs m) rid = None \<longrightarrow> dget (partial_hit_reqs (f m)) rid = None) \<and>
      mgr_config (f m) = mgr_config m"
  shows "km_ok (km\<lparr>coordinator := (coordinator km)\<lparr>single_type_managers := map f (single_type_managers (coordinator km))\<rparr>\<rparr>)
    (held @ concat (map g (single_type_managers (coordinator km)))) fl"
proof -
  let ?p = "block_pool (coordinator km)" and ?ms = "single_type_managers (coordinator km)"
  have all: "all_refs (map f ms) b + int (count_list (concat (map g ms)) b) = all_refs ms b" if "\<forall>m \<in> set ms. st_ok ?p m" for ms b
    using that f [of ?p _ b] by (induction ms) auto
  have st: "\<forall>m \<in> set ?ms. st_ok ?p m" using ok by (simp add: km_ok_def Let_def)
  have "ref_cnt (heap ?p b) = all_refs (map f ?ms) b + int (count_list (held @ concat (map g ?ms)) b)" if "b \<in> real_blocks ?p" for b
    using all [OF st, of b] km_okD(4) [OF ok that] by simp
  moreover have "set (concat (map g ?ms)) \<subseteq> insert (Blk 0) (real_blocks ?p)" using st f by fastforce
  moreover have "\<forall>m \<in> set (map f ?ms). st_ok ?p m \<and> (\<forall>rid. dget (partial_hit_reqs m) rid = None)"
    using st f km_okD(3) [OF ok] by fastforce
  moreover have "co_wf ((coordinator km)\<lparr>single_type_managers := map f ?ms\<rparr>)"
    by (rule co_wf_map [OF km_okD(9) [OF ok]]) (use st f in blast)
  ultimately show ?thesis using km_okD(1,5-8,10) [OF ok] by (simp add: km_ok_def Let_def)
qed

lemma pop_ok:
  assumes ok: "km_ok km held fl" and r: "km_pop_blocks_for_free r km = (bl, km')"
  shows "km_ok km' (held @ bl) fl"
proof -
  have "km_ok (km\<lparr>coordinator := (coordinator km)\<lparr>single_type_managers := map (\<lambda>m. snd (st_pop_blocks_for_free (request_id r) m))
      (single_type_managers (coordinator km))\<rparr>\<rparr>) (held @ concat (map (\<lambda>m. fst (st_pop_blocks_for_free (request_id r) m))
      (single_type_managers (coordinator km)))) fl"
  proof (rule hand_over_ok [OF ok])
    fix m p b assume st: "st_ok p m"
    note P = pop_facts [OF st, where rid = "request_id r"]
    have "dget (partial_hit_reqs (snd (st_pop_blocks_for_free (request_id r) m))) rid = None" if "dget (partial_hit_reqs m) rid = None" for rid
      using that by (simp add: st_pop_blocks_for_free_def)
    then show "st_ok p (snd (st_pop_blocks_for_free (request_id r) m)) \<and>
      mgr_refs (snd (st_pop_blocks_for_free (request_id r) m)) b = mgr_refs m b - int (count_list (fst (st_pop_blocks_for_free (request_id r) m)) b) \<and>
      set (fst (st_pop_blocks_for_free (request_id r) m)) \<subseteq> insert (Blk 0) (real_blocks p) \<and>
      (\<forall>rid. dget (partial_hit_reqs m) rid = None \<longrightarrow> dget (partial_hit_reqs (snd (st_pop_blocks_for_free (request_id r) m))) rid = None) \<and>
      mgr_config (snd (st_pop_blocks_for_free (request_id r) m)) = mgr_config m"
      using P(1,2,3,8) st_okD(4) [OF st] by auto
  qed
  moreover from r have "bl = concat (map (\<lambda>m. fst (st_pop_blocks_for_free (request_id r) m)) (single_type_managers (coordinator km)))"
    "km' = km\<lparr>coordinator := (coordinator km)\<lparr>single_type_managers := map (\<lambda>m. snd (st_pop_blocks_for_free (request_id r) m))
      (single_type_managers (coordinator km))\<rparr>, partial_tail_pins := []\<rparr>"
    using km_okD(6) [OF ok] by (auto simp: km_pop_blocks_for_free_def co_pop_blocks_for_free_def)
  ultimately show ?thesis by (simp add: km_ok_def Let_def)
qed

lemma concat_pairs: "concat (map (\<lambda>m. concat (map f (g m))) ms) = concat (map f (concat (map g ms)))"
  by (induction ms) auto

lemma copies_ok:
  assumes ok: "km_ok km held fl" and r: "take_kv_cache_block_copies km = (copies, bl, km')"
  shows "km_ok km' (held @ bl) fl"
proof -
  have cnt: "int (count_list (concat (map (\<lambda>(s, c). [s, c]) xs)) b) = (\<Sum>(s, c) \<leftarrow> xs. int (count_list [s, c] b))" for xs :: "(bref \<times> bref) list" and b
    by (induction xs) auto
  have "km_ok (km\<lparr>coordinator := (coordinator km)\<lparr>single_type_managers := map (\<lambda>m. m\<lparr>pending_cow_copies := []\<rparr>)
      (single_type_managers (coordinator km))\<rparr>\<rparr>) (held @ concat (map (\<lambda>m. concat (map (\<lambda>(s, c). [s, c]) (pending_cow_copies m)))
      (single_type_managers (coordinator km)))) fl"
    by (rule hand_over_ok [OF ok])
      (auto simp: st_ok_def mgr_refs_def table_refs_def cow_refs_def cnt blocks_of_def mgr_config_def)
  then have "km_ok (km\<lparr>coordinator := (coordinator km)\<lparr>single_type_managers := map (\<lambda>m. m\<lparr>pending_cow_copies := []\<rparr>)
      (single_type_managers (coordinator km))\<rparr>\<rparr>) (held @ concat (map (\<lambda>(s, c). [s, c]) (concat (map pending_cow_copies
      (single_type_managers (coordinator km)))))) fl" by (simp only: concat_pairs)
  then show ?thesis using r by (auto simp: take_kv_cache_block_copies_def take_pending_cow_copies_def Let_def)
qed

lemma release_ok:
  assumes ok: "km_ok km held fl" and cnt: "\<And>b. count_list held b = count_list bl b + count_list held' b"
    and r: "free_blocks bl (block_pool (coordinator km)) = Inr q"
  shows "\<exists>fl'. km_ok (km\<lparr>coordinator := (coordinator km)\<lparr>block_pool := q\<rparr>\<rparr>) held' fl'"
proof -
  note D = km_okD [OF ok]
  have sub: "set bl \<union> set held' \<subseteq> insert (Blk 0) (real_blocks (block_pool (coordinator km)))"
  proof -
    have "x \<in> set held" if "x \<in> set bl \<union> set held'" for x using that cnt [of x] by (metis Un_iff add_is_0 count_list_0_iff)
    then show ?thesis using D(5) by blast
  qed
  have "int (count_list bl b) \<le> ref_cnt (heap (block_pool (coordinator km)) b)" if "b \<in> real_blocks (block_pool (coordinator km))" for b
    using D(4) [OF that] cnt [of b] all_refs_nonneg [of "single_type_managers (coordinator km)" b] by simp
  with sub free_blocks_ok [OF D(1), of bl] r obtain fl' where q: "pool_config q = pool_config (block_pool (coordinator km))" "pool_ok q fl'"
      "\<forall>c. ref_cnt (heap q c) = ref_cnt (heap (block_pool (coordinator km)) c) - int (count_list bl c)" by auto
  have "ref_cnt (heap q b) = all_refs (single_type_managers (coordinator km)) b + int (count_list held' b)"
    if "b \<in> real_blocks (block_pool (coordinator km))" for b using q(3) D(4) [OF that] cnt [of b] by simp
  then show ?thesis using ok q sub st_ok_config [OF q(1)] config_eqs(5) [OF q(1)] co_wf_cong [OF D(9) refl q(1)] by (auto simp: km_ok_def Let_def intro!: exI [of _ fl'])
qed

lemma skip_ok:
  assumes ok: "km_ok km held fl" and r: "km_remove_skipped_blocks rid n np km = Inr km'"
  shows "\<exists>fl'. km_ok km' held fl'"
proof -
  note D = km_okD [OF ok]
  from co_remove_skipped_kept [OF D(1,2,3), of rid n np] obtain ms' q fl' where
    e: "co_remove_skipped_blocks rid n np (coordinator km) = Inr ((coordinator km)\<lparr>single_type_managers := ms', block_pool := q\<rparr>)"
      "kept_all (block_pool (coordinator km)) (single_type_managers (coordinator km)) q fl' ms'"
    and l: "list_all2 (\<lambda>m m'. only_req rid m m' \<and> length (blocks_of m' rid) = length (blocks_of m rid) \<and>
      num_cached_block m' = num_cached_block m \<and> partial_hit_reqs m' = partial_hit_reqs m) (single_type_managers (coordinator km)) ms'" by blast
  have "dget (partial_hit_reqs m) i = None" if "m \<in> set ms'" for m i
    using that l D(3) by (fastforce simp: list_all2_conv_all_nth in_set_conv_nth)
  from km_ok_kept [OF ok e(2) this] show ?thesis using r e(1) by (auto simp: km_remove_skipped_blocks_def)
qed

lemma books_ok:
  assumes ok: "km_ok km held fl"
    and f: "\<And>m. f m = m \<or> f m = with_entry rid m \<or> (\<exists>ids. f m = m\<lparr>new_block_ids := ids\<rparr> \<or> f m = (with_entry rid m)\<lparr>new_block_ids := ids\<rparr>)"
  shows "km_ok (km\<lparr>coordinator := (coordinator km)\<lparr>single_type_managers := map f (single_type_managers (coordinator km))\<rparr>\<rparr>) held fl"
proof (rule km_ok_books [OF ok])
  fix m p assume st: "st_ok p m"
  have "mgr_refs (with_entry rid m) = mgr_refs m" using with_entry_refs [OF st_okD(3) [OF st]] by blast
  then show "st_ok p (f m) \<and> mgr_refs (f m) = mgr_refs m \<and> partial_hit_reqs (f m) = partial_hit_reqs m \<and> mgr_config (f m) = mgr_config m"
    using f [of m] st st_ok_with_entry [OF st, of rid] by auto
qed

lemma record_ok:
  assumes ok: "km_ok km held fl" and r: "record_blocks_for_zeroing rid n km = Inr km'"
  shows "km_ok km' held fl"
proof -
  let ?f = "\<lambda>m. if records_new_block_ids m
    then (with_entry rid m)\<lparr>new_block_ids := new_block_ids m @ map block_id (py_slice_from (blocks_of m rid) (n div mgr_block_size m))\<rparr> else m"
  from r obtain ms where e: "emap (\<lambda>m. if records_new_block_ids m
              then eassert (n mod mgr_block_size m = 0)
                     (let m1 = with_entry rid m in
                      Inr (m1\<lparr>new_block_ids := new_block_ids m1 @ map block_id (py_slice_from (blocks_of m1 rid) (n div mgr_block_size m))\<rparr>))
              else Inr m) (single_type_managers (coordinator km)) = Inr ms"
    and km': "km' = km\<lparr>coordinator := (coordinator km)\<lparr>single_type_managers := ms\<rparr>\<rparr>"
    by (auto simp: record_blocks_for_zeroing_def)
  have "ms = map ?f (single_type_managers (coordinator km))" using e
    unfolding emap_eq_Inr by (auto intro!: nth_equalityI simp: blocks_of_with_entry split: if_splits)
  moreover have "km_ok (km\<lparr>coordinator := (coordinator km)\<lparr>single_type_managers := map ?f (single_type_managers (coordinator km))\<rparr>\<rparr>) held fl"
    by (rule books_ok [OF ok, of ?f rid]) auto
  ultimately show ?thesis by (simp add: km')
qed

lemma reset_cache_kept:
  assumes ok: "km_ok km held fl" and r: "km_reset_prefix_cache km = (fin, km')"
  shows "km_ok km' held fl"
proof -
  obtain f q where q: "reset_prefix_cache (block_pool (coordinator km)) = (f, q)" by (cases "reset_prefix_cache (block_pool (coordinator km))")
  note R = reset_ok [OF km_okD(1) [OF ok] q]
  have "core q = core (block_pool (coordinator km))" using R(3,4) by (cases f) auto
  from km_ok_core [OF ok R(1) this] show ?thesis using r q by (auto simp: km_reset_prefix_cache_def)
qed

theorem km_reach_ok: "km_reach km held \<Longrightarrow> \<exists>fl. km_ok km held fl"
proof (induction rule: km_reach.induct)
  case (reach_cache km held env r n r' km')
  then show ?case using km_caching_ok by (fastforce simp: km_cache_blocks_def split: if_splits)
next
  case (reach_free km held r km')
  then show ?case using km_free_ok by (metis (no_types, lifting) sum.inject(2))
next
  case (reach_evict km held ids km')
  then obtain fl where k: "km_ok km held fl" by blast
  from evict_blocks_ok [OF km_okD(1) [OF k] reach_evict.hyps(2)] obtain q where
    q: "evict_blocks ids (block_pool (coordinator km)) = Inr q" "pool_ok q fl" "core q = core (block_pool (coordinator km))" by blast
  from km_ok_core [OF k q(2,3)] show ?case using reach_evict.hyps(3) q(1) by (auto simp: km_evict_blocks_def)
next
  case (reach_events km held evs km')
  then obtain fl where k: "km_ok km held fl" by blast
  have "same_but_events (block_pool (coordinator km)) (snd (take_events (block_pool (coordinator km))))"
    by (simp add: take_events_def same_but_events_def)
  from km_ok_events [OF k this] show ?case using reach_events.hyps by (auto simp: km_take_events_def split: prod.splits)
next
  case (reach_new_ids km held ids km')
  then obtain fl where "km_ok km held fl" by blast
  from books_ok [OF this, of "\<lambda>m. snd (st_take_new_block_ids m)" "[]"] show ?case
    using reach_new_ids.hyps by (auto simp: take_new_block_ids_def st_take_new_block_ids_def Let_def)
next
  case (reach_zeroing km held rid i j ids km')
  then obtain fl where "km_ok km held fl" by blast
  from books_ok [OF this, of "\<lambda>m. if records_new_block_ids m then with_entry rid m else m" rid] have
      "km_ok (km\<lparr>coordinator := (coordinator km)\<lparr>single_type_managers := map (\<lambda>m. if records_new_block_ids m then with_entry rid m else m)
        (single_type_managers (coordinator km))\<rparr>\<rparr>) held fl" by simp
  then show ?case
    using reach_zeroing.hyps by (auto simp: get_zeroing_block_ids_in_range_def Let_def)
next
  case (reach_prefix km held rid ns km')
  then obtain fl where k: "km_ok km held fl" by blast
  let ?f = "\<lambda>m. snd (st_get_num_common_prefix_blocks rid m (block_pool (coordinator km)))"
  have "km_ok (km\<lparr>coordinator := (coordinator km)\<lparr>single_type_managers := map ?f (single_type_managers (coordinator km))\<rparr>\<rparr>) held fl"
    by (rule books_ok [OF k, of ?f rid]) (simp add: st_get_num_common_prefix_blocks_def Let_def)
  then show ?case using reach_prefix.hyps k
    by (auto simp: km_get_num_common_prefix_blocks_def co_get_num_common_prefix_blocks_def split: if_splits)
qed (blast intro: km_init_ok lookup_ok slots_ok skip_ok pop_ok release_ok reset_cache_kept record_ok copies_ok)+

end
