(* ===== verification/Hit_Invariant.thy ===== *)
theory Hit_Invariant
  imports Group_Layout
begin

text \<open>
  What the searches for a cached prefix return: in every group, blocks that hold the request's own hashes wherever the attention of
  the group can still look, and null blocks before.
\<close>

section \<open>Lookups\<close>

lemma lookup_groups_holds:
  assumes c: "cache_ok p" and l: "lookup_groups p h gs acc = Inr (Some bs)"
  shows "\<exists>cs. bs = acc @ cs \<and> list_all2 (holds_hash p h) gs cs"
  using l
proof (induction gs arbitrary: acc)
  case (Cons g gs)
  from Cons.prems obtain key b where k: "make_block_hash_with_group_id h g = Inr key" "get_one_block (cached_block_hash_to_block p) key = Inr (Some b)"
    and rest: "lookup_groups p h gs (acc @ [b]) = Inr (Some bs)" by (auto split: option.splits)
  from bm.one_result [OF cache_okD(1) [OF c], of key] k(2) have "(key, b) \<in> entries (cached_block_hash_to_block p)" by auto
  then have "holds_hash p h g b" using cache_okD(2) [OF c] k(1) by (simp add: holds_hash_def make_block_hash_eq_Inr block_key_def)
  with Cons.IH [OF rest] show ?case by auto
qed simp

lemma lookup_hit_holds:
  assumes c: "cache_ok p" and l: "lookup_hit h gids p = Inr (Some bs)"
  shows "list_all2 (holds_hash p h) gids bs \<and> gids \<noteq> []"
proof -
  from l obtain r where r: "lookup_groups p h gids [] = Inr r" "(case r of Some [] \<Rightarrow> None | _ \<Rightarrow> r) = Some bs"
    by (auto simp: lookup_hit_def get_cached_block_def)
  then have "r = Some bs" "bs \<noteq> []" by (auto split: option.splits list.splits)
  then show ?thesis using lookup_groups_holds [OF c, of h gids "[]" bs] r(1) by auto
qed

text \<open>The hash of block \<open>i\<close> at the granularity of a group: the last of its finer hashes.\<close>

definition hash_of_block :: "bytes list \<Rightarrow> int \<Rightarrow> nat \<Rightarrow> bytes" where
  "hash_of_block hashes k i = hashes ! nat ((int i + 1) * k - 1)"

lemma resolved_get:
  assumes r: "resolve_block_hashes (HashList hashes) hbs bs fg a = Inr hs" and coarse: "\<not> (fg \<and> (\<exists>x. a = Some x \<and> x < bs \<and> bs mod x = 0))"
    and bs: "0 < bs" and hbs: "0 < hbs" and g: "bhl_get hs (int i) = Inr h"
  shows "h = hash_of_block hashes (bs div hbs) i"
proof (cases "bs = hbs")
  case True
  then show ?thesis using r g bs by (auto simp: resolve_block_hashes_def hash_of_block_def py_index_eq_Inr)
next
  case False
  then have hs: "hs = HashView hashes (bs div hbs)" and d: "bs mod hbs = 0"
    using r coarse by (auto simp: resolve_block_hashes_def new_hash_view_def split: option.splits if_splits)
  have "hbs \<le> bs" using zdvd_imp_le [of hbs bs] bs d by (simp add: mod_eq_0_iff_dvd)
  then have "1 \<le> bs div hbs" using pos_imp_zdiv_pos_iff [OF hbs, of bs] by simp
  then have "0 \<le> (int i + 1) * (bs div hbs) - 1" using mult_mono [of 1 "int i + 1" 1 "bs div hbs"] by simp
  then show ?thesis using g by (simp add: hs py_index_eq_Inr hash_of_block_def)
qed


section \<open>Runs of blocks\<close>

definition cached_at :: "block_pool \<Rightarrow> block_hash_list \<Rightarrow> int \<Rightarrow> nat \<Rightarrow> bref \<Rightarrow> bool" where
  "cached_at p hs g i b \<longleftrightarrow> (\<exists>h. bhl_get hs (int i) = Inr h \<and> holds_hash p h g b)"

text \<open>
  Lists of one length, one for each group; from position \<open>lo\<close> on every block is cached, and before it is cached or null.
\<close>

definition rows_ok :: "block_pool \<Rightarrow> block_hash_list \<Rightarrow> int list \<Rightarrow> nat \<Rightarrow> nat \<Rightarrow> bref list list \<Rightarrow> bool" where
  "rows_ok p hs gids lo n rows \<longleftrightarrow>
     list_all2 (\<lambda>g row. length row = n \<and> (\<forall>i < n. cached_at p hs g i (row ! i) \<or> i < lo \<and> row ! i = null_block p)) gids rows"

lemma rows_length: "rows_ok p hs gids lo n rows \<Longrightarrow> length rows = length gids"
  by (auto simp: rows_ok_def list_all2_lengthD)

lemma rows_take: "rows_ok p hs gids lo n rows \<Longrightarrow> t \<le> n \<Longrightarrow> rows_ok p hs gids lo t (map (take t) rows)"
  by (auto simp: rows_ok_def list_all2_conv_all_nth)

lemma rows_nulls: "rows_ok p hs gids n n (map (\<lambda>_. replicate n (null_block p)) gids)"
  by (auto simp: rows_ok_def list_all2_conv_all_nth)

lemma rows_append:
  assumes r: "rows_ok p hs gids lo n rows" and h: "bhl_get hs (int n) = Inr h" and c: "list_all2 (holds_hash p h) gids cached"
  shows "rows_ok p hs gids lo (Suc n) (append_each rows cached)"
  using assms by (auto simp: rows_ok_def append_each_def list_all2_conv_all_nth cached_at_def nth_append less_Suc_eq)

lemma full_run_rows:
  assumes c: "cache_ok p" and r: "rows_ok p hs gids lo n rows" and f: "full_run hs gids p (map int [n..<m]) rows = Inr rows'" and nm: "n \<le> m"
  shows "\<exists>k. n \<le> k \<and> k \<le> m \<and> rows_ok p hs gids lo k rows'"
  using r f nm
proof (induction "m - n" arbitrary: n rows)
  case 0
  then show ?case by auto
next
  case (Suc d)
  then have n: "[n..<m] = n # [Suc n..<m]" by (simp add: upt_conv_Cons)
  from Suc.prems(2) obtain h r where l: "bhl_get hs (int n) = Inr h" "lookup_hit h gids p = Inr r"
    "(case r of None \<Rightarrow> Inr rows | Some cached \<Rightarrow> full_run hs gids p (map int [Suc n..<m]) (append_each rows cached)) = Inr rows'"
    by (auto simp: n)
  show ?case
  proof (cases r)
    case None
    then show ?thesis using l(3) Suc.prems by auto
  next
    case (Some cached)
    have "rows_ok p hs gids lo (Suc n) (append_each rows cached)"
      using rows_append [OF Suc.prems(1) l(1)] lookup_hit_holds [OF c] l(2) Some by blast
    moreover have "d = m - Suc n" "Suc n \<le> m" using Suc.hyps(2) by auto
    ultimately obtain k where "Suc n \<le> k" "k \<le> m" "rows_ok p hs gids lo k rows'" using Suc.hyps(1) l(3) Some by auto
    then show ?thesis by (auto intro: exI [of _ k])
  qed
qed

lemma hit_len_rows: "rows_ok p hs gids lo n rows \<Longrightarrow> hit_len rows bs = Inr k \<Longrightarrow> k = int n * bs"
  by (cases rows; cases gids) (auto simp: hit_len_def rows_ok_def)

lemma upto_map_int: "[int n..int m - 1] = map int [n..<m]"
proof (induction "m - n" arbitrary: n)
  case (Suc d)
  then have "[n..<m] = n # [Suc n..<m]" "int n \<le> int m - 1" by (auto simp: upt_conv_Cons)
  then show ?case using Suc.hyps(1) [of "Suc n"] Suc.hyps(2) upto_rec1 [of "int n" "int m - 1"] by (simp add: add.commute)
qed simp


section \<open>Hits of one group\<close>

text \<open>A chunk consists of whole blocks.\<close>

fun whole_chunks :: "int \<Rightarrow> spec_type \<Rightarrow> bool" where
  "whole_chunks bs (ChunkedLocalAttentionSpec c) \<longleftrightarrow> c mod bs = 0"
| "whole_chunks bs _ \<longleftrightarrow> True"

text \<open>
  A hit of \<open>n\<close> tokens: whole blocks, each with the hash of its place in the request or null, and null only where the attention skips all
  tokens of the block; the last for chunks of whole blocks.
\<close>

definition good_hit :: "block_pool \<Rightarrow> bytes list \<Rightarrow> kv_cache_spec \<Rightarrow> int \<Rightarrow> int \<Rightarrow> int \<Rightarrow> bref list \<Rightarrow> bool" where
  "good_hit p hashes spec bs g n bl \<longleftrightarrow> spec_type spec \<noteq> CrossAttentionSpec \<and> int (length bl) * bs = n \<and>
     (\<forall>i < length bl. holds_hash p (hash_of_block hashes (bs div hash_block_size p) i) g (bl ! i) \<or>
        bl ! i = null_block p \<and> (whole_chunks bs (spec_type spec) \<longrightarrow> (int i + 1) * bs \<le> get_num_skipped_tokens (spec_type spec) n))"

lemma rows_good:
  assumes r: "rows_ok p hs gids lo n rows"
    and res: "\<And>i h. bhl_get hs (int i) = Inr h \<Longrightarrow> h = hash_of_block hashes (bs div hash_block_size p) i"
    and sk: "whole_chunks bs (spec_type spec) \<Longrightarrow> int lo * bs \<le> get_num_skipped_tokens (spec_type spec) (int n * bs) \<or> lo = 0" and bs: "0 < bs" and nc: "spec_type spec \<noteq> CrossAttentionSpec"
  shows "list_all2 (\<lambda>g bl. good_hit p hashes spec bs g (int n * bs) bl) gids rows"
proof -
  have "(int i + 1) * bs \<le> get_num_skipped_tokens (spec_type spec) (int n * bs)" if "i < lo" "whole_chunks bs (spec_type spec)" for i
  proof -
    have "(int i + 1) * bs \<le> int lo * bs" using that bs by (intro mult_right_mono) auto
    then show ?thesis using sk [OF that(2)] that(1) by auto
  qed
  moreover have "holds_hash p (hash_of_block hashes (bs div hash_block_size p) i) g b" if "cached_at p hs g i b" for i g b
    using that res by (auto simp: cached_at_def)
  ultimately show ?thesis using r nc unfolding rows_ok_def good_hit_def by (auto elim!: list_all2_mono)
qed

lemma full_find_ok:
  assumes c: "cache_ok p" and hbs: "0 < hash_block_size p" and bs: "bs = group_block_size dcp spec" "0 < bs"
    and al: "0 < al" "al mod bs = 0" and full: "is_full_attention (spec_type spec)"
    and f: "full_find_longest_cache_hit hashes ml gids p spec drop_eagle al dcp = Inr (bls, n)"
  shows "0 \<le> n \<and> n mod al = 0 \<and> n \<le> (if drop_eagle then max 0 (ml - bs) else ml) \<and> list_all2 (\<lambda>g bl. good_hit p hashes spec bs g n bl) gids bls"
proof -
  have le: "bs \<le> al" using al zdvd_imp_le [of bs al] by (simp add: mod_eq_0_iff_dvd)
  have g: "(if dcp > 1 then spec_block_size spec * dcp else spec_block_size spec) = bs" using bs(1) by (simp add: group_block_size_def)
  have fine: "(al < bs \<and> bs mod al = 0) = False" using le by simp
  have ml: "0 \<le> ml div bs"
    using f unfolding full_find_longest_cache_hit_def Let_def g fine if_False eassert_eq_Inr ebind_eq_Inr by (metis Inl_Inr_False not_less)
  let ?h = "\<lambda>h0. if drop_eagle \<and> h0 > 0 then h0 - bs else h0"
  from f obtain hs rows h0 where r: "resolve_block_hashes (HashList hashes) (hash_block_size p) bs True (Some al) = Inr hs"
    and run: "full_run hs gids p [0..min (ml div bs) (bhl_len hs) - 1] (map (\<lambda>_. []) gids) = Inr rows"
    and h0: "hit_len rows bs = Inr h0"
    and e: "(map (\<lambda>c. py_slice_to c (cdiv (?h h0 - ?h h0 mod al) bs)) rows, ?h h0 - ?h h0 mod al) = (bls, n)"
    unfolding full_find_longest_cache_hit_def Let_def g fine if_False eassert_eq_Inr ebind_eq_Inr min_absorb2 [OF le] if_not_P [OF ml [unfolded not_less [symmetric]]]
    by (auto simp only: sum.inject prod.case)
  then have n: "n = ?h h0 - ?h h0 mod al" by (simp only: prod.inject)
  with e have bls: "bls = map (\<lambda>c. py_slice_to c (cdiv n bs)) rows" by (simp only: prod.inject)
  define m where "m = nat (min (ml div bs) (bhl_len hs))"
  have "[0..min (ml div bs) (bhl_len hs) - 1] = map int [0..<m]"
    using upto_map_int [of 0 m] by (cases "0 \<le> min (ml div bs) (bhl_len hs)") (auto simp: m_def)
  with full_run_rows [OF c rows_nulls [of p hs gids 0], of m rows] run obtain k where k: "k \<le> m" "rows_ok p hs gids 0 k rows" by auto
  have h0k: "h0 = int k * bs" by (rule hit_len_rows [OF k(2) h0])
  have "int k \<le> ml div bs" using k(1) ml by (simp add: m_def)
  then have kml: "int k * bs \<le> ml" using bs(2) by (simp add: le_div_iff_mult_le)
  define j where "j = (if drop_eagle \<and> k > 0 then k - 1 else k)"
  have "h0 > 0 \<longleftrightarrow> k > 0" using bs(2) h0k by (auto simp: zero_less_mult_iff)
  then have nj: "n = int j * bs - (int j * bs) mod al" using n h0k by (auto simp: j_def Let_def left_diff_distrib of_nat_diff)
  have "0 \<le> int j * bs" using bs(2) by simp
  with nj zmod_le_nonneg_dividend [of "int j * bs" al] pos_mod_sign [OF al(1), of "int j * bs"]
  have n0: "0 \<le> n" "n \<le> int j * bs" by linarith+
  have n1: "n mod al = 0" unfolding nj by (simp add: minus_mod_eq_div_mult)
  have "n mod bs = 0" using n1 al(2) by (metis dvd_trans mod_eq_0_iff_dvd)
  then have "n = int (nat (n div bs)) * bs" using n0(1) bs(2) div_mult_mod_eq [of n bs] by (simp add: pos_imp_zdiv_nonneg_iff)
  then obtain t where t: "n = int t * bs" ..
  have tk: "t \<le> k" using n0(2) bs(2) t by (auto simp: j_def split: if_splits)
  have "cdiv n bs = int t" using t bs(2) by simp
  then have bls': "bls = map (take t) rows" by (simp add: bls)
  have "list_all2 (\<lambda>g bl. good_hit p hashes spec bs g (int t * bs) bl) gids (map (take t) rows)"
  proof (rule rows_good [OF rows_take [OF k(2) tk] _ _ bs(2)])
    show "\<And>i h. bhl_get hs (int i) = Inr h \<Longrightarrow> h = hash_of_block hashes (bs div hash_block_size p) i"
      using resolved_get [OF r _ bs(2) hbs] le by auto
  qed (use full in auto)
  moreover have "n \<le> (if drop_eagle then max 0 (ml - bs) else ml)" using n0(2) kml bs(2) by (auto simp: j_def left_diff_distrib of_nat_diff split: if_splits)
  ultimately show ?thesis using n0(1) n1 by (simp add: bls' t)
qed

subsection \<open>Sliding window\<close>

definition run_ok :: "block_pool \<Rightarrow> block_hash_list \<Rightarrow> int list \<Rightarrow> nat \<Rightarrow> nat \<Rightarrow> bref list list \<Rightarrow> bool" where
  "run_ok p hs gids a b rows \<longleftrightarrow> list_all2 (\<lambda>g row. \<forall>i. a \<le> i \<and> i < b \<longrightarrow> cached_at p hs g i (row ! i)) gids rows"

text \<open>The length after the block of EAGLE is dropped is aligned.\<close>

definition end_aligned :: "int \<Rightarrow> int \<Rightarrow> bool \<Rightarrow> nat \<Rightarrow> bool" where
  "end_aligned bs al drop_eagle e \<longleftrightarrow> bs = al \<or> ((if drop_eagle then int e - 1 else int e) * bs) mod al = 0"

lemma upd_each_rows:
  assumes r: "rows_ok p hs gids m m rows" and h: "bhl_get hs (int i) = Inr h" and c: "list_all2 (holds_hash p h) gids cached" and i: "i < m"
  shows "rows_ok p hs gids m m (upd_each i rows cached)"
    "run_ok p hs gids (Suc i) b rows \<Longrightarrow> run_ok p hs gids i b (upd_each i rows cached)"
proof -
  have u: "upd_each i rows cached = map2 (\<lambda>c b. c[i := b]) rows cached" "length rows = length gids" "length cached = length gids"
    using rows_length [OF r] list_all2_lengthD [OF c] by (simp_all add: upd_each_def)
  show "rows_ok p hs gids m m (upd_each i rows cached)"
    using r h c i unfolding u(1) by (auto simp: rows_ok_def list_all2_conv_all_nth cached_at_def nth_list_update)
  assume "run_ok p hs gids (Suc i) b rows"
  then show "run_ok p hs gids i b (upd_each i rows cached)"
    using r h c i unfolding u(1) by (auto simp: run_ok_def rows_ok_def list_all2_conv_all_nth cached_at_def nth_list_update)
qed

lemma rows_window:
  assumes r: "rows_ok p hs gids m m rows" and u: "run_ok p hs gids a b rows" and b: "b \<le> m"
  shows "rows_ok p hs gids a b (map (take b) rows)"
proof -
  have "length (take b row) = b \<and> (\<forall>i < b. cached_at p hs g i (take b row ! i) \<or> i < a \<and> take b row ! i = null_block p)"
    if "length row = m \<and> (\<forall>i < m. cached_at p hs g i (row ! i) \<or> i < m \<and> row ! i = null_block p)"
      "\<forall>i. a \<le> i \<and> i < b \<longrightarrow> cached_at p hs g i (row ! i)" for g row 
  proof -
    have "cached_at p hs g i (row ! i) \<or> i < a \<and> row ! i = null_block p" if "i < b" for i
      using \<open>\<forall>i. a \<le> i \<and> i < b \<longrightarrow> cached_at p hs g i (row ! i)\<close> \<open>length row = m \<and> _\<close> b that
      by (cases "a \<le> i") auto
    then show ?thesis using that(1) b by simp
  qed
  then show ?thesis using r u b unfolding rows_ok_def run_ok_def list_all2_conv_all_nth by (simp add: min_absorb2)
qed

lemma window_run_rows:
  assumes c: "cache_ok p" and r: "rows_ok p hs gids m m rows" and u: "run_ok p hs gids i (i + n) rows" and b: "i + n \<le> m"
    and e: "n > 0 \<Longrightarrow> end_aligned bs al drop_eagle (i + n)"
    and w: "window_run hs gids p bs al drop_eagle need (rev [0..<i]) rows (int n) = Inr (rows', n', found)"
  shows "if found then \<exists>lo l. rows_ok p hs gids lo l rows' \<and> l \<le> m \<and> lo < l \<and> need \<le> int l - int lo \<and> end_aligned bs al drop_eagle l
    else \<exists>k. n' = int k \<and> k \<le> m \<and> rows_ok p hs gids m m rows' \<and> run_ok p hs gids 0 k rows'"
  using r u b e w
proof (induction i arbitrary: rows n)
  case 0
  then show ?case by auto
next
  case (Suc i)
  have im: "i < m" using Suc.prems(3) by simp
  from Suc.prems(5) obtain h r where l: "bhl_get hs (int i) = Inr h" "lookup_hit h gids p = Inr r" by auto
  have none: "run_ok p hs gids i (i + 0) rows" using Suc.prems(1) by (auto simp: run_ok_def rows_ok_def list_all2_conv_all_nth)
  show ?case
  proof (cases r)
    case None
    then show ?thesis using Suc.IH [OF Suc.prems(1) none] Suc.prems(5) l im by auto
  next
    case (Some cached)
    have hc: "list_all2 (holds_hash p h) gids cached" using lookup_hit_holds [OF c] l(2) Some by blast
    show ?thesis
    proof (cases "n = 0 \<and> bs \<noteq> al \<and> ((if drop_eagle then int i else int i + 1) * bs) mod al \<noteq> 0")
      case True
      then show ?thesis using Suc.IH [OF Suc.prems(1) none] Suc.prems(5) l Some im by auto
    next
      case False
      let ?rows = "upd_each i rows cached"
      note U = upd_each_rows(1) [OF Suc.prems(1) l(1) hc im] upd_each_rows(2) [OF Suc.prems(1) l(1) hc im Suc.prems(2)]
      have al: "end_aligned bs al drop_eagle (i + Suc n)"
        using Suc.prems(4) False by (cases "n = 0") (auto simp: end_aligned_def add.commute)
      have rest: "(if int n + 1 \<ge> need then Inr (map (\<lambda>c. py_slice_to c (int i + (int n + 1))) ?rows, int n + 1, True)
          else window_run hs gids p bs al drop_eagle need (rev [0..<i]) ?rows (int n + 1)) = Inr (rows', n', found)"
        using Suc.prems(5) l Some False by (auto simp: Let_def split: if_splits)
      show ?thesis
      proof (cases "int n + 1 \<ge> need")
        case True
        then have f: "found" "rows' = map (take (i + Suc n)) ?rows" using rest by (auto simp: nat_add_distrib)
        have "rows_ok p hs gids i (i + Suc n) rows'"
          unfolding f(2) by (rule rows_window [OF U(1)]) (use U(2) Suc.prems(3) in auto)
        moreover have "i + Suc n \<le> m" "i < i + Suc n" "need \<le> int (i + Suc n) - int i" using True Suc.prems(3) by auto
        ultimately show ?thesis using f(1) al unfolding if_P [OF f(1)] by blast
      next
        case False
        then have "window_run hs gids p bs al drop_eagle need (rev [0..<i]) ?rows (int (Suc n)) = Inr (rows', n', found)" using rest by (simp add: add.commute)
        then show ?thesis using Suc.IH [OF U(1), of "Suc n"] U(2) Suc.prems(3) al by simp
      qed
    qed
  qed
qed

lemma window_start:
  assumes c: "cache_ok p"
    and w: "window_run hs gids p bs al drop_eagle need (rev [0..<m]) (map (\<lambda>_. replicate m (null_block p)) gids) 0 = Inr (rows', n', found)"
  shows "if found then \<exists>lo l. rows_ok p hs gids lo l rows' \<and> l \<le> m \<and> lo < l \<and> need \<le> int l - int lo \<and> end_aligned bs al drop_eagle l
    else \<exists>k. n' = int k \<and> k \<le> m \<and> rows_ok p hs gids m m rows' \<and> run_ok p hs gids 0 k rows'"
proof (rule window_run_rows [OF c rows_nulls])
  show "run_ok p hs gids m (m + 0) (map (\<lambda>_. replicate m (null_block p)) gids)" by (auto simp: run_ok_def list_all2_conv_all_nth)
  show "window_run hs gids p bs al drop_eagle need (rev [0..<m]) (map (\<lambda>_. replicate m (null_block p)) gids) (int 0) = Inr (rows', n', found)"
    using w by simp
qed simp_all

lemma aligned_len_le: "aligned_len bs al n \<le> n"
  by (induction n) auto

lemma aligned_len_aligned: "bs = al \<or> (int (aligned_len bs al n) * bs) mod al = 0"
  by (induction n) auto

lemma aligned_len_id: "bs = al \<or> (int n * bs) mod al = 0 \<Longrightarrow> aligned_len bs al n = n"
  by (cases n) auto

lemma pop_rows:
  assumes r: "rows_ok p hs gids lo n rows" and ne: "gids \<noteq> []"
  shows "pop_to_alignment bs al rows = Inr (map (take (aligned_len bs al n)) rows)"
proof -
  have l: "length row = n" if "row \<in> set rows" for row using r that by (auto simp: rows_ok_def list_all2_conv_all_nth in_set_conv_nth)
  obtain c rows' where c: "rows = c # rows'" using r ne by (cases rows) (auto simp: rows_ok_def)
  then show ?thesis using l aligned_len_le [of bs al n] by (simp add: pop_to_alignment_def)
qed

lemma butlast_rows: "rows_ok p hs gids lo n rows \<Longrightarrow> map butlast rows = map (take (n - 1)) rows"
  by (auto simp: rows_ok_def list_all2_conv_all_nth in_set_conv_nth butlast_conv_take)

lemma window_finish_eq:
  fixes bs al :: int
  assumes r: "rows_ok p hs gids lo n rows" and ne: "gids \<noteq> []"
  defines "a \<equiv> aligned_len bs al n"
  shows "window_finish bs al e False (int n) rows = Inr (map (take (if e \<and> a > 0 then aligned_len bs al (a - 1) else a)) rows)"
    "window_finish bs al e True k rows = Inr (map (take (if e \<and> n > 0 then aligned_len bs al (n - 1) else n)) rows)"
proof -
  have fin: "(case rows1 of [] \<Rightarrow> if e then Inl IndexError else Inr []
     | c # _ \<Rightarrow> if e \<and> c \<noteq> [] then pop_to_alignment bs al (map butlast rows1) else Inr rows1) =
     Inr (map (take (if e \<and> m > 0 then aligned_len bs al (m - 1) else m)) rows1)" if r1: "rows_ok p hs gids lo m rows1" for m rows1
  proof -
    obtain c rs where c: "rows1 = c # rs" using r1 ne by (cases rows1) (auto simp: rows_ok_def)
    have l: "\<forall>row \<in> set rows1. length row = m" using r1 by (auto simp: rows_ok_def list_all2_conv_all_nth in_set_conv_nth)
    have "pop_to_alignment bs al (map butlast rows1) = Inr (map (take (aligned_len bs al (m - 1))) rows1)"
      using pop_rows [OF rows_take [OF r1, of "m - 1"] ne, of bs al] aligned_len_le [of bs al "m - 1"] by (simp add: butlast_rows [OF r1] min_absorb2 comp_def)
    moreover have "map (take m) rows1 = rows1" using l by (simp add: map_idI)
    moreover have "c = [] \<longleftrightarrow> m = 0" using l by (auto simp: c)
    ultimately show ?thesis by (simp add: c)
  qed
  show "window_finish bs al e True k rows = Inr (map (take (if e \<and> n > 0 then aligned_len bs al (n - 1) else n)) rows)"
    using fin [OF r] by (simp add: window_finish_def)
  have "map (\<lambda>c. py_slice_to c (int n)) rows = rows" using r by (auto simp: rows_ok_def list_all2_conv_all_nth in_set_conv_nth intro!: map_idI)
  with pop_rows [OF r ne, of bs al] have "window_finish bs al e False (int n) rows = (case map (take a) rows of [] \<Rightarrow> if e then Inl IndexError else Inr []
     | c # _ \<Rightarrow> if e \<and> c \<noteq> [] then pop_to_alignment bs al (map butlast (map (take a) rows)) else Inr (map (take a) rows))"
    by (simp only: window_finish_def if_False ebind_simps a_def)
  also have "\<dots> = Inr (map (take (if e \<and> a > 0 then aligned_len bs al (a - 1) else a)) (map (take a) rows))"
    by (rule fin [OF rows_take [OF r]]) (simp add: a_def aligned_len_le)
  also have "(if e \<and> a > 0 then aligned_len bs al (a - 1) else a) \<le> a" using aligned_len_le [of bs al "a - 1"] by auto
  then have "map (take (if e \<and> a > 0 then aligned_len bs al (a - 1) else a)) (map (take a) rows) =
      map (take (if e \<and> a > 0 then aligned_len bs al (a - 1) else a)) rows" by (simp add: comp_def min_absorb1 split del: if_split)
  finally show "window_finish bs al e False (int n) rows = Inr (map (take (if e \<and> a > 0 then aligned_len bs al (a - 1) else a)) rows)" .
qed

lemma need_covers: "0 < bs \<Longrightarrow> 0 < w \<Longrightarrow> cdiv (w - 1) bs \<le> int t - int lo \<Longrightarrow> int lo * bs \<le> max 0 (int t * bs - w + 1)"
proof -
  assume bs: "0 < bs" and c: "cdiv (w - 1) bs \<le> int t - int lo"
  have "w - 1 \<le> cdiv (w - 1) bs * bs" using cdiv_ge [OF bs] by simp
  also have "\<dots> \<le> (int t - int lo) * bs" using c bs by (intro mult_right_mono) auto
  finally show ?thesis by (simp add: left_diff_distrib)
qed

lemma sliding_find_ok:
  assumes c: "cache_ok p" and hbs: "0 < hash_block_size p" and bs: "bs = group_block_size dcp spec" "0 < bs" and ok: "spec_ok (spec_type spec)"
    and al: "0 < al" and ml: "0 \<le> ml" and ne: "gids \<noteq> []"
    and f: "sliding_find_longest_cache_hit hashes ml gids p spec drop_eagle al dcp = Inr (bls, n)"
  shows "0 \<le> n \<and> n mod al = 0 \<and> n \<le> (if drop_eagle then max 0 (ml - bs) else ml) \<and> list_all2 (\<lambda>g bl. good_hit p hashes spec bs g n bl) gids bls"
proof -
  from f obtain w where w: "sliding_window (spec_type spec) = Some w" and d: "dcp = 1" and am: "al mod spec_block_size spec = 0"
    by (auto simp: sliding_find_longest_cache_hit_def Let_def split: option.splits)
  have b: "spec_block_size spec = bs" using bs(1) d by (simp add: group_block_size_def)
  have sk: "get_num_skipped_tokens (spec_type spec) = (\<lambda>n. max 0 (n - w + 1))" and w0: "0 < w" and nc: "spec_type spec \<noteq> CrossAttentionSpec"
    using w ok by (cases "spec_type spec"; auto)+
  define m where "m = nat (ml div bs)"
  define need where "need = contiguous_blocks_for_hit w bs drop_eagle"
  from f obtain hs rows k found where r: "resolve_block_hashes (HashList hashes) (hash_block_size p) bs False (Some al) = Inr hs"
    and run: "window_run hs gids p bs al drop_eagle need (rev [0..<m]) (map (\<lambda>_. replicate m (null_block p)) gids) 0 = Inr (rows, k, found)"
    and fin: "window_finish bs al drop_eagle found k rows = Inr bls" and n: "hit_len bls bs = Inr n"
    unfolding sliding_find_longest_cache_hit_def w d b m_def need_def option.case Let_def eassert_eq_Inr ebind_eq_Inr split_paired_Ex prod.case
    by (auto simp only: sum.inject prod.inject)
  have mb: "int m * bs \<le> ml" using ml bs(2) by (simp add: m_def pos_imp_zdiv_nonneg_iff flip: le_div_iff_mult_le)
  have "\<exists>lo t. t \<le> (if drop_eagle then m - 1 else m) \<and> rows_ok p hs gids lo t bls \<and> (int t * bs) mod al = 0 \<and> (int lo * bs \<le> max 0 (int t * bs - w + 1) \<or> lo = 0)"
  proof (cases found)
    case True
    with window_start [OF c run] obtain lo l where l: "rows_ok p hs gids lo l rows" "l \<le> m" "lo < l" "need \<le> int l - int lo" "end_aligned bs al drop_eagle l"
      unfolding if_P [OF True] by (elim exE conjE) (rule that)
    define t where "t = (if drop_eagle then l - 1 else l)"
    have a: "bs = al \<or> (int t * bs) mod al = 0" using l(3,5) by (auto simp: t_def end_aligned_def of_nat_diff)
    have "bls = map (take t) rows"
      using window_finish_eq(2) [OF l(1) ne, of bs al drop_eagle k] fin True l(3) aligned_len_id [OF a] by (auto simp: t_def split: if_splits)
    moreover have "cdiv (w - 1) bs \<le> int t - int lo" using l(3,4) by (auto simp: t_def need_def contiguous_blocks_for_hit_def Let_def of_nat_diff split: if_splits)
    moreover have "(int t * bs) mod al = 0" using a by auto
    moreover have "t \<le> (if drop_eagle then m - 1 else m)" "t \<le> l" using l(2) by (auto simp: t_def)
    ultimately show ?thesis using rows_take [OF l(1), of t] need_covers [OF bs(2) w0, of t lo] by (simp only:, intro exI conjI) auto
  next
    case False
    with window_start [OF c run] obtain j where j: "k = int j" "j \<le> m" "rows_ok p hs gids m m rows" "run_ok p hs gids 0 j rows"
      unfolding if_not_P [OF False] by (elim exE conjE) (rule that)
    note R = rows_window [OF j(3,4,2)]
    have same: "window_finish bs al drop_eagle False k (map (take j) rows) = window_finish bs al drop_eagle False k rows"
      by (simp add: window_finish_def j(1) comp_def)
    define t where "t = (if drop_eagle \<and> aligned_len bs al j > 0 then aligned_len bs al (aligned_len bs al j - 1) else aligned_len bs al j)"
    have bls: "bls = map (take t) (map (take j) rows)"
      using window_finish_eq(1) [OF R ne, of bs al drop_eagle] fin False j(1) same by (simp add: t_def)
    have t: "t \<le> j" "drop_eagle \<Longrightarrow> t \<le> m - 1" using aligned_len_le [of bs al j] aligned_len_le [of bs al "aligned_len bs al j - 1"] j(2) by (auto simp: t_def)
    have "(int t * bs) mod al = 0" using aligned_len_aligned [of bs al j] aligned_len_aligned [of bs al "aligned_len bs al j - 1"] by (auto simp: t_def)
    then show ?thesis using rows_take [OF R t(1)] t j(2) bls by (intro exI conjI) auto
  qed
  then obtain lo t where t: "t \<le> (if drop_eagle then m - 1 else m)" "rows_ok p hs gids lo t bls" "(int t * bs) mod al = 0"
    "int lo * bs \<le> max 0 (int t * bs - w + 1) \<or> lo = 0" by (elim exE conjE) (rule that)
  have nt: "n = int t * bs" by (rule hit_len_rows [OF t(2) n])
  have "list_all2 (\<lambda>g bl. good_hit p hashes spec bs g (int t * bs) bl) gids bls"
    by (rule rows_good [OF t(2) resolved_get [OF r _ bs(2) hbs] _ bs(2) nc]) (use t(4) in \<open>auto simp: sk\<close>)
  moreover have "n \<le> (if drop_eagle then max 0 (ml - bs) else ml)"
  proof -
    have "int t * bs \<le> int (if drop_eagle then m - 1 else m) * bs" using t(1) bs(2) by (intro mult_right_mono) auto
    then show ?thesis using nt mb by (cases "m = 0") (auto simp: left_diff_distrib of_nat_diff split: if_splits)
  qed
  ultimately show ?thesis using nt t(3) bs(2) by simp
qed

subsection \<open>Chunked local attention, and all kinds\<close>

lemma chunked_find_ok:
  assumes c: "cache_ok p" and hbs: "0 < hash_block_size p" and bs: "bs = group_block_size dcp spec" "0 < bs" and ok: "spec_ok (spec_type spec)"
    and ml: "0 \<le> ml"
    and f: "chunked_find_longest_cache_hit hashes ml gids p spec drop_eagle al dcp = Inr (bls, n)"
  shows "0 \<le> n \<and> n mod al = 0 \<and> n \<le> (if drop_eagle then max 0 (ml - bs) else ml) \<and> list_all2 (\<lambda>g bl. good_hit p hashes spec bs g n bl) gids bls"
proof -
  from f obtain ch where ch: "spec_type spec = ChunkedLocalAttentionSpec ch" and d: "\<not> drop_eagle" "dcp = 1" "spec_block_size spec = al"
    by (auto simp: chunked_find_longest_cache_hit_def Let_def split: spec_type.splits)
  have b: "al = bs" using bs(1) d by (simp add: group_block_size_def)
  have ch0: "0 < ch" using ok by (simp add: ch)
  define st where "st = ml div ch * ch"
  define lo m where "lo = nat (st div bs)" and "m = nat (ml div bs)"
  have st: "0 \<le> st" "st \<le> ml" "(if ml > 0 then ml div ch * ch else 0) = st"
    using ml ch0 by (simp_all add: st_def pos_imp_zdiv_nonneg_iff minus_mod_eq_div_mult [symmetric] zmod_le_nonneg_dividend)
  have lo: "lo \<le> m" "ch mod bs = 0 \<Longrightarrow> int lo * bs = st" using st bs(2) div_mult_mod_eq [of st bs] zdiv_mono1 [OF st(2) bs(2)]
    by (auto simp: lo_def m_def pos_imp_zdiv_nonneg_iff nat_le_eq_zle st_def mod_eq_0_iff_dvd)
  have mb: "int m * bs \<le> ml" using ml bs(2) by (simp add: m_def pos_imp_zdiv_nonneg_iff flip: le_div_iff_mult_le)
  from f obtain hs rows where r: "resolve_block_hashes (HashList hashes) (hash_block_size p) bs False (Some al) = Inr hs"
    and run: "full_run hs gids p [st div bs..ml div bs - 1] (map (\<lambda>_. replicate lo (null_block p)) gids) = Inr bls"
    and n: "hit_len bls bs = Inr n"
    unfolding chunked_find_longest_cache_hit_def ch spec_type.case d b st(3) lo_def Let_def eassert_eq_Inr ebind_eq_Inr by (auto simp only: sum.inject prod.inject)
  have "[st div bs..ml div bs - 1] = map int [lo..<m]"
    using upto_map_int [of lo m] st(1) ml bs(2) by (simp add: lo_def m_def pos_imp_zdiv_nonneg_iff)
  with full_run_rows [OF c rows_nulls [of p hs gids lo], of m bls] run lo(1) obtain k where
    k: "lo \<le> k" "k \<le> m" "rows_ok p hs gids lo k bls" by auto
  have nk: "n = int k * bs" by (rule hit_len_rows [OF k(3) n])
  have le: "int lo * bs \<le> n" "n \<le> int m * bs" using k(1,2) bs(2) by (simp_all add: nk)
  then have n1: "n \<le> ml" using mb by linarith
  have sk: "int lo * bs \<le> get_num_skipped_tokens (spec_type spec) (int k * bs)" if "ch mod bs = 0"
  proof -
    have "st \<le> n" using le(1) lo(2) [OF that] by simp
    then have "n div ch = ml div ch" using ch0(1) n1 by (metis antisym le_div_iff_mult_le order_refl st_def zdiv_mono1)
    then show ?thesis using lo(2) [OF that] by (simp add: ch st_def flip: nk)
  qed
  have "list_all2 (\<lambda>g bl. good_hit p hashes spec bs g (int k * bs) bl) gids bls"
    by (rule rows_good [OF k(3) resolved_get [OF r _ bs(2) hbs] _ bs(2)]) (use sk ch in auto)
  then show ?thesis using n1 bs(2) d(1) nk b by simp
qed

lemma find_ok:
  assumes c: "cache_ok p" and hbs: "0 < hash_block_size p" and bs: "bs = group_block_size dcp spec" "0 < bs" and ok: "spec_ok (spec_type spec)"
    and al: "0 < al" "al mod bs = 0" and ml: "0 \<le> ml" and ne: "gids \<noteq> []"
    and f: "st_find_longest_cache_hit (get_manager_class (spec_type spec)) hashes ml gids p spec drop_eagle al dcp = Inr (bls, n)"
  shows "0 \<le> n \<and> n mod al = 0 \<and> n \<le> (if drop_eagle then max 0 (ml - bs) else ml) \<and> list_all2 (\<lambda>g bl. good_hit p hashes spec bs g n bl) gids bls"
proof (cases "get_manager_class (spec_type spec)")
  case SlidingWindowManager
  then show ?thesis using sliding_find_ok [OF c hbs bs ok al(1) ml ne] f by (simp add: st_find_longest_cache_hit_def)
next
  case ChunkedLocalAttentionManager
  then show ?thesis using chunked_find_ok [OF c hbs bs ok ml] f by (simp add: st_find_longest_cache_hit_def)
next
  case CrossAttentionManager
  then show ?thesis using f by (simp add: st_find_longest_cache_hit_def)
qed (use full_find_ok [OF c hbs bs al] f in \<open>cases "spec_type spec"; simp add: st_find_longest_cache_hit_def\<close>)+

end
