(* ===== verification/Common_Hit.thy ===== *)
theory Common_Hit
  imports Hit_Invariant
begin

text \<open>
  The search of a hybrid coordinator for one length that is a hit in every group: it ends, and at its end every group has a hit of
  that length.
\<close>

section \<open>The state of the search\<close>

abbreviation mgr :: "coordinator \<Rightarrow> nat \<Rightarrow> st_manager" where
  "mgr co i \<equiv> single_type_managers co ! i"

abbreviation num_groups :: "coordinator \<Rightarrow> nat" where
  "num_groups co \<equiv> length (single_type_managers co)"

definition group_hit :: "coordinator \<Rightarrow> bytes list \<Rightarrow> nat \<Rightarrow> int \<Rightarrow> bref list \<Rightarrow> bool" where
  "group_hit co hashes i n bl \<longleftrightarrow> good_hit (block_pool co) hashes (mgr_spec (mgr co i)) (mgr_block_size (mgr co i)) (int i) n bl"

text \<open>What the lookups of a coordinator rely on.\<close>

definition lookup_ready :: "coordinator \<Rightarrow> bool" where
  "lookup_ready co \<longleftrightarrow> co_wf co \<and> cache_ok (block_pool co) \<and> (\<forall>m \<in> set (single_type_managers co). 0 < mgr_block_size m \<and> spec_ok (mgr_type m))"

lemma ready_facts:
  assumes "lookup_ready co"
  shows "co_wf co" "cache_ok (block_pool co)" "0 < hash_block_size (block_pool co)" "0 < scheduler_block_size co"
    "i < num_groups co \<Longrightarrow> 0 < mgr_block_size (mgr co i)" "i < num_groups co \<Longrightarrow> spec_ok (mgr_type (mgr co i))"
    "i < num_groups co \<Longrightarrow> scheduler_block_size co mod mgr_block_size (mgr co i) = 0"
proof -
  show wf: "co_wf co" and "cache_ok (block_pool co)" using assms by (simp_all add: lookup_ready_def)
  then show "0 < hash_block_size (block_pool co)" "0 < scheduler_block_size co" by (simp_all add: co_wf_def Let_def)
  assume i: "i < num_groups co"
  then show "0 < mgr_block_size (mgr co i)" "spec_ok (mgr_type (mgr co i))" using assms nth_mem [OF i] unfolding lookup_ready_def by blast+
  show "scheduler_block_size co mod mgr_block_size (mgr co i) = 0" by (rule co_wf_managers(3) [OF wf i])
qed

definition search_ok :: "coordinator \<Rightarrow> bytes list \<Rightarrow> hit_search \<Rightarrow> bool" where
  "search_ok co hashes s \<longleftrightarrow>
     length (hs_blocks s) = num_groups co \<and> length (hs_lengths s) = num_groups co \<and> 0 \<le> hs_current s \<and>
     (hs_current s mod scheduler_block_size co = 0 \<or> (\<forall>i < num_groups co. hs_blocks s ! i = None)) \<and>
     (\<forall>i < num_groups co. 0 \<le> hs_lengths s ! i \<and> hs_lengths s ! i mod scheduler_block_size co = 0 \<and>
        (\<forall>bl. hs_blocks s ! i = Some bl \<longrightarrow> group_hit co hashes i (hs_lengths s ! i) bl)) \<and>
     (\<forall>ids \<in> set (map sg_group_ids (attention_groups co)). \<forall>i \<in> set ids.
        (hs_blocks s ! nat i = None \<longleftrightarrow> hs_blocks s ! nat (hd ids) = None) \<and> hs_lengths s ! nat i = hs_lengths s ! nat (hd ids))"

lemma search_okD:
  assumes "search_ok co hashes s"
  shows "length (hs_blocks s) = num_groups co" "length (hs_lengths s) = num_groups co" "0 \<le> hs_current s"
    "hs_blocks s ! i \<noteq> None \<Longrightarrow> i < num_groups co \<Longrightarrow> hs_current s mod scheduler_block_size co = 0"
    "i < num_groups co \<Longrightarrow> 0 \<le> hs_lengths s ! i" "i < num_groups co \<Longrightarrow> hs_lengths s ! i mod scheduler_block_size co = 0"
    "i < num_groups co \<Longrightarrow> hs_blocks s ! i = Some bl \<Longrightarrow> group_hit co hashes i (hs_lengths s ! i) bl"
    "g \<in> set (attention_groups co) \<Longrightarrow> j \<in> set (sg_group_ids g) \<Longrightarrow>
       (hs_blocks s ! nat j = None \<longleftrightarrow> hs_blocks s ! nat (hd (sg_group_ids g)) = None) \<and> hs_lengths s ! nat j = hs_lengths s ! nat (hd (sg_group_ids g))"
  using assms unfolding search_ok_def by auto

text \<open>Facts about an entry of a hybrid coordinator.\<close>

lemma entry_facts:
  assumes rd: "lookup_ready co" and hy: "co_kind co = Hybrid" and g: "g \<in> set (attention_groups co)"
  shows "sg_group_ids g \<noteq> []" "sg_manager_cls g = get_manager_class (spec_type (sg_spec g))" "distinct (sg_group_ids g)"
    "i \<in> set (sg_group_ids g) \<Longrightarrow> 0 \<le> i \<and> i < int (num_groups co) \<and> mgr_spec (mgr co (nat i)) = sg_spec g \<and>
       mgr_block_size (mgr co (nat i)) = group_block_size (if is_full_attention (spec_type (sg_spec g)) then co_dcp_world_size co else 1) (sg_spec g)"
proof -
  have wf: "co_wf co" using rd by (simp add: lookup_ready_def)
  have lay: "layout_ok (\<lambda>i. kv_cache_spec (kv_cache_groups co ! i)) (length (kv_cache_groups co)) (attention_groups co)"
    and dc: "co_dcp_world_size co > 1 \<longrightarrow> (\<forall>g \<in> set (kv_cache_groups co). is_full_attention (spec_type (kv_cache_spec g)))"
    and l: "length (kv_cache_groups co) = num_groups co" using wf hy by (auto simp: co_wf_def Let_def)
  show "sg_group_ids g \<noteq> []" "sg_manager_cls g = get_manager_class (spec_type (sg_spec g))" using lay g by (auto simp: layout_ok_def)
  have ms: "mset (concat (map sg_group_ids (attention_groups co))) = mset (map int [0..<num_groups co])" using lay l by (simp add: layout_ok_def)
  have "distinct (concat (map sg_group_ids (attention_groups co)))" using mset_eq_imp_distinct_iff [OF ms] by (simp add: distinct_map)
  then show "distinct (sg_group_ids g)" using g by (simp add: distinct_concat_iff)
  assume i: "i \<in> set (sg_group_ids g)"
  have "set (concat (map sg_group_ids (attention_groups co))) = set (map int [0..<num_groups co])" by (rule mset_eq_setD [OF ms])
  moreover have "i \<in> set (concat (map sg_group_ids (attention_groups co)))" using i g by auto
  ultimately have "i \<in> set (map int [0..<num_groups co])" by blast
  then have r: "0 \<le> i" "nat i < num_groups co" by auto
  have sp: "mgr_spec (mgr co (nat i)) = sg_spec g" using lay g i co_wf_managers(1) [OF wf r(2)] by (auto simp: layout_ok_def)
  have "is_full_attention (spec_type (sg_spec g))" if "co_dcp_world_size co > 1"
    using dc that sp co_wf_managers(1) [OF wf r(2)] r(2) l by (metis nth_mem)
  then show "0 \<le> i \<and> i < int (num_groups co) \<and> mgr_spec (mgr co (nat i)) = sg_spec g \<and>
       mgr_block_size (mgr co (nat i)) = group_block_size (if is_full_attention (spec_type (sg_spec g)) then co_dcp_world_size co else 1) (sg_spec g)"
    using r sp co_wf_managers(2) [OF wf r(2)] by (auto simp: group_block_size_def)
qed

lemma entries_disjoint:
  assumes rd: "lookup_ready co" and hy: "co_kind co = Hybrid"
  shows "distinct (concat (map sg_group_ids (attention_groups co)))" "set (concat (map sg_group_ids (attention_groups co))) = int ` {..<num_groups co}"
proof -
  have "mset (concat (map sg_group_ids (attention_groups co))) = mset (map int [0..<num_groups co])"
    using rd hy by (auto simp: lookup_ready_def co_wf_def Let_def layout_ok_def)
  from mset_eq_imp_distinct_iff [OF this] mset_eq_setD [OF this]
  show "distinct (concat (map sg_group_ids (attention_groups co)))" "set (concat (map sg_group_ids (attention_groups co))) = int ` {..<num_groups co}"
    by (auto simp: distinct_map atLeast0LessThan)
qed

lemma store_hits_spec:
  assumes "length bls = length gs" "distinct gs" "\<forall>i \<in> set gs. 0 \<le> i \<and> i < int n" "length (hs_blocks s) = n" "length (hs_lengths s) = n"
  shows "length (hs_blocks (store_hits gs bls len s)) = n \<and> length (hs_lengths (store_hits gs bls len s)) = n \<and>
    hs_current (store_hits gs bls len s) = hs_current s \<and> hs_longest (store_hits gs bls len s) = hs_longest s \<and>
    (\<forall>k < length gs. hs_blocks (store_hits gs bls len s) ! nat (gs ! k) = Some (bls ! k) \<and> hs_lengths (store_hits gs bls len s) ! nat (gs ! k) = len) \<and>
    (\<forall>i. int i \<notin> set gs \<longrightarrow> hs_blocks (store_hits gs bls len s) ! i = hs_blocks s ! i \<and> hs_lengths (store_hits gs bls len s) ! i = hs_lengths s ! i)"
  using assms
proof (induction gs bls len s rule: store_hits.induct)
  case (1 g gs b bs len s)
  let ?s = "s\<lparr>hs_blocks := (hs_blocks s)[nat g := Some b], hs_lengths := (hs_lengths s)[nat g := len]\<rparr>"
  have IH: "length (hs_blocks (store_hits gs bs len ?s)) = n \<and> length (hs_lengths (store_hits gs bs len ?s)) = n \<and>
    hs_current (store_hits gs bs len ?s) = hs_current ?s \<and> hs_longest (store_hits gs bs len ?s) = hs_longest ?s \<and>
    (\<forall>k < length gs. hs_blocks (store_hits gs bs len ?s) ! nat (gs ! k) = Some (bs ! k) \<and> hs_lengths (store_hits gs bs len ?s) ! nat (gs ! k) = len) \<and>
    (\<forall>i. int i \<notin> set gs \<longrightarrow> hs_blocks (store_hits gs bs len ?s) ! i = hs_blocks ?s ! i \<and> hs_lengths (store_hits gs bs len ?s) ! i = hs_lengths ?s ! i)"
    using "1.prems" by (intro "1.IH") auto
  have g: "int (nat g) = g" "nat g < n" "g \<notin> set gs" using "1.prems" by auto
  have "hs_blocks (store_hits gs bs len ?s) ! nat g = Some b" "hs_lengths (store_hits gs bs len ?s) ! nat g = len"
    using IH g "1.prems"(4,5) by auto
  moreover have "nat g \<noteq> i" if "int i \<noteq> g" for i using that g(1) by auto
  ultimately show ?case using IH by (auto simp: nth_Cons' less_Suc_eq_0_disj)
qed auto


section \<open>One turn\<close>

text \<open>
  After the turn of an entry all its groups have a hit of at least the current length, and of exactly this length unless the entry is
  full attention and was looked up before.
\<close>

definition entry_done :: "coordinator \<Rightarrow> hit_search \<Rightarrow> spec_group \<Rightarrow> hit_search \<Rightarrow> bool" where
  "entry_done co s g s' \<longleftrightarrow> (\<forall>i \<in> set (sg_group_ids g). hs_blocks s' ! nat i \<noteq> None \<and> hs_current s' \<le> hs_lengths s' ! nat i \<and>
     (is_full_attention (spec_type (sg_spec g)) \<and> hs_blocks s ! nat i \<noteq> None \<or> hs_lengths s' ! nat i = hs_current s'))"

lemma lookup_turn_ok:
  fixes v :: "nat list"
  assumes rd: "lookup_ready co" and hy: "co_kind co = Hybrid" and g: "g \<in> set (attention_groups co)" and s: "search_ok co hashes s"
    and n: "0 \<le> n" "n \<le> hs_current s" "n mod scheduler_block_size co = 0"
    and h: "list_all2 (\<lambda>i bl. group_hit co hashes (nat i) n bl) (sg_group_ids g) bls"
  defines "s1 \<equiv> store_hits (sg_group_ids g) bls n (s\<lparr>hs_current := n, hs_verified := v\<rparr>)"
  shows "search_ok co hashes (s1\<lparr>hs_longest := l\<rparr>)" "entry_done co s g (s1\<lparr>hs_longest := l\<rparr>)" "hs_current s1 = n"
    "int i \<notin> set (sg_group_ids g) \<Longrightarrow> hs_blocks s1 ! i = hs_blocks s ! i \<and> hs_lengths s1 ! i = hs_lengths s ! i"
proof -
  note E = entry_facts [OF rd hy g] and S = search_okD [OF s]
  have S1: "length (hs_blocks s1) = num_groups co" "length (hs_lengths s1) = num_groups co" "hs_current s1 = n"
      "\<And>k. k < length (sg_group_ids g) \<Longrightarrow> hs_blocks s1 ! nat (sg_group_ids g ! k) = Some (bls ! k) \<and> hs_lengths s1 ! nat (sg_group_ids g ! k) = n"
      "\<And>i. int i \<notin> set (sg_group_ids g) \<Longrightarrow> hs_blocks s1 ! i = hs_blocks s ! i \<and> hs_lengths s1 ! i = hs_lengths s ! i"
    using store_hits_spec [of bls "sg_group_ids g" "num_groups co" "s\<lparr>hs_current := n, hs_verified := v\<rparr>" n] E(3,4) S(1,2) list_all2_lengthD [OF h]
    unfolding s1_def by auto
  show "hs_current s1 = n" by (rule S1(3))
  have mine: "hs_blocks s1 ! nat i \<noteq> None" "hs_lengths s1 ! nat i = n" "hs_blocks s1 ! nat i = Some bl \<Longrightarrow> group_hit co hashes (nat i) n bl"
    if "i \<in> set (sg_group_ids g)" for i bl
  proof -
    from that obtain k where k: "k < length (sg_group_ids g)" "sg_group_ids g ! k = i" by (auto simp: in_set_conv_nth)
    then show "hs_blocks s1 ! nat i \<noteq> None" "hs_lengths s1 ! nat i = n" "hs_blocks s1 ! nat i = Some bl \<Longrightarrow> group_hit co hashes (nat i) n bl"
      using S1(4) [OF k(1)] h by (auto simp: list_all2_conv_all_nth)
  qed
  show "entry_done co s g (s1\<lparr>hs_longest := l\<rparr>)" using mine S1(3) by (simp add: entry_done_def)
  show "int i \<notin> set (sg_group_ids g) \<Longrightarrow> hs_blocks s1 ! i = hs_blocks s ! i \<and> hs_lengths s1 ! i = hs_lengths s ! i" by (rule S1(5))
  have all: "0 \<le> hs_lengths s1 ! i \<and> hs_lengths s1 ! i mod scheduler_block_size co = 0 \<and>
      (\<forall>bl. hs_blocks s1 ! i = Some bl \<longrightarrow> group_hit co hashes i (hs_lengths s1 ! i) bl)" if i: "i < num_groups co" for i
  proof (cases "int i \<in> set (sg_group_ids g)")
    case True
    then show ?thesis using mine [OF True] n by simp
  next
    case False
    then show ?thesis using S1(5) [OF False] S(5-7) [OF i] by simp
  qed
  have uni: "(hs_blocks s1 ! nat i = None \<longleftrightarrow> hs_blocks s1 ! nat (hd ids) = None) \<and> hs_lengths s1 ! nat i = hs_lengths s1 ! nat (hd ids)"
    if ids: "ids \<in> set (map sg_group_ids (attention_groups co))" and i: "i \<in> set ids" for ids i
  proof -
    have hd: "hd ids \<in> set ids" using i by (metis hd_in_set list.set_cases neq_Nil_conv)
    show ?thesis
    proof (cases "ids = sg_group_ids g")
      case True
      then show ?thesis using mine(1,2) [of i] mine(1,2) [of "hd ids"] i hd by auto
    next
      case False
      then have d: "set ids \<inter> set (sg_group_ids g) = {}" using entries_disjoint(1) [OF rd hy] ids g unfolding distinct_concat_iff by auto
      obtain g' where g': "g' \<in> set (attention_groups co)" "ids = sg_group_ids g'" using ids by auto
      have "0 \<le> i" "0 \<le> hd ids" using entry_facts(4) [OF rd hy g'(1)] i hd g'(2) by auto
      then have "int (nat i) \<notin> set (sg_group_ids g)" "int (nat (hd ids)) \<notin> set (sg_group_ids g)" using i hd d by auto
      then show ?thesis using S(8) [OF g'(1), of i] i by (simp add: S1(5) g'(2))
    qed
  qed
  show "search_ok co hashes (s1\<lparr>hs_longest := l\<rparr>)" using S1(1,2,3) n all uni by (simp add: search_ok_def)
qed

lemma entry_turn_ok:
  assumes rd: "lookup_ready co" and hy: "co_kind co = Hybrid" and g: "g \<in> set (attention_groups co)" and s: "search_ok co hashes s" and ml: "0 \<le> ml"
    and t: "hit_turn co hashes ml (idx, g) s = Inr s'"
  shows "search_ok co hashes s'" "hs_current s' \<le> hs_current s" "entry_done co s g s'"
    "int i \<notin> set (sg_group_ids g) \<Longrightarrow> hs_blocks s' ! i = hs_blocks s ! i \<and> hs_lengths s' ! i = hs_lengths s ! i"
proof -
  note E = entry_facts [OF rd hy g] and S = search_okD [OF s]
  obtain f ids where ids: "sg_group_ids g = f # ids" using E(1) by (cases "sg_group_ids g") auto
  then have f: "0 \<le> f" "nat f < num_groups co" and fs: "mgr_spec (mgr co (nat f)) = sg_spec g"
    "mgr_block_size (mgr co (nat f)) = group_block_size (if is_full_attention (spec_type (sg_spec g)) then co_dcp_world_size co else 1) (sg_spec g)"
    using E(4) [of f] by auto
  have idx: "py_index (sg_group_ids g) 0 = Inr f" "py_index (single_type_managers co) f = Inr (mgr co (nat f))" "py_index (hs_blocks s) f = Inr (hs_blocks s ! nat f)"
    using f S(1) by (simp_all add: ids py_index_def)
  let ?full = "is_full_attention (spec_type (sg_spec g))"
  have "search_ok co hashes s' \<and> hs_current s' \<le> hs_current s \<and> entry_done co s g s' \<and>
    (\<forall>i. int i \<notin> set (sg_group_ids g) \<longrightarrow> hs_blocks s' ! i = hs_blocks s ! i \<and> hs_lengths s' ! i = hs_lengths s ! i)"
  proof (cases "?full \<and> hs_blocks s ! nat f \<noteq> None")
    case True
    then have s': "s' = s\<lparr>hs_current := min (hs_current s) (hs_lengths s ! nat f)\<rparr>" using t idx by (simp add: hit_turn_def)
    have "hs_current s mod scheduler_block_size co = 0" using S(4) [of "nat f"] True f(2) by blast
    then have "search_ok co hashes s'" using s S(5,6) [OF f(2)] unfolding s' search_ok_def by (auto simp: min_def)
    moreover have "hs_blocks s ! nat i \<noteq> None \<and> hs_lengths s ! nat i = hs_lengths s ! nat f" if "i \<in> set (sg_group_ids g)" for i
      using S(8) [OF g that] True by (simp add: ids)
    then have "entry_done co s g s'" using True by (simp add: entry_done_def s')
    ultimately show ?thesis by (simp add: s')
  next
    case False
    let ?drop = "sg_use_eagle g \<and> idx \<notin> set (hs_verified s)"
    let ?ml = "if ?drop then min (hs_current s + mgr_block_size (mgr co (nat f))) ml else hs_current s"
    let ?dcp = "if ?full then co_dcp_world_size co else 1"
    from t obtain bls n v l where find: "st_find_longest_cache_hit (sg_manager_cls g) hashes ?ml (sg_group_ids g) (block_pool co) (sg_spec g) ?drop
        (scheduler_block_size co) ?dcp = Inr (bls, n)"
      and s': "s' = (store_hits (sg_group_ids g) bls n (s\<lparr>hs_current := n, hs_verified := v\<rparr>))\<lparr>hs_longest := l\<rparr>"
      unfolding hit_turn_def prod.case idx ebind_simps if_not_P [OF False] Let_def ebind_eq_Inr split_paired_Ex by (auto simp only: sum.inject)
    note R = ready_facts [OF rd]
    have "0 \<le> ?ml" using S(3) ml R(5) [OF f(2)] by auto
    from find_ok [OF R(2,3) fs(2) R(5) [OF f(2)] R(6) [OF f(2), unfolded fs(1)] R(4) R(7) [OF f(2)] this E(1) find [unfolded E(2)]]
    have n: "0 \<le> n" "n mod scheduler_block_size co = 0" "n \<le> hs_current s"
      and h: "list_all2 (\<lambda>i bl. good_hit (block_pool co) hashes (sg_spec g) (mgr_block_size (mgr co (nat f))) i n bl) (sg_group_ids g) bls"
      using S(3) by (auto split: if_splits)
    have "list_all2 (\<lambda>i bl. group_hit co hashes (nat i) n bl) (sg_group_ids g) bls"
      using h fs(2) E(4) unfolding list_all2_conv_all_nth group_hit_def by auto
    note T = lookup_turn_ok [OF rd hy g s n(1,3,2) this, where v = v]
    show ?thesis using T(1,2) [where l = l] T(3,4) n(3) by (auto simp: s')
  qed
  then show "search_ok co hashes s'" "hs_current s' \<le> hs_current s" "entry_done co s g s'"
    "int i \<notin> set (sg_group_ids g) \<Longrightarrow> hs_blocks s' ! i = hs_blocks s ! i \<and> hs_lengths s' ! i = hs_lengths s ! i" by auto
qed


section \<open>A pass\<close>

lemma pass_ok:
  assumes rd: "lookup_ready co" and hy: "co_kind co = Hybrid" and ml: "0 \<le> ml" and xs: "snd ` set xs \<subseteq> set (attention_groups co)"
    and d: "distinct (concat (map (\<lambda>x. sg_group_ids (snd x)) xs))" and s: "search_ok co hashes s"
    and e: "efold (hit_turn co hashes ml) xs s = Inr s'"
  shows "search_ok co hashes s' \<and> hs_current s' \<le> hs_current s \<and>
    (\<forall>x \<in> set xs. \<forall>i \<in> set (sg_group_ids (snd x)). hs_blocks s' ! nat i \<noteq> None \<and> hs_current s' \<le> hs_lengths s' ! nat i \<and>
      (is_full_attention (spec_type (sg_spec (snd x))) \<and> hs_blocks s ! nat i \<noteq> None \<or> hs_lengths s' ! nat i \<le> hs_current s)) \<and>
    (\<forall>i. (\<forall>x \<in> set xs. int i \<notin> set (sg_group_ids (snd x))) \<longrightarrow> hs_blocks s' ! i = hs_blocks s ! i \<and> hs_lengths s' ! i = hs_lengths s ! i) \<and>
    (xs \<noteq> [] \<longrightarrow> (\<forall>i \<in> set (sg_group_ids (snd (last xs))).
      is_full_attention (spec_type (sg_spec (snd (last xs)))) \<and> hs_blocks s ! nat i \<noteq> None \<or> hs_lengths s' ! nat i = hs_current s'))"
  using xs d s e
proof (induction xs arbitrary: s)
  case (Cons x xs)
  obtain idx g where x [simp]: "x = (idx, g)" by (cases x)
  have g: "g \<in> set (attention_groups co)" using Cons.prems(1) by simp
  from Cons.prems(4) obtain s1 where t: "hit_turn co hashes ml (idx, g) s = Inr s1" and rest: "efold (hit_turn co hashes ml) xs s1 = Inr s'" by auto
  note T = entry_turn_ok [OF rd hy g Cons.prems(3) ml t]
  have sub: "snd ` set xs \<subseteq> set (attention_groups co)" "distinct (concat (map (\<lambda>x. sg_group_ids (snd x)) xs))" using Cons.prems(1,2) by auto
  note I = Cons.IH [OF sub T(1) rest]
  have nn: "0 \<le> i" if "y \<in> set (x # xs)" "i \<in> set (sg_group_ids (snd y))" for y i
    using entry_facts(4) [OF rd hy, of "snd y" i] that Cons.prems(1) by auto
  have apart: "i \<notin> set (sg_group_ids (snd y))" if "y \<in> set xs" "i \<in> set (sg_group_ids g)" for y i using that Cons.prems(2) by auto
  have mine: "hs_blocks s' ! nat i = hs_blocks s1 ! nat i" "hs_lengths s' ! nat i = hs_lengths s1 ! nat i" if "i \<in> set (sg_group_ids g)" for i
    using I nn [of x i] that apart by auto
  have before: "hs_blocks s1 ! nat i = hs_blocks s ! nat i" if "y \<in> set xs" "i \<in> set (sg_group_ids (snd y))" for y i
  proof -
    have "i \<notin> set (sg_group_ids g)" using apart [OF that(1)] that(2) by blast
    then show ?thesis using T(4) [of "nat i"] nn [of y i] that by auto
  qed
  have A: "hs_blocks s' ! nat i \<noteq> None \<and> hs_current s' \<le> hs_lengths s' ! nat i \<and>
      (is_full_attention (spec_type (sg_spec g)) \<and> hs_blocks s ! nat i \<noteq> None \<or> hs_lengths s' ! nat i \<le> hs_current s)" if "i \<in> set (sg_group_ids g)" for i
    using T(2,3) I mine [OF that] that unfolding entry_done_def by fastforce
  have B: "hs_blocks s' ! nat i \<noteq> None \<and> hs_current s' \<le> hs_lengths s' ! nat i \<and>
      (is_full_attention (spec_type (sg_spec (snd y))) \<and> hs_blocks s ! nat i \<noteq> None \<or> hs_lengths s' ! nat i \<le> hs_current s)"
    if y: "y \<in> set xs" and i: "i \<in> set (sg_group_ids (snd y))" for y i
    using I [THEN conjunct2, THEN conjunct2, THEN conjunct1, rule_format, OF y i] before [OF y i] T(2) by auto
  have C: "hs_blocks s' ! i = hs_blocks s ! i \<and> hs_lengths s' ! i = hs_lengths s ! i" if "\<forall>y \<in> set (x # xs). int i \<notin> set (sg_group_ids (snd y))" for i
    using I T(4) [of i] that by auto
  have D: "is_full_attention (spec_type (sg_spec (snd (last (x # xs))))) \<and> hs_blocks s ! nat i \<noteq> None \<or> hs_lengths s' ! nat i = hs_current s'"
    if i: "i \<in> set (sg_group_ids (snd (last (x # xs))))" for i
  proof (cases "xs = []")
    case True
    then show ?thesis using rest T(3) i unfolding entry_done_def by auto
  next
    case False
    then show ?thesis using I i before [OF last_in_set [OF False]] by auto
  qed
  show ?case using I T(2) A B C D by (auto simp del: last.simps)
qed auto

lemma hit_pass_ok:
  assumes rd: "lookup_ready co" and hy: "co_kind co = Hybrid" and ml: "0 \<le> ml" and s: "search_ok co hashes s" and e: "hit_pass co hashes ml s = Inr s'"
  shows "search_ok co hashes s'" "hs_current s' \<le> hs_current s"
    "g \<in> set (attention_groups co) \<Longrightarrow> i \<in> set (sg_group_ids g) \<Longrightarrow> hs_blocks s' ! nat i \<noteq> None \<and> hs_current s' \<le> hs_lengths s' ! nat i \<and>
      (is_full_attention (spec_type (sg_spec g)) \<and> hs_blocks s ! nat i \<noteq> None \<or> hs_lengths s' ! nat i \<le> hs_current s)"
    "i \<in> set (sg_group_ids (last (attention_groups co))) \<Longrightarrow> hs_blocks s ! nat i = None \<Longrightarrow> hs_lengths s' ! nat i = hs_current s'"
proof -
  let ?xs = "List.enumerate 0 (attention_groups co)"
  have snd: "map snd ?xs = attention_groups co" by simp
  have ne: "attention_groups co \<noteq> []" using rd hy by (auto simp: lookup_ready_def co_wf_def Let_def)
  then have nx: "?xs \<noteq> []" by (metis enumerate_simps(1) list.map_disc_iff snd list.map(1))
  have sub: "snd ` set ?xs \<subseteq> set (attention_groups co)" by (metis list.set_map order_refl snd)
  have "map (\<lambda>x. sg_group_ids (snd x)) ?xs = map sg_group_ids (attention_groups co)" by (metis (no_types, lifting) list.map_comp map_eq_conv comp_apply snd)
  then have d: "distinct (concat (map (\<lambda>x. sg_group_ids (snd x)) ?xs))" using entries_disjoint(1) [OF rd hy] by simp
  note P = pass_ok [OF rd hy ml sub d s e [unfolded hit_pass_def]]
  show "search_ok co hashes s'" "hs_current s' \<le> hs_current s" using P by blast+
  have l: "snd (last ?xs) = last (attention_groups co)" using last_map [OF nx, of snd] snd by simp
  show "i \<in> set (sg_group_ids (last (attention_groups co))) \<Longrightarrow> hs_blocks s ! nat i = None \<Longrightarrow> hs_lengths s' ! nat i = hs_current s'"
    using P [THEN conjunct2, THEN conjunct2, THEN conjunct2, THEN conjunct2, rule_format, OF nx] unfolding l by blast
  assume "g \<in> set (attention_groups co)" and i: "i \<in> set (sg_group_ids g)"
  then have "g \<in> snd ` set ?xs" by (metis list.set_map snd)
  then obtain x where x: "x \<in> set ?xs" "g = snd x" by auto
  show "hs_blocks s' ! nat i \<noteq> None \<and> hs_current s' \<le> hs_lengths s' ! nat i \<and>
      (is_full_attention (spec_type (sg_spec g)) \<and> hs_blocks s ! nat i \<noteq> None \<or> hs_lengths s' ! nat i \<le> hs_current s)"
    using P [THEN conjunct2, THEN conjunct2, THEN conjunct1, rule_format, OF x(1)] i unfolding x(2) by blast
qed


section \<open>The loop\<close>

text \<open>Each pass that goes on makes the candidate shorter, and it stays at least 0.\<close>

lemma loop_ends:
  assumes rd: "lookup_ready co" and hy: "co_kind co = Hybrid" and ml: "0 \<le> ml"
  shows "search_ok co hashes s \<Longrightarrow> \<exists>r. hit_loop co hashes ml simple s = Some r"
proof (induction "nat (hs_current s)" arbitrary: s rule: less_induct)
  case less
  show ?case
  proof (cases "hit_pass co hashes ml s")
    case (Inl e)
    then show ?thesis by (simp add: hit_loop.simps)
  next
    case (Inr s1)
    note P = hit_pass_ok(1,2) [OF rd hy ml less.prems Inr]
    show ?thesis
    proof (cases "hs_current s1 < hs_current s")
      case True
      then have "nat (hs_current s1) < nat (hs_current s)" using search_okD(3) [OF P(1)] by simp
      from less.hyps [OF this P(1)] Inr True show ?thesis by (cases simple) (simp_all add: hit_loop.simps [of co hashes ml _ s])
    qed (simp add: hit_loop.simps Inr)
  qed
qed

lemma loop_result:
  assumes rd: "lookup_ready co" and hy: "co_kind co = Hybrid" and ml: "0 \<le> ml"
  shows "search_ok co hashes s \<Longrightarrow> hit_loop co hashes ml False s = Some (Inr (h, s')) \<Longrightarrow>
    search_ok co hashes s' \<and> h = hs_current s' \<and> h \<le> hs_current s \<and>
    (\<forall>g \<in> set (attention_groups co). \<forall>i \<in> set (sg_group_ids g). hs_blocks s' ! nat i \<noteq> None \<and> h \<le> hs_lengths s' ! nat i \<and>
      (is_full_attention (spec_type (sg_spec g)) \<or> hs_lengths s' ! nat i = h))"
proof (induction "nat (hs_current s)" arbitrary: s rule: less_induct)
  case less
  from less.prems(2) obtain s1 where p: "hit_pass co hashes ml s = Inr s1" by (cases "hit_pass co hashes ml s") (auto simp: hit_loop.simps)
  note P = hit_pass_ok [OF rd hy ml less.prems(1) p]
  show ?case
  proof (cases "hs_current s1 < hs_current s")
    case True
    then have l: "nat (hs_current s1) < nat (hs_current s)" using search_okD(3) [OF P(1)] by simp
    from less.prems(2) p True have "hit_loop co hashes ml False s1 = Some (Inr (h, s'))" by (simp add: hit_loop.simps [of co hashes ml False s])
    from less.hyps [OF l P(1) this] True show ?thesis by auto
  next
    case False
    then have h: "h = hs_current s" "s' = s1" using less.prems(2) p by (auto simp: hit_loop.simps)
    moreover have "hs_current s1 = hs_current s" using False P(2) by simp
    ultimately show ?thesis using P(1,3) by fastforce
  qed
qed

text \<open>
  The blocks of later full-attention entries are not cut to the final length. Two entries need a single pass; with more, the search is
  right if only the first is full attention.
\<close>

definition one_full :: "coordinator \<Rightarrow> bool" where
  "one_full co \<longleftrightarrow> is_simple_hybrid co \<or> (\<forall>g \<in> set (tl (attention_groups co)). \<not> is_full_attention (spec_type (sg_spec g)))"

definition start_search :: "coordinator \<Rightarrow> int \<Rightarrow> hit_search" where
  "start_search co ml = \<lparr>hs_current = ml, hs_longest = 0, hs_blocks = replicate (length (kv_cache_groups co)) None,
     hs_lengths = replicate (length (kv_cache_groups co)) 0, hs_verified = []\<rparr>"

lemma start_search_ok:
  assumes rd: "lookup_ready co" and hy: "co_kind co = Hybrid" and ml: "0 \<le> ml"
  shows "search_ok co hashes (start_search co ml)"
proof -
  have l: "length (kv_cache_groups co) = num_groups co" using rd by (auto simp: lookup_ready_def co_wf_def Let_def)
  have "0 \<le> i \<and> nat i < num_groups co" if "g \<in> set (attention_groups co)" "i \<in> set (sg_group_ids g)" for g i using entry_facts(4) [OF rd hy that] by auto
  moreover have "hd (sg_group_ids g) \<in> set (sg_group_ids g)" if "g \<in> set (attention_groups co)" for g using entry_facts(1) [OF rd hy that] by simp
  ultimately show ?thesis using ml by (auto simp: search_ok_def start_search_def l)
qed

lemma first_or_exact:
  assumes rd: "lookup_ready co" and hy: "co_kind co = Hybrid" and ml: "0 \<le> ml" and one: "one_full co"
    and l: "hit_loop co hashes ml (is_simple_hybrid co) (start_search co ml) = Some (Inr (h, s'))"
  shows "search_ok co hashes s' \<and> h = hs_current s' \<and> h \<le> ml \<and>
    (\<forall>g \<in> set (attention_groups co). \<forall>i \<in> set (sg_group_ids g). hs_blocks s' ! nat i \<noteq> None \<and> h \<le> hs_lengths s' ! nat i \<and>
      (g = hd (attention_groups co) \<and> is_full_attention (spec_type (sg_spec g)) \<or> hs_lengths s' ! nat i = h))"
proof -
  note S = start_search_ok [OF rd hy ml, of hashes]
  have c: "hs_current (start_search co ml) = ml" by (simp add: start_search_def)
  have ne: "attention_groups co \<noteq> []" using rd hy by (auto simp: lookup_ready_def co_wf_def Let_def)
  show ?thesis
  proof (cases "is_simple_hybrid co")
    case True
    then obtain g1 g2 where g: "attention_groups co = [g1, g2]" "is_full_attention (spec_type (sg_spec g1))"
      by (auto simp: is_simple_hybrid_def length_Suc_conv eval_nat_numeral)
    from l obtain s1 where p: "hit_pass co hashes ml (start_search co ml) = Inr s1"
      by (cases "hit_pass co hashes ml (start_search co ml)") (auto simp: hit_loop.simps)
    note P = hit_pass_ok [OF rd hy ml S p]
    have h: "h = hs_current s1" "s' = s1" using l p True P(2) by (auto simp: hit_loop.simps split: if_splits)
    have "hs_blocks (start_search co ml) ! nat i = None" if "i \<in> set (sg_group_ids g2)" for i
      using entry_facts(4) [OF rd hy, of g2 i] that g rd by (auto simp: start_search_def lookup_ready_def co_wf_def Let_def)
    then have "hs_lengths s1 ! nat i = hs_current s1" if "i \<in> set (sg_group_ids g2)" for i using P(4) that g(1) by simp
    then show ?thesis using P(1,2) P(3) [of g1] P(3) [of g2] h c g by auto
  next
    case False
    with l have l': "hit_loop co hashes ml False (start_search co ml) = Some (Inr (h, s'))" by simp
    have nf: "g = hd (attention_groups co)" if "g \<in> set (attention_groups co)" "is_full_attention (spec_type (sg_spec g))" for g
      using that one False ne by (cases "attention_groups co") (auto simp: one_full_def)
    from loop_result [OF rd hy ml S l'] nf c show ?thesis by auto
  qed
qed

text \<open>Cutting the blocks of the first entry.\<close>

lemma cut_hit:
  assumes h: "group_hit co hashes i n bl" and f: "is_full_attention (mgr_type (mgr co i))" and b: "0 < mgr_block_size (mgr co i)"
    and k: "0 \<le> k" "k \<le> n" "k mod mgr_block_size (mgr co i) = 0"
  shows "group_hit co hashes i k (py_slice_to bl (cdiv k (mgr_block_size (mgr co i))))"
proof -
  let ?b = "mgr_block_size (mgr co i)"
  obtain t where t: "k = int t * ?b" using k(1,3) b div_mult_mod_eq [of k ?b] by (metis add.right_neutral nonneg_int_cases pos_imp_zdiv_nonneg_iff)
  have "int t * ?b \<le> int (length bl) * ?b" using h k(2) t by (simp add: group_hit_def good_hit_def)
  then have "t \<le> length bl" using b by simp
  moreover have "get_num_skipped_tokens (mgr_type (mgr co i)) n = 0" "get_num_skipped_tokens (mgr_type (mgr co i)) k = 0" for n k
    using f by (cases "mgr_type (mgr co i)"; simp)+
  ultimately show ?thesis using h b by (auto simp: group_hit_def good_hit_def t min_absorb2)
qed

lemma fold_upd_nth:
  assumes "distinct js" "\<forall>i \<in> set js. 0 \<le> i \<and> i < int (length bl)" "j < length bl"
  shows "length (fold (\<lambda>i bl. bl[nat i := f (bl ! nat i)]) js bl) = length bl \<and>
    fold (\<lambda>i bl. bl[nat i := f (bl ! nat i)]) js bl ! j = (if int j \<in> set js then f (bl ! j) else bl ! j)"
  using assms
proof (induction js arbitrary: bl)
  case (Cons i js)
  have "nat i = j \<longleftrightarrow> int j = i" using Cons.prems(2) by auto
  then show ?case using Cons.IH [of "bl[nat i := f (bl ! nat i)]"] Cons.prems by (auto simp: nth_list_update)
qed simp

lemma truncate_ok:
  assumes rd: "lookup_ready co" and hy: "co_kind co = Hybrid" and s: "search_ok co hashes s" and h: "h = hs_current s"
    and dn: "\<forall>g \<in> set (attention_groups co). \<forall>i \<in> set (sg_group_ids g). hs_blocks s ! nat i \<noteq> None \<and> h \<le> hs_lengths s ! nat i \<and>
      (g = hd (attention_groups co) \<and> is_full_attention (spec_type (sg_spec g)) \<or> hs_lengths s ! nat i = h)"
    and t: "truncate_full co h (hs_blocks s) = Inr blocks"
  shows "h mod scheduler_block_size co = 0" "length blocks = num_groups co" "i < num_groups co \<Longrightarrow> \<exists>bl. blocks ! i = Some bl \<and> group_hit co hashes i h bl"
proof -
  have ne: "attention_groups co \<noteq> []" using rd hy by (auto simp: lookup_ready_def co_wf_def Let_def)
  note d = dn [rule_format]
  define g0 where "g0 = hd (attention_groups co)"
  have g0: "g0 \<in> set (attention_groups co)" "py_index (attention_groups co) 0 = Inr g0" using ne by (simp_all add: g0_def py_index_def hd_conv_nth)
  note S = search_okD [OF s] and E = entry_facts [OF rd hy g0(1)] and R = ready_facts [OF rd]
  obtain f ids where ids: "sg_group_ids g0 = f # ids" using E(1) by (cases "sg_group_ids g0") auto
  have f: "0 \<le> f" "nat f < num_groups co" "py_index (sg_group_ids g0) 0 = Inr f" "py_index (single_type_managers co) f = Inr (mgr co (nat f))"
    using E(4) [of f] by (auto simp: ids py_index_def)
  show hm: "h mod scheduler_block_size co = 0" using S(4) [of "nat f"] d [OF g0(1), of f] f(2) by (simp add: h ids)
  let ?F = "map_option (\<lambda>b. py_slice_to b (cdiv h (mgr_block_size (mgr co (nat f)))))"
  let ?full = "is_full_attention (spec_type (sg_spec g0))"
  have bl: "blocks = (if ?full then fold (\<lambda>i bl. bl[nat i := ?F (bl ! nat i)]) (sg_group_ids g0) (hs_blocks s) else hs_blocks s)"
    using t unfolding truncate_full_def g0(2) f(3,4) ebind_simps by (auto split: if_splits)
  have fu: "j < num_groups co \<Longrightarrow> length (fold (\<lambda>i bl. bl[nat i := ?F (bl ! nat i)]) (sg_group_ids g0) (hs_blocks s)) = num_groups co \<and>
      fold (\<lambda>i bl. bl[nat i := ?F (bl ! nat i)]) (sg_group_ids g0) (hs_blocks s) ! j =
        (if int j \<in> set (sg_group_ids g0) then ?F (hs_blocks s ! j) else hs_blocks s ! j)" for j
    using fold_upd_nth [of "sg_group_ids g0" "hs_blocks s" j ?F] E(3,4) S(1) by auto
  show "length blocks = num_groups co" using bl fu [of "nat f"] f(2) S(1) by simp
  assume i: "i < num_groups co"
  then have "int i \<in> set (concat (map sg_group_ids (attention_groups co)))" using entries_disjoint(2) [OF rd hy] by auto
  then obtain g where g: "g \<in> set (attention_groups co)" "int i \<in> set (sg_group_ids g)" by auto
  show "\<exists>bl. blocks ! i = Some bl \<and> group_hit co hashes i h bl"
  proof (cases "?full \<and> int i \<in> set (sg_group_ids g0)")
    case True
    obtain b where b: "hs_blocks s ! i = Some b" "h \<le> hs_lengths s ! i" using d [OF g0(1), of "int i"] True by auto
    have sp: "mgr_spec (mgr co i) = sg_spec g0" "mgr_block_size (mgr co (nat f)) = mgr_block_size (mgr co i)" using E(4) [of "int i"] E(4) [of f] True ids by auto
    have "h mod mgr_block_size (mgr co i) = 0" using hm R(7) [OF i] by (metis dvd_trans mod_eq_0_iff_dvd)
    from cut_hit [OF S(7) [OF i b(1)] _ R(5) [OF i] _ b(2) this] True S(3) h sp fu [OF i] b(1) show ?thesis by (simp add: bl)
  next
    case False
    then have "blocks ! i = hs_blocks s ! i" using bl fu [OF i] by auto
    moreover have "\<not> (g = g0 \<and> ?full)" using False g(2) by auto
    ultimately show ?thesis using d [OF g] S(7) [OF i] unfolding g0_def by auto
  qed
qed

lemma hybrid_find_ok:
  assumes rd: "lookup_ready co" and hy: "co_kind co = Hybrid" and ml: "0 \<le> ml" and one: "one_full co"
    and f: "hybrid_find_longest_cache_hit co hashes ml = Some (Inr (bls, h, u))"
  shows "0 \<le> h \<and> h \<le> ml \<and> h mod scheduler_block_size co = 0 \<and> length bls = num_groups co \<and> (\<forall>i < num_groups co. group_hit co hashes i h (bls ! i))"
proof -
  from f obtain s' blocks where l: "hit_loop co hashes ml (is_simple_hybrid co) (start_search co ml) = Some (Inr (h, s'))"
    and t: "truncate_full co h (hs_blocks s') = Inr blocks" and b: "bls = map (\<lambda>b. case b of None \<Rightarrow> [] | Some l \<Rightarrow> l) blocks"
    unfolding hybrid_find_longest_cache_hit_def start_search_def bind_eq_Some_conv by auto
  note F = first_or_exact [OF rd hy ml one l]
  have s: "search_ok co hashes s'" "h = hs_current s'" "h \<le> ml" using F by auto
  note T = truncate_ok [OF rd hy s(1,2) F [THEN conjunct2, THEN conjunct2, THEN conjunct2] t]
  have "group_hit co hashes i h (bls ! i)" if "i < num_groups co" for i using T(3) [OF that] T(2) that by (auto simp: b)
  then show ?thesis using s T(1,2) search_okD(3) [OF s(1)] by (simp add: b)
qed

lemma unitary_find_ok:
  assumes rd: "lookup_ready co" and u: "co_kind co = Unitary" and ml: "0 \<le> ml"
    and f: "find_longest_cache_hit co hashes ml = Some (Inr (bls, h, k))"
  shows "0 \<le> h \<and> h \<le> ml \<and> length bls = num_groups co \<and> (\<forall>i < num_groups co. group_hit co hashes i h (bls ! i))"
proof -
  note R = ready_facts [OF rd]
  have n: "num_groups co = 1" "length (kv_cache_groups co) = 1" using R(1) u by (auto simp: co_wf_def Let_def)
  note W = co_wf_managers [OF R(1), of 0]
  have idx: "py_index (kv_cache_groups co) 0 = Inr (kv_cache_groups co ! 0)" "py_index (single_type_managers co) 0 = Inr (mgr co 0)"
    using n by (simp_all add: py_index_def)
  from f have "st_find_longest_cache_hit (get_manager_class (mgr_type (mgr co 0))) hashes ml [0] (block_pool co) (mgr_spec (mgr co 0))
      (0 \<in> set (eagle_group_ids co)) (mgr_block_size (mgr co 0)) (co_dcp_world_size co) = Inr (bls, h)"
    unfolding find_longest_cache_hit_def u coordinator_kind.case idx ebind_simps using W(1) n by auto
  from find_ok [OF R(2,3) W(2) R(5) R(6) R(5) _ ml _ this] n
  have "0 \<le> h \<and> h \<le> (if 0 \<in> set (eagle_group_ids co) then max 0 (ml - mgr_block_size (mgr co 0)) else ml) \<and>
    list_all2 (\<lambda>g bl. good_hit (block_pool co) hashes (mgr_spec (mgr co 0)) (mgr_block_size (mgr co 0)) g h bl) [0] bls" by auto
  then show ?thesis using n ml R(5) [of 0] by (auto simp: group_hit_def list_all2_Cons1 split: if_splits)
qed

theorem find_longest_ends:
  assumes rd: "lookup_ready co" and ml: "0 \<le> ml"
  shows "\<exists>r. find_longest_cache_hit co hashes ml = Some r"
proof (cases "co_kind co")
  case Hybrid
  from loop_ends [OF rd Hybrid ml start_search_ok [OF rd Hybrid ml], of hashes "is_simple_hybrid co"]
  show ?thesis by (auto simp: find_longest_cache_hit_def Hybrid hybrid_find_longest_cache_hit_def start_search_def)
qed (simp_all add: find_longest_cache_hit_def)

end
