(* ===== verification/KV_Properties.thy ===== *)
theory KV_Properties
  imports Manager_Properties Common_Hit
begin

text \<open>
  The guarantees the scheduler has from \<^verbatim>\<open>KVCacheManager\<close>, over every sequence of calls.
\<close>

section \<open>From the invariant to the lookups\<close>

lemma km_ok_ready: "km_ok km held fl \<Longrightarrow> lookup_ready (coordinator km)"
  using km_okD(9) [of km held fl] pool_okD(3) [OF km_okD(1) [of km held fl]] st_okD(1,2)
  by (auto simp: lookup_ready_def km_ok_def Let_def)

text \<open>Reporting a hit changes of the request at most its memo of embedding digests.\<close>

definition same_request :: "request \<Rightarrow> request \<Rightarrow> bool" where
  "same_request r r' \<longleftrightarrow> r'\<lparr>embeds_per_block_hashes := []\<rparr> = r\<lparr>embeds_per_block_hashes := []\<rparr>"

lemma same_request_fields:
  assumes "same_request r r'"
  shows "request_id r' = request_id r" "num_computed_tokens r' = num_computed_tokens r" "num_tokens r' = num_tokens r" "status r' = status r"
    "num_prompt_tokens r' = num_prompt_tokens r" "num_in_flight_tokens r' = num_in_flight_tokens r"
proof -
  have "f r' = f r" if "\<And>x. f (x\<lparr>embeds_per_block_hashes := []\<rparr>) = f x" for f :: "request \<Rightarrow> 'z" using assms that unfolding same_request_def by metis
  from this [of request_id] this [of num_computed_tokens] this [of num_tokens] this [of status] this [of num_prompt_tokens] this [of num_in_flight_tokens]
  show "request_id r' = request_id r" "num_computed_tokens r' = num_computed_tokens r" "num_tokens r' = num_tokens r" "status r' = status r"
    "num_prompt_tokens r' = num_prompt_tokens r" "num_in_flight_tokens r' = num_in_flight_tokens r"
    by (simp_all add: num_tokens_def)
qed

lemma same_request_refl [simp]: "same_request r r"
  by (simp add: same_request_def)

lemma same_request_trans: "same_request r r1 \<Longrightarrow> same_request r1 r2 \<Longrightarrow> same_request r r2"
  by (simp add: same_request_def)

lemma generate_keys_same: 
  assumes "generate_block_hash_extra_keys env r s e i = Inr (ks, j, r')"
  shows "same_request r r'"
proof -
  from generate_keys_request [OF assms] obtain x where "r' = r\<lparr>embeds_per_block_hashes := x\<rparr>" ..
  then show ?thesis by (simp add: same_request_def)
qed

lemma event_keys_same:
  assumes "event_extra_keys env skip bs ixs r = Inr (ks, r')"
  shows "same_request r r'"
proof -
  let ?f = "\<lambda>i (r, cur_mm_idx, acc).
         ebind (skip i) (\<lambda>s.
         if s then Inr (r, cur_mm_idx, acc)
         else
           ebind (generate_block_hash_extra_keys env r (i * bs) (i * bs + bs) cur_mm_idx)
             (\<lambda>(extra_keys, idx, r'). Inr (r', idx, acc @ [extra_keys])))"
  from assms obtain n where e: "efold ?f ixs (r, 0, []) = Inr (r', n, ks)" by (auto simp: event_extra_keys_def)
  have "same_request r (fst (r', n, ks))"
    by (rule efold_preserves [where P = "\<lambda>s. same_request r (fst s)", OF _ e])
      (auto dest!: generate_keys_same elim: same_request_trans split: if_splits)
  then show ?thesis by simp
qed

lemma emit_same:
  assumes "emit_cached_block_events env r n bs gid p = Inr (r', q)" shows "same_request r r'"
  using assms event_keys_same by (auto simp: emit_cached_block_events_def split: if_splits)

text \<open>What a lookup returns.\<close>

lemma lookup_result:
  assumes ok: "km_ok km held fl" and n0: "1 \<le> num_tokens r"
    and g: "get_computed_blocks env full r km = Some (Inr (b, n, bd, r', km'))"
  shows "same_request r r' \<and> (\<exists>q. same_but_events (block_pool (coordinator km)) q \<and> km' = km\<lparr>coordinator := (coordinator km)\<lparr>block_pool := q\<rparr>\<rparr>) \<and>
    (if prefix_cache_lookup_enabled km r
     then \<exists>bls u. find_longest_cache_hit (coordinator km) (block_hashes r) (num_tokens r - 1) = Some (Inr (bls, n, u)) \<and> b = create_kv_cache_blocks bls
     else b = None \<and> n = 0)"
proof (cases "prefix_cache_lookup_enabled km r")
  case False
  have "km' = km\<lparr>coordinator := (coordinator km)\<lparr>block_pool := block_pool (coordinator km)\<rparr>\<rparr>" "r' = r" "b = None" "n = 0"
    using g False by (auto simp: get_computed_blocks_def)
  then show ?thesis using False same_events_refl [of "block_pool (coordinator km)"] by auto
next
  case True
  let ?f = "\<lambda>(i, blocks) (r, p). if blocks \<noteq> [] then ebind (py_index (kv_cache_groups (coordinator km)) (int i)) (\<lambda>g.
       emit_cached_block_events env r (int (length blocks)) (spec_block_size (kv_cache_spec g)) (int i) p) else Inr (r, p)"
  from g True obtain bls u where h: "find_longest_cache_hit (coordinator km) (block_hashes r) (num_tokens r - 1) = Some (Inr (bls, n, u))"
    by (auto simp: get_computed_blocks_def bind_eq_Some_conv)
  from g True obtain q where q: "(if n > 0 \<and> km_events km \<and> full then efold ?f (List.enumerate 0 bls) (r, block_pool (coordinator km))
      else Inr (r, block_pool (coordinator km))) = Inr (r', q)" "km' = km\<lparr>coordinator := (coordinator km)\<lparr>block_pool := q\<rparr>\<rparr>" "b = create_kv_cache_blocks bls"
    unfolding get_computed_blocks_def h by (auto simp del: efold.simps)
  have "same_request r (fst t) \<and> same_but_events (block_pool (coordinator km)) (snd t)" if "efold ?f xs (r, block_pool (coordinator km)) = Inr t" for xs t
    by (rule efold_preserves [where P = "\<lambda>s. same_request r (fst s) \<and> same_but_events (block_pool (coordinator km)) (snd s)", OF _ that])
      (auto simp: same_events_refl split: if_splits intro: same_request_trans [OF _ emit_same] same_events_trans [OF _ emit_cached_same])
  from this [of "List.enumerate 0 bls" "(r', q)"] have "same_request r r' \<and> same_but_events (block_pool (coordinator km)) q"
    using q(1) same_events_refl [of q] by (cases "n > 0 \<and> km_events km \<and> full") auto
  then show ?thesis using h q(2,3) True by auto
qed

lemma find_longest_ok:
  assumes ok: "km_ok km held fl" and en: "km_caching km" and one: "co_kind (coordinator km) = Hybrid \<Longrightarrow> one_full (coordinator km)" and ml: "0 \<le> ml"
    and f: "find_longest_cache_hit (coordinator km) hashes ml = Some (Inr (bls, n, u))"
  shows "0 \<le> n \<and> n \<le> ml \<and> length bls = num_groups (coordinator km) \<and> (\<forall>i < num_groups (coordinator km). group_hit (coordinator km) hashes i n (bls ! i))"
proof (cases "co_kind (coordinator km)")
  case NoPrefixCache
  then show ?thesis using km_okD(10) [OF ok] en by simp
next
  case Unitary
  then show ?thesis using unitary_find_ok [OF km_ok_ready [OF ok] Unitary ml f] by simp
next
  case Hybrid
  then show ?thesis using hybrid_find_ok [OF km_ok_ready [OF ok] Hybrid ml one [OF Hybrid]] f by (auto simp: find_longest_cache_hit_def)
qed

lemma lookup_hits:
  assumes ok: "km_ok km held fl" and n0: "1 \<le> num_tokens r" and one: "co_kind (coordinator km) = Hybrid \<Longrightarrow> one_full (coordinator km)"
    and g: "get_computed_blocks env full r km = Some (Inr (b, n, bd, r', km'))"
  shows "0 \<le> n \<and> n < num_tokens r \<and> length (kv_blocks km b) = num_groups (coordinator km) \<and>
    (\<forall>i < num_groups (coordinator km). kv_blocks km b ! i = [] \<and> n = 0 \<or> km_caching km \<and> group_hit (coordinator km) (block_hashes r) i n (kv_blocks km b ! i))"
proof (cases "prefix_cache_lookup_enabled km r")
  case False
  then show ?thesis using lookup_result [OF ok n0 g] n0 km_okD(7) [OF ok] by (auto simp: kv_blocks_def empty_blocks_def)
next
  case True
  with lookup_result [OF ok n0 g] obtain bls u where f: "find_longest_cache_hit (coordinator km) (block_hashes r) (num_tokens r - 1) = Some (Inr (bls, n, u))"
    and b: "b = create_kv_cache_blocks bls" by auto
  have en: "km_caching km" using True by (simp add: prefix_cache_lookup_enabled_def)
  note F = find_longest_ok [OF ok en one _ f]
  have "kv_blocks km b = bls"
  proof (cases "list_ex (\<lambda>b. b \<noteq> []) bls")
    case False
    then have "bls = replicate (length bls) []" by (metis (mono_tags, lifting) list_ex_iff replicate_eqI)
    then have "bls = map (\<lambda>_. []) (kv_cache_groups (coordinator km))" using F n0 km_okD(7) [OF ok] by (simp add: map_replicate_const)
    then show ?thesis using False by (simp add: b create_kv_cache_blocks_def kv_blocks_def empty_blocks_def)
  qed (simp add: b create_kv_cache_blocks_def kv_blocks_def)
  then show ?thesis using F n0 en by auto
qed

lemma good_hit_admissible:
  assumes ok: "km_ok km held fl" and i: "i < num_groups (coordinator km)" and n: "0 \<le> n"
    and h: "bl = [] \<and> n = 0 \<or> km_caching km \<and> group_hit (coordinator km) hashes i n bl"
  shows "hit_ok (block_pool (coordinator km)) (mgr (coordinator km) i) n bl"
proof -
  let ?m = "mgr (coordinator km) i" and ?p = "block_pool (coordinator km)"
  have bs: "0 < mgr_block_size ?m" by (rule ready_facts(5) [OF km_ok_ready [OF ok] i])
  have nb: "null_block ?p = Blk 0" using pool_okD(1) [OF km_okD(1) [OF ok]] by (simp add: null_ok_def)
  from h show ?thesis
  proof
    assume "bl = [] \<and> n = 0"
    then show ?thesis using bs by (simp add: hit_ok_def cdiv_def)
  next
    assume g: "km_caching km \<and> group_hit (coordinator km) hashes i n bl"
    then have l: "int (length bl) * mgr_block_size ?m = n" and cr: "mgr_type ?m \<noteq> CrossAttentionSpec"
      and c: "\<forall>j < length bl. bl ! j \<in> insert (Blk 0) (real_blocks ?p)" by (auto simp: group_hit_def good_hit_def holds_hash_def nb)
    have "\<not> is_cross ?m" using cr by (cases "mgr_type ?m") (auto simp: is_cross_def)
    moreover have "mgr_caching ?m" using co_wf_managers(4) [OF km_okD(9) [OF ok] i] km_okD(10) [OF ok] g by simp
    moreover have "cdiv n (mgr_block_size ?m) = int (length bl)" "n mod mgr_block_size ?m = 0" using l bs by auto
    moreover have "set bl \<subseteq> insert (Blk 0) (real_blocks ?p)" using c by (auto simp: in_set_conv_nth)
    ultimately show ?thesis by (simp add: hit_ok_def)
  qed
qed


text \<open>A block without references is in no table and no pending copy.\<close>

lemma table_refs_zero:
  assumes "st_ok p m"
  shows "table_refs m b = 0 \<longleftrightarrow> (\<forall>rid. b \<notin> set (blocks_of m rid))"
proof -
  have k: "(rid, bs) \<in> set (req_to_blocks m) \<longleftrightarrow> dget (req_to_blocks m) rid = Some bs" for rid bs
    using st_okD(3) [OF assms] by simp
  have "table_refs m b = 0 \<longleftrightarrow> (\<forall>(rid, bs) \<in> set (req_to_blocks m). b \<notin> set bs)"
    unfolding table_refs_def by (subst sum_list_nonneg_eq_0_iff) (auto simp: split_beta count_list_0_iff)
  also have "\<dots> \<longleftrightarrow> (\<forall>rid. b \<notin> set (blocks_of m rid))" 
  proof
    assume l: "\<forall>(rid, bs) \<in> set (req_to_blocks m). b \<notin> set bs"
    show "\<forall>rid. b \<notin> set (blocks_of m rid)"
    proof
      fix rid
      show "b \<notin> set (blocks_of m rid)" using l k [of rid] by (cases "dget (req_to_blocks m) rid") (auto simp: blocks_of_def dget_default_def)
    qed
  next
    assume "\<forall>rid. b \<notin> set (blocks_of m rid)"
    moreover have "blocks_of m rid = bs" if "(rid, bs) \<in> set (req_to_blocks m)" for rid bs using that k by (simp add: blocks_of_def dget_default_def)
    ultimately show "\<forall>(rid, bs) \<in> set (req_to_blocks m). b \<notin> set bs" by auto
  qed
  finally show ?thesis .
qed

lemma cow_refs_zero: "cow_refs m b = 0 \<longleftrightarrow> (\<forall>(s, c) \<in> set (pending_cow_copies m). b \<noteq> s \<and> b \<noteq> c)"
  unfolding cow_refs_def by (subst sum_list_nonneg_eq_0_iff) (auto split: if_splits)

lemma all_refs_zero:
  assumes "\<forall>m \<in> set ms. st_ok p m"
  shows "all_refs ms b = 0 \<longleftrightarrow> (\<forall>m \<in> set ms. \<forall>rid. b \<notin> set (blocks_of m rid)) \<and> (\<forall>m \<in> set ms. \<forall>(s, c) \<in> set (pending_cow_copies m). b \<noteq> s \<and> b \<noteq> c)"
  using assms
proof (induction ms)
  case (Cons m ms)
  have "0 \<le> table_refs m b" "0 \<le> cow_refs m b" unfolding table_refs_def cow_refs_def by (auto intro!: sum_list_nonneg)
  then have "all_refs (m # ms) b = 0 \<longleftrightarrow> table_refs m b = 0 \<and> cow_refs m b = 0 \<and> all_refs ms b = 0"
    using all_refs_nonneg [of ms b] by (auto simp: mgr_refs_def)
  then show ?case using Cons table_refs_zero [of p m b] cow_refs_zero [of m b] by auto
qed simp


section \<open>Properties\<close>

text \<open>
  C1. In every reachable state of the manager the reference count of a block is the number of its places in the block tables of all
  groups, in copies still to be made and among the blocks a caller holds, and the free list has exactly the blocks with no such place:
  a block in use is never free, so it is neither handed out again nor evicted, and no unused block is lost.
\<close>

theorem reachable_manager_references:
  assumes "km_reach km held"
  shows "\<exists>fl. get_all_free_blocks (block_pool (coordinator km)) = Some (Inr fl) \<and> distinct fl \<and>
    get_num_free_blocks (block_pool (coordinator km)) = int (length fl) \<and>
    set fl = {b \<in> real_blocks (block_pool (coordinator km)). (\<forall>m \<in> set (single_type_managers (coordinator km)). \<forall>rid. b \<notin> set (blocks_of m rid)) \<and>
      (\<forall>m \<in> set (single_type_managers (coordinator km)). \<forall>(s, c) \<in> set (pending_cow_copies m). b \<noteq> s \<and> b \<noteq> c) \<and> b \<notin> set held} \<and>
    (\<forall>b \<in> real_blocks (block_pool (coordinator km)). ref_cnt (heap (block_pool (coordinator km)) b) =
      (\<Sum>m \<leftarrow> single_type_managers (coordinator km). (\<Sum>(rid, bs) \<leftarrow> req_to_blocks m. int (count_list bs b)) +
        (\<Sum>(s, c) \<leftarrow> pending_cow_copies m. int (count_list [s, c] b))) + int (count_list held b))"
proof -
  obtain fl where ok: "km_ok km held fl" using km_reach_ok [OF assms] by blast
  note D = km_okD [OF ok] and P = pool_okD [OF km_okD(1) [OF ok]]
  let ?p = "block_pool (coordinator km)" and ?ms = "single_type_managers (coordinator km)"
  have st: "\<forall>m \<in> set ?ms. st_ok ?p m" using ok by (simp add: km_ok_def Let_def)
  have "b \<in> set fl \<longleftrightarrow> all_refs ?ms b = 0 \<and> b \<notin> set held" if "b \<in> real_blocks ?p" for b
  proof -
    have "int (count_list held b) = 0 \<longleftrightarrow> b \<notin> set held" by (simp add: count_list_0_iff)
    then show ?thesis using P(8) [OF that] D(4) [OF that] all_refs_nonneg [of ?ms b] by linarith
  qed
  then have fl: "set fl = {b \<in> real_blocks ?p. (\<forall>m \<in> set ?ms. \<forall>rid. b \<notin> set (blocks_of m rid)) \<and>
      (\<forall>m \<in> set ?ms. \<forall>(s, c) \<in> set (pending_cow_copies m). b \<noteq> s \<and> b \<noteq> c) \<and> b \<notin> set held}"
    using P(5) unfolding all_refs_zero [OF st] by blast
  have refs: "\<forall>b \<in> real_blocks ?p. ref_cnt (heap ?p b) = (\<Sum>m \<leftarrow> ?ms. (\<Sum>(rid, bs) \<leftarrow> req_to_blocks m. int (count_list bs b)) +
        (\<Sum>(s, c) \<leftarrow> pending_cow_copies m. int (count_list [s, c] b))) + int (count_list held b)"
    using D(4) unfolding all_refs_def mgr_refs_def table_refs_def cow_refs_def by blast
  show ?thesis by (intro exI [of _ fl] conjI get_all_free_blocks_ok [OF P(4)] P(6,9) fl refs)
qed

text \<open>
  C5. A lookup ends: the search of a hybrid model for a length that is a hit in every group makes the candidate shorter with every pass
  that goes on, and never shorter than 0.
\<close>

theorem lookup_terminates:
  assumes "km_reach km held" "1 \<le> num_tokens r"
  shows "get_computed_blocks env full r km \<noteq> None"
proof -
  obtain fl where ok: "km_ok km held fl" using km_reach_ok [OF assms(1)] by blast
  from find_longest_ends [OF km_ok_ready [OF ok], of "num_tokens r - 1" "block_hashes r"] assms(2)
  show ?thesis by (auto simp: get_computed_blocks_def)
qed

text \<open>
  C3. The blocks a lookup returns are the request's own, for a coordinator with at most one full-attention type beside the other attention
  types (or exactly two types, the first of them full attention) and for every group whose chunk, if its attention is chunked, is a
  multiple of its block size. In each such group the blocks cover the hit exactly, and every block carries the hash of its place in the
  request, except null blocks before the window or chunk that the next token attends to.
\<close>

theorem lookup_hits_are_own_prefix:
  assumes "km_reach km held" "1 \<le> num_tokens r" "co_kind (coordinator km) = Hybrid \<longrightarrow> one_full (coordinator km)"
    and "get_computed_blocks env full r km = Some (Inr (b, n, bd, r', km'))"
    and "i < length (single_type_managers (coordinator km))" "m = single_type_managers (coordinator km) ! i" "bl = kv_blocks km b ! i"
    and "whole_chunks (mgr_block_size m) (mgr_type m)"
  shows "0 \<le> n \<and> n < num_tokens r \<and> int (length bl) * mgr_block_size m = n \<and>
    (\<forall>j < length bl.
       holds_hash (block_pool (coordinator km)) (hash_of_block (block_hashes r) (mgr_block_size m div hash_block_size (block_pool (coordinator km))) j)
         (int i) (bl ! j) \<or>
       bl ! j = null_block (block_pool (coordinator km)) \<and> (int j + 1) * mgr_block_size m \<le> get_num_skipped_tokens (mgr_type m) n)"
proof -
  obtain fl where ok: "km_ok km held fl" using km_reach_ok [OF assms(1)] by blast
  from lookup_hits [OF ok assms(2) _ assms(4)] assms(3,5) have "0 \<le> n" "n < num_tokens r"
    "bl = [] \<and> n = 0 \<or> group_hit (coordinator km) (block_hashes r) i n bl" unfolding assms(7) by auto
  then show ?thesis using assms(6,8) by (auto simp: group_hit_def good_hit_def)
qed

text \<open>
  C6. For a coordinator with at most one full-attention type beside the other attention types (or exactly two types, the first of them
  full attention), the result of a lookup can be passed to \<^verbatim>\<open>allocate_slots\<close> for a request without computed tokens that the manager does not
  know, as long as hit and external tokens fit into the model length: it has one list of blocks of the right length for every
  group, of blocks that exist.
\<close>

theorem lookup_result_fits_allocate:
  assumes "km_reach km held" "1 \<le> num_tokens r" "co_kind (coordinator km) = Hybrid \<longrightarrow> one_full (coordinator km)"
    and "get_computed_blocks env full r km = Some (Inr (b, n, bd, r', km'))" "num_computed_tokens r = 0"
    and "\<forall>m \<in> set (single_type_managers (coordinator km)). blocks_of m (request_id r) = [] \<and> dget (num_cached_block m) (request_id r) = None"
    and "sa_new_computed_tokens a = n" "sa_new_computed_blocks a = b" "0 \<le> sa_external_computed_tokens a"
    and "n + sa_external_computed_tokens a \<le> km_max_model_len km" "0 \<le> sa_reserved_blocks a" "0 \<le> sa_new_tokens a" "0 \<le> sa_lookahead_tokens a"
    and "sa_new_tokens a \<noteq> 0 \<or> sa_external_computed_tokens a \<noteq> 0"
  shows "slot_call km' r' a"
proof -
  obtain fl where ok: "km_ok km held fl" using km_reach_ok [OF assms(1)] by blast
  from lookup_result [OF ok assms(2,4)] obtain q where r': "same_request r r'" and q: "same_but_events (block_pool (coordinator km)) q"
    and km': "km' = km\<lparr>coordinator := (coordinator km)\<lparr>block_pool := q\<rparr>\<rparr>" by blast
  from lookup_hits [OF ok assms(2) _ assms(4)] assms(3) have h: "0 \<le> n" "length (kv_blocks km b) = num_groups (coordinator km)"
    "\<And>i. i < num_groups (coordinator km) \<Longrightarrow> kv_blocks km b ! i = [] \<and> n = 0 \<or> km_caching km \<and> group_hit (coordinator km) (block_hashes r) i n (kv_blocks km b ! i)"
    by auto
  have "hit_ok q (mgr (coordinator km) i) n (kv_blocks km b ! i)" if "i < num_groups (coordinator km)" for i
    using good_hit_admissible [OF ok that h(1) h(3) [OF that]] hit_ok_config [OF core_pool_config [OF same_but_events_fields(2) [OF q]]] by simp
  then have "fresh_call q (single_type_managers (coordinator km)) (request_id r) n (sa_external_computed_tokens a) (kv_blocks km b)"
    using h(1,2) assms(6,9) km_okD(3) [OF ok] by (auto simp: fresh_call_def)
  moreover have "kv_blocks km' b = kv_blocks km b" by (simp add: km' kv_blocks_def empty_blocks_def split: option.split)
  ultimately show ?thesis using assms(5,7-14) same_request_fields [OF r'] by (simp add: slot_call_def km' local_computed_def)
qed

text \<open>
  C2. What \<^verbatim>\<open>allocate_slots\<close> does on every branch. If the admission check fails, nothing changes. Otherwise the blocks outside the
  window of the request are released; if the free blocks, less those reserved, do not cover the blocks needed and the watermark, the
  answer is \<^verbatim>\<open>None\<close>. In all other cases the allocation succeeds: up to the caching of full blocks nothing raises, every group has blocks
  for all tokens, the tables of other requests stay as they are, and no more free blocks are used than were counted.
\<close>

theorem allocate_slots_outcomes:
  assumes "km_reach km held" "slot_call km r a"
  shows "\<exists>fits. full_sequence_fits r a km = Inr fits \<and>
    (if \<not> fits then allocate_slots env r a km = Inr (None, r, km)
     else \<exists>co1 k. release_skipped r a km = Inr co1 \<and> blocks_needed r a km co1 = Inr k \<and>
       (if k + watermark km r a > get_num_free_blocks (block_pool co1) - sa_reserved_blocks a
        then allocate_slots env r a km = Inr (None, r, km\<lparr>coordinator := co1\<rparr>)
        else \<exists>news co3. slots_granted env r a km co3 news \<and>
          get_num_free_blocks (block_pool co1) \<le> get_num_free_blocks (block_pool co3) + k))"
proof -
  obtain fl where ok: "km_ok km held fl" using km_reach_ok [OF assms(1)] by blast
  obtain fits where f: "full_sequence_fits r a km = Inr fits" using full_sequence_fits_ok [OF ok assms(2)] by blast
  show ?thesis
  proof (cases fits)
    case False
    then show ?thesis using slots_outcome(1) [OF ok assms(2), of env] f by (intro exI [of _ False]) simp
  next
    case True
    obtain co1 k where c: "release_skipped r a km = Inr co1" "blocks_needed r a km co1 = Inr k" using slots_outcome(2) [OF ok assms(2)] f True by auto
    have fT: "full_sequence_fits r a km = Inr True" using f True by simp
    note O = slots_outcome(3,4) [OF ok assms(2) fT c, of env]
    have "if k + watermark km r a > get_num_free_blocks (block_pool co1) - sa_reserved_blocks a
        then allocate_slots env r a km = Inr (None, r, km\<lparr>coordinator := co1\<rparr>)
        else \<exists>news co3. slots_granted env r a km co3 news \<and> get_num_free_blocks (block_pool co1) \<le> get_num_free_blocks (block_pool co3) + k"
      using O by (auto simp del: not_less)
    then show ?thesis using fT c by (intro exI [of _ True] conjI) auto
  qed
qed

lemma free_loop_ok:
  assumes "km_ok km [] fl"
  shows "\<exists>km' fl'. efold km_free rs km = Inr km' \<and> km_ok km' [] fl' \<and> pool_config (block_pool (coordinator km')) = pool_config (block_pool (coordinator km)) \<and>
    (\<forall>i < num_groups (coordinator km). pending_cow_copies (mgr (coordinator km') i) = pending_cow_copies (mgr (coordinator km) i) \<and>
      (\<forall>rid. blocks_of (mgr (coordinator km') i) rid = (if rid \<in> request_id ` set rs then [] else blocks_of (mgr (coordinator km) i) rid))) \<and>
    num_groups (coordinator km') = num_groups (coordinator km)"
  using assms
proof (induction rs arbitrary: km fl)
  case (Cons r rs)
  from km_free_ok [OF Cons.prems, of r] obtain ms' q fl' where f: "km_free r km = Inr (km\<lparr>coordinator := (coordinator km)\<lparr>single_type_managers := ms', block_pool := q\<rparr>\<rparr>)"
    "km_ok (km\<lparr>coordinator := (coordinator km)\<lparr>single_type_managers := ms', block_pool := q\<rparr>\<rparr>) [] fl'" "pool_config q = pool_config (block_pool (coordinator km))"
    and l: "list_all2 (\<lambda>m m'. only_req (request_id r) m m' \<and> blocks_of m' (request_id r) = [] \<and> pending_cow_copies m' = pending_cow_copies m)
      (single_type_managers (coordinator km)) ms'" by blast
  from Cons.IH [OF f(2)] obtain km' fl2 where k: "efold km_free rs (km\<lparr>coordinator := (coordinator km)\<lparr>single_type_managers := ms', block_pool := q\<rparr>\<rparr>) = Inr km'"
    "km_ok km' [] fl2" "pool_config (block_pool (coordinator km')) = pool_config q" "num_groups (coordinator km') = length ms'"
    "\<And>i. i < length ms' \<Longrightarrow> pending_cow_copies (mgr (coordinator km') i) = pending_cow_copies (ms' ! i) \<and>
      (\<forall>rid. blocks_of (mgr (coordinator km') i) rid = (if rid \<in> request_id ` set rs then [] else blocks_of (ms' ! i) rid))" by auto
  have "pending_cow_copies (mgr (coordinator km') i) = pending_cow_copies (mgr (coordinator km) i) \<and>
      (\<forall>rid. blocks_of (mgr (coordinator km') i) rid = (if rid \<in> request_id ` set (r # rs) then [] else blocks_of (mgr (coordinator km) i) rid))"
    if "i < num_groups (coordinator km)" for i
    using k(5) [of i] list_all2_nthD [OF l that] list_all2_lengthD [OF l] that by (auto simp: only_req_def)
  then show ?case using k(1-4) f(1,3) list_all2_lengthD [OF l] by auto
qed auto

lemma release_keeps_free:
  assumes ok: "km_ok km held fl" and r: "release_skipped r a km = Inr co1"
  shows "get_num_free_blocks (block_pool (coordinator km)) \<le> get_num_free_blocks (block_pool co1)"
proof -
  note D = km_okD [OF ok]
  from co_remove_skipped_kept [OF D(1,2) D(3)] obtain ms' q fl' where
    "release_skipped r a km = Inr ((coordinator km)\<lparr>single_type_managers := ms', block_pool := q\<rparr>)" "length fl \<le> length fl'"
      "kept_all (block_pool (coordinator km)) (single_type_managers (coordinator km)) q fl' ms'"
    unfolding release_skipped_def by meson
  then show ?thesis using r pool_okD(9) [OF D(1)] pool_okD(9) [OF kept_allD(1)] by auto
qed

text \<open>
  C4. Freeing all requests always works and leaves every block of the pool free again, and from then on every admissible call of
  \<^verbatim>\<open>allocate_slots\<close> that needs no more blocks than the pool has, less watermark and reservation, is granted: no sequence of calls wears the
  pool out.
\<close>

theorem freeing_all_restores_capacity:
  assumes "km_reach km []" "\<forall>m \<in> set (single_type_managers (coordinator km)). pending_cow_copies m = [] \<and>
      (\<forall>rid. blocks_of m rid \<noteq> [] \<longrightarrow> rid \<in> request_id ` set rs)"
  shows "\<exists>km'. efold km_free rs km = Inr km' \<and>
    get_num_free_blocks (block_pool (coordinator km')) = num_gpu_blocks (block_pool (coordinator km)) - 1 \<and>
    (\<forall>env r a co1 k. slot_call km' r a \<and> full_sequence_fits r a km' = Inr True \<and> release_skipped r a km' = Inr co1 \<and> blocks_needed r a km' co1 = Inr k \<and>
       k + watermark km' r a + sa_reserved_blocks a < num_gpu_blocks (block_pool (coordinator km)) \<longrightarrow>
       (\<exists>news co3. slots_granted env r a km' co3 news))"
proof -
  obtain fl where ok: "km_ok km [] fl" using km_reach_ok [OF assms(1)] by blast
  from free_loop_ok [OF ok, of rs] obtain km' fl' where k: "efold km_free rs km = Inr km'" "km_ok km' [] fl'"
    "pool_config (block_pool (coordinator km')) = pool_config (block_pool (coordinator km))"
    "\<forall>i < num_groups (coordinator km). pending_cow_copies (mgr (coordinator km') i) = pending_cow_copies (mgr (coordinator km) i) \<and>
      (\<forall>rid. blocks_of (mgr (coordinator km') i) rid = (if rid \<in> request_id ` set rs then [] else blocks_of (mgr (coordinator km) i) rid))"
    "num_groups (coordinator km') = num_groups (coordinator km)" by blast
  have "pending_cow_copies m = [] \<and> (\<forall>rid. blocks_of m rid = [])" if "m \<in> set (single_type_managers (coordinator km'))" for m
  proof -
    from that obtain i where i: "i < num_groups (coordinator km)" "m = mgr (coordinator km') i" using k(5) by (auto simp: in_set_conv_nth)
    then show ?thesis using k(4) assms(2) nth_mem [OF i(1)] by auto
  qed
  moreover have "\<forall>m \<in> set (single_type_managers (coordinator km')). st_ok (block_pool (coordinator km')) m" using k(2) by (simp add: km_ok_def Let_def)
  ultimately have "all_refs (single_type_managers (coordinator km')) b = 0" for b
    using all_refs_zero [of "single_type_managers (coordinator km')" "block_pool (coordinator km')" b] by simp
  then have "ref_cnt (heap (block_pool (coordinator km')) b) = 0" if "b \<in> real_blocks (block_pool (coordinator km'))" for b using km_okD(4) [OF k(2) that] by simp
  then have em: "{b \<in> real_blocks (block_pool (coordinator km')). ref_cnt (heap (block_pool (coordinator km')) b) > 0} = {}" by auto
  have free: "get_num_free_blocks (block_pool (coordinator km')) = num_gpu_blocks (block_pool (coordinator km)) - 1"
    using card_free_used [OF km_okD(1) [OF k(2)], unfolded em card.empty] pool_okD(9) [OF km_okD(1) [OF k(2)]] config_eqs(1) [OF k(3)] by simp
  have "\<exists>news co3. slots_granted env r a km' co3 news"
    if c: "slot_call km' r a" "full_sequence_fits r a km' = Inr True" "release_skipped r a km' = Inr co1" "blocks_needed r a km' co1 = Inr k"
      "k + watermark km' r a + sa_reserved_blocks a < num_gpu_blocks (block_pool (coordinator km))" for env r a co1 k
  proof -
    have "\<not> k + watermark km' r a > get_num_free_blocks (block_pool co1) - sa_reserved_blocks a"
      using release_keeps_free [OF k(2) c(3)] free c(5) by linarith
    then show ?thesis using slots_outcome(4) [OF k(2) c(1-4), of env] by blast
  qed
  then show ?thesis using k(1) free by blast
qed


section \<open>Examples\<close>

lemma real_blocks_code: "b \<in> real_blocks p \<longleftrightarrow> (case b of Blk i \<Rightarrow> 0 < i \<and> int i < num_gpu_blocks p | _ \<Rightarrow> False)"
  by (cases b) (auto simp: real_blocks_def)

lemma holds_hash_code [code]:
  "holds_hash p h g b \<longleftrightarrow> (case b of Blk i \<Rightarrow> 0 < i \<and> int i < num_gpu_blocks p | _ \<Rightarrow> False) \<and> block_key h g \<in> set (all_hashes b p)"
  by (simp add: holds_hash_def real_blocks_code)

lemma hit_ok_code [code]:
  "hit_ok p m n bl \<longleftrightarrow> (if is_cross m then bl = []
      else list_all (\<lambda>b. b = Blk 0 \<or> (case b of Blk i \<Rightarrow> 0 < i \<and> int i < num_gpu_blocks p | _ \<Rightarrow> False)) bl \<and>
        int (length bl) = cdiv n (mgr_block_size m) \<and> (mgr_caching m \<or> bl = []) \<and>
        (n mod mgr_block_size m \<noteq> 0 \<and> bl \<noteq> [] \<longrightarrow> (case last bl of Blk i \<Rightarrow> 0 < i \<and> int i < num_gpu_blocks p | _ \<Rightarrow> False)))"
  by (auto simp: hit_ok_def list_all_iff simp flip: real_blocks_code)

declare hit_loop.simps [code]
declare ebind_def [code_unfold] eassert_def [code_unfold]

definition demo_group :: "spec_type \<Rightarrow> string \<Rightarrow> kv_cache_group" where
  "demo_group t l = \<lparr>kv_cache_spec = \<lparr>spec_type = t, spec_block_size = 2, spec_layout = l\<rparr>, is_eagle_group = False\<rparr>"

definition demo_kv_config :: "kv_cache_group list \<Rightarrow> coordinator_config" where
  "demo_kv_config gs = \<lparr>cc_groups = gs, cc_num_blocks = 10, cc_zeroing = False, cc_max_model_len = 16, cc_max_in_flight_tokens = 16,
     cc_use_eagle = False, cc_caching = True, cc_events = False, cc_use_int_hashes = False, cc_dcp_world_size = 1,
     cc_scheduler_block_size = 2, cc_hash_block_size = 2, cc_retention_interval = None\<rparr>"

definition demo_args :: "int \<Rightarrow> int \<Rightarrow> kv_cache_blocks \<Rightarrow> slot_args" where
  "demo_args n c b = \<lparr>sa_new_tokens = n, sa_new_computed_tokens = c, sa_new_computed_blocks = b, sa_lookahead_tokens = 0,
     sa_external_computed_tokens = 0, sa_delay_cache_blocks = False, sa_encoder_tokens = 0, sa_full_sequence_must_fit = True,
     sa_reserved_blocks = 0, sa_has_scheduled_reqs = False\<rparr>"


text \<open>
  The runs of the examples: request \<^verbatim>\<open>r\<close> with five tokens is allocated in an empty manager of the given groups, and request \<^verbatim>\<open>s\<close> with the
  same tokens follows.
\<close>

definition demo_start :: "kv_cache_group list \<Rightarrow> kv_manager" where
  "demo_start gs = projr (km_init (demo_kv_config gs) 0)"

definition demo_req :: "string \<Rightarrow> request" where
  "demo_req rid = (projr (demo_request 2 [1, 2, 3, 4, 5] [] None None))\<lparr>request_id := rid\<rparr>"

definition demo_filled :: "kv_cache_group list \<Rightarrow> kv_manager" where
  "demo_filled gs = snd (snd (projr (allocate_slots demo_env (demo_req ''r'') (demo_args 5 0 None) (demo_start gs))))"

definition demo_hybrid :: "kv_cache_group list" where
  "demo_hybrid = [demo_group FullAttentionSpec [], demo_group (SlidingWindowSpec 3) []]"

lemma demo_start_reach:
  assumes "config_ok (demo_kv_config gs)" "\<not> isl (km_init (demo_kv_config gs) 0)"
  shows "km_reach (demo_start gs) []"
  using reach_start [OF assms(1), of 0 "demo_start gs"] assms(2) by (simp add: demo_start_def)

lemma demo_filled_reach:
  assumes "km_reach (demo_start gs) []" "slot_call (demo_start gs) (demo_req ''r'') (demo_args 5 0 None)"
    and "\<not> isl (allocate_slots demo_env (demo_req ''r'') (demo_args 5 0 None) (demo_start gs))"
  shows "km_reach (demo_filled gs) []"
  using reach_slots [OF assms(1,2), of demo_env] assms(3)
  by (cases "allocate_slots demo_env (demo_req ''r'') (demo_args 5 0 None) (demo_start gs)") (auto simp: demo_filled_def)

lemma demo_hybrid_start: "km_reach (demo_start demo_hybrid) []"
  by (rule demo_start_reach) code_simp+

lemma demo_hybrid_call: "slot_call (demo_start demo_hybrid) (demo_req ''r'') (demo_args 5 0 None)"
  by code_simp

lemma demo_hybrid_filled: "km_reach (demo_filled demo_hybrid) []"
  by (rule demo_filled_reach [OF demo_hybrid_start demo_hybrid_call]) code_simp

lemma demo_hybrid_lookup:
  "\<exists>bd r' km'. get_computed_blocks demo_env False (demo_req ''s'') (demo_filled demo_hybrid) =
     Some (Inr (Some [[Blk 1, Blk 2], [Blk 0, Blk 5]], 4, bd, r', km'))"
proof -
  have "case get_computed_blocks demo_env False (demo_req ''s'') (demo_filled demo_hybrid) of
      Some (Inr (b, n, bd, r', km')) \<Rightarrow> b = Some [[Blk 1, Blk 2], [Blk 0, Blk 5]] \<and> n = 4 | _ \<Rightarrow> False"
    by code_simp
  then show ?thesis by (auto split: option.splits sum.splits)
qed

definition demo_facts :: "kv_manager \<Rightarrow> bool" where
  "demo_facts km \<longleftrightarrow>
     map mgr_type (single_type_managers (coordinator km)) = [FullAttentionSpec, SlidingWindowSpec 3] \<and>
     list_all (\<lambda>m. mgr_block_size m = 2 \<and> pending_cow_copies m = [] \<and> map fst (req_to_blocks m) = [''r''] \<and> map fst (num_cached_block m) = [''r''])
       (single_type_managers (coordinator km)) \<and>
     is_simple_hybrid (coordinator km) \<and> num_gpu_blocks (block_pool (coordinator km)) = 10 \<and> km_max_model_len km = 16 \<and>
     get_num_free_blocks (block_pool (coordinator km)) = 3 \<and> hash_block_size (block_pool (coordinator km)) = 2 \<and>
     null_block (block_pool (coordinator km)) = Blk 0"

lemma demo_hybrid_facts: "demo_facts (demo_filled demo_hybrid)"
  by code_simp

lemma demo_req_facts: "num_tokens (demo_req rid) = 5 \<and> num_computed_tokens (demo_req rid) = 0 \<and> request_id (demo_req rid) = rid"
proof -
  have "num_tokens (projr (demo_request 2 [1, 2, 3, 4, 5] [] None None)) = 5 \<and> num_computed_tokens (projr (demo_request 2 [1, 2, 3, 4, 5] [] None None)) = 0" by code_simp
  then show ?thesis by (simp add: demo_req_def num_tokens_def)
qed

lemma demo_no_blocks:
  assumes "demo_facts km" "m \<in> set (single_type_managers (coordinator km))" "rid \<noteq> ''r''"
  shows "blocks_of m rid = [] \<and> dget (num_cached_block m) rid = None"
proof -
  have "map fst (req_to_blocks m) = [''r'']" "map fst (num_cached_block m) = [''r'']" using assms(1,2) by (auto simp: demo_facts_def list_all_iff)
  then show ?thesis using assms(3) by (auto simp: blocks_of_def dget_default_def map_eq_Cons_conv)
qed

theorem reachable_manager_references_witness:
  "km_reach (demo_filled demo_hybrid) [] \<and>
   (\<exists>fl. get_all_free_blocks (block_pool (coordinator (demo_filled demo_hybrid))) = Some (Inr fl) \<and> distinct fl \<and> length fl = 3)"
  using reachable_manager_references [OF demo_hybrid_filled] demo_hybrid_filled demo_hybrid_facts by (auto simp: demo_facts_def)

theorem lookup_terminates_witness:
  "km_reach (demo_filled demo_hybrid) [] \<and> get_computed_blocks demo_env False (demo_req ''s'') (demo_filled demo_hybrid) \<noteq> None"
  using lookup_terminates [OF demo_hybrid_filled, of "demo_req ''s''"] demo_hybrid_filled demo_req_facts by simp

theorem lookup_hits_are_own_prefix_witness:
  "\<exists>bd r' km'. get_computed_blocks demo_env False (demo_req ''s'') (demo_filled demo_hybrid) =
     Some (Inr (Some [[Blk 1, Blk 2], [Blk 0, Blk 5]], 4, bd, r', km')) \<and>
     holds_hash (block_pool (coordinator (demo_filled demo_hybrid))) (block_hashes (demo_req ''s'') ! 1) 1 (Blk 5)"
proof -
  let ?km = "demo_filled demo_hybrid" and ?b = "Some [[Blk 1, Blk 2], [Blk 0, Blk 5]]"
  obtain bd r' km' where l: "get_computed_blocks demo_env False (demo_req ''s'') ?km = Some (Inr (?b, 4, bd, r', km'))"
    using demo_hybrid_lookup by blast
  obtain m0 m1 where m: "single_type_managers (coordinator ?km) = [m0, m1]" "mgr_block_size m1 = 2" "mgr_type m1 = SlidingWindowSpec 3"
    using demo_hybrid_facts by (auto simp: demo_facts_def map_eq_Cons_conv)
  have p: "1 \<le> num_tokens (demo_req ''s'')" "co_kind (coordinator ?km) = Hybrid \<longrightarrow> one_full (coordinator ?km)" "null_block (block_pool (coordinator ?km)) = Blk 0"
    "hash_block_size (block_pool (coordinator ?km)) = 2" using demo_hybrid_facts by (simp_all add: demo_req_facts one_full_def demo_facts_def)
  have q: "1 < length (single_type_managers (coordinator ?km))" "m1 = single_type_managers (coordinator ?km) ! 1"
    "[Blk 0, Blk 5] = kv_blocks ?km ?b ! 1" "whole_chunks (mgr_block_size m1) (mgr_type m1)" by (simp_all add: m kv_blocks_def)
  from lookup_hits_are_own_prefix [OF demo_hybrid_filled p(1,2) l q, THEN conjunct2, THEN conjunct2, THEN conjunct2, rule_format, of 1]
  have "holds_hash (block_pool (coordinator ?km)) (hash_of_block (block_hashes (demo_req ''s'')) 1 1) 1 (Blk 5)"
    by (simp add: m p(3,4))
  then show ?thesis using l by (simp add: hash_of_block_def)
qed

theorem lookup_result_fits_allocate_witness:
  "\<exists>bd r' km'. get_computed_blocks demo_env False (demo_req ''s'') (demo_filled demo_hybrid) =
     Some (Inr (Some [[Blk 1, Blk 2], [Blk 0, Blk 5]], 4, bd, r', km')) \<and>
     slot_call km' r' (demo_args 1 4 (Some [[Blk 1, Blk 2], [Blk 0, Blk 5]]))"
proof -
  let ?km = "demo_filled demo_hybrid" and ?b = "Some [[Blk 1, Blk 2], [Blk 0, Blk 5]]"
  obtain bd r' km' where l: "get_computed_blocks demo_env False (demo_req ''s'') ?km = Some (Inr (?b, 4, bd, r', km'))"
    using demo_hybrid_lookup by blast
  have "\<forall>m \<in> set (single_type_managers (coordinator ?km)). blocks_of m ''s'' = [] \<and> dget (num_cached_block m) ''s'' = None"
    using demo_no_blocks [OF demo_hybrid_facts] by simp
  with lookup_result_fits_allocate [OF demo_hybrid_filled _ _ l, of "demo_args 1 4 ?b"] demo_hybrid_facts
  have "slot_call km' r' (demo_args 1 4 ?b)" by (simp add: demo_req_facts demo_facts_def one_full_def demo_args_def)
  then show ?thesis using l by blast
qed

theorem allocate_slots_outcomes_witness:
  "slot_call (demo_start demo_hybrid) (demo_req ''r'') (demo_args 5 0 None) \<and>
   (\<exists>news co3. slots_granted demo_env (demo_req ''r'') (demo_args 5 0 None) (demo_start demo_hybrid) co3 news)"
proof -
  have "case allocate_slots demo_env (demo_req ''r'') (demo_args 5 0 None) (demo_start demo_hybrid) of Inr (res, x) \<Rightarrow> res \<noteq> None | _ \<Rightarrow> False" by code_simp
  with allocate_slots_outcomes [OF demo_hybrid_start demo_hybrid_call, of demo_env] demo_hybrid_call show ?thesis
    by (auto split: if_splits)
qed

theorem freeing_all_restores_capacity_witness:
  "\<exists>km'. efold km_free [demo_req ''r''] (demo_filled demo_hybrid) = Inr km' \<and> get_num_free_blocks (block_pool (coordinator km')) = 9"
proof -
  have "\<forall>m \<in> set (single_type_managers (coordinator (demo_filled demo_hybrid))). pending_cow_copies m = [] \<and>
      (\<forall>rid. blocks_of m rid \<noteq> [] \<longrightarrow> rid \<in> request_id ` set [demo_req ''r''])"
    using demo_no_blocks [OF demo_hybrid_facts] demo_hybrid_facts by (auto simp: demo_req_facts demo_facts_def list_all_iff)
  from freeing_all_restores_capacity [OF demo_hybrid_filled this] demo_hybrid_facts show ?thesis
    by (auto simp: demo_facts_def)
qed

definition demo_two_full :: "kv_cache_group list" where
  "demo_two_full = [demo_group FullAttentionSpec ''a'', demo_group FullAttentionSpec ''b'', demo_group (SlidingWindowSpec 3) []]"

text \<open>
  C40. Only the first attention type is cut to the common hit: with two full-attention types of different layout and a window type whose
  second block has left the cache, a lookup answers 2 tokens, one block of 2 tokens for the first and the third group, and two blocks for
  the second. The blocks of the second group cover tokens that are not counted as computed.
\<close>

theorem second_full_attention_not_cut:
  "\<exists>km bd r' km'. km_reach km [] \<and> map mgr_block_size (single_type_managers (coordinator km)) = [2, 2, 2] \<and>
     get_computed_blocks demo_env False (demo_req ''s'') km = Some (Inr (Some [[Blk 1], [Blk 4, Blk 5], [Blk 7]], 2, bd, r', km'))"
proof -
  let ?a = "demo_args 5 0 None" and ?r = "demo_req ''r''"
  have reach: "km_reach (demo_start demo_two_full) []" by (rule demo_start_reach) code_simp+
  have call: "slot_call (demo_start demo_two_full) ?r ?a" by code_simp
  have e: "case allocate_slots demo_env ?r ?a (demo_start demo_two_full) of Inl _ \<Rightarrow> False | Inr (_, _, km0) \<Rightarrow> num_gpu_blocks (block_pool (coordinator km0)) = 10 \<and>
    (case km_evict_blocks [8] km0 of Inl _ \<Rightarrow> False | Inr km1 \<Rightarrow> map mgr_block_size (single_type_managers (coordinator km1)) = [2, 2, 2] \<and>
    (case get_computed_blocks demo_env False (demo_req ''s'') km1 of
      Some (Inr (b, n, bd, r', km2)) \<Rightarrow> b = Some [[Blk 1], [Blk 4, Blk 5], [Blk 7]] \<and> n = 2 | _ \<Rightarrow> False))"
    by code_simp
  obtain res r0 km0 where k0: "allocate_slots demo_env ?r ?a (demo_start demo_two_full) = Inr (res, r0, km0)"
    using e by (cases "allocate_slots demo_env ?r ?a (demo_start demo_two_full)") auto
  obtain km1 where k1: "km_evict_blocks [8] km0 = Inr km1" using e k0 by (cases "km_evict_blocks [8] km0") auto
  have f: "num_gpu_blocks (block_pool (coordinator km0)) = 10" "map mgr_block_size (single_type_managers (coordinator km1)) = [2, 2, 2]"
    "case get_computed_blocks demo_env False (demo_req ''s'') km1 of
      Some (Inr (b, n, bd, r', km2)) \<Rightarrow> b = Some [[Blk 1], [Blk 4, Blk 5], [Blk 7]] \<and> n = 2 | _ \<Rightarrow> False"
    using e by (simp_all add: k0 k1)
  have "km_reach km1 []" by (rule reach_evict [OF reach_slots [OF reach call k0] _ k1]) (use f(1) in simp)
  then show ?thesis using f(2,3) by (auto split: option.splits sum.splits intro!: exI [of _ km1])
qed

end
