(* ===== verification/Spec2Isabelle.thy ===== *)
theory Spec2Isabelle
  imports Block_Queue Request_Model Block_Hash Block_Map Block_Pool Pool_Invariant Pool_Caching Pool_Properties Heapq Request_Queue Stop_Check Encoder_Cache Encoder_Schedule Offload_Policy Offload_Manager Offload_Properties KV_Properties
begin

text \<open>
  A verification development for the memory management and scheduling core of vLLM.

  The scheduler process of vLLM keeps requests in waiting queues, gives every request a list of fixed-size KV-cache blocks, decides
  which multi-modal encoder inputs run, and moves blocks to CPU memory and back. Blocks that hold a full run of tokens are filed under a
  chained hash of the token prefix, so that later requests with the same prefix reuse them.

  \<^bold>\<open>Conventions.\<close> Python exceptions are values of \<open>py_error\<close>; fallible code returns \<open>'a result\<close>, with \<open>ebind\<close>, \<open>eassert\<close>, \<open>efold\<close> and
  \<open>emap\<close> for sequencing, assertions and loops. Python integers are \<open>int\<close>; fixed-width fields wrap explicitly (\<open>c_int32\<close>). Dictionaries
  are association lists in insertion order, sets are lists without duplicates. Where the code iterates over a set, the order is a
  parameter, except for the further hashes of a block, which are kept in insertion order: their order decides only the order of removal
  events. Objects with identity (KV-cache blocks) live in a store indexed by references. Floating-point ratios are exact rationals.

  \<^bold>\<open>Theories.\<close>
  \<^item> \<open>Prelude\<close>: the error monad, Python slices, indexing and dictionaries, integer helpers (\<^verbatim>\<open>vllm/utils/math_utils.py\<close>).
  \<^item> \<open>Block_Queue\<close>: \<^verbatim>\<open>KVCacheBlock\<close> and \<^verbatim>\<open>FreeKVCacheBlockQueue\<close> of \<^verbatim>\<open>vllm/v1/core/kv_cache_utils.py\<close>, a doubly linked list in a store.
    The locale \<open>free_block_queue\<close> states the list laws its clients use; the queue refines a plain list for every sequence of calls.
  \<^item> \<open>Request_Model\<close>: \<^verbatim>\<open>vllm/v1/request.py\<close> with the multi-modal inputs and sampling parameters it refers to.
  \<^item> \<open>Block_Hash\<close>: block hashes of \<^verbatim>\<open>kv_cache_utils.py\<close>, incremental hashing of requests and the coarser views of the hashes. The hash
    function and the serialisation are parameters; injectivity is a hypothesis where it is needed.
  \<^item> \<open>Block_Map\<close>, \<open>Block_Pool\<close>: \<^verbatim>\<open>vllm/v1/core/block_pool.py\<close>. \<open>Pool_Invariant\<close> and \<open>Pool_Caching\<close> prove that every operation keeps the
    pool consistent, \<open>Pool_Properties\<close> draws the consequences over reachable pools (an \<open>inductive\<close> step relation).
  \<^item> \<open>Heapq\<close>, \<open>Request_Queue\<close>: Python's \<^verbatim>\<open>heapq\<close> and \<^verbatim>\<open>vllm/v1/core/sched/request_queue.py\<close>; both policies implement the locale
    \<open>waiting_queue\<close>.
  \<^item> \<open>Stop_Check\<close>: \<^verbatim>\<open>vllm/v1/core/sched/utils.py\<close>, stop conditions and repetition detection.
  \<^item> \<open>Encoder_Cache\<close>: \<^verbatim>\<open>vllm/v1/core/encoder_cache_manager.py\<close>; \<open>Encoder_Schedule\<close>: the scheduler's choice of encoder inputs
    (\<^verbatim>\<open>_try_schedule_encoder_inputs\<close>, \<^verbatim>\<open>_free_encoder_inputs\<close>) composed with the model runner's \<^verbatim>\<open>_gather_mm_embeddings\<close>.
  \<^item> \<open>Offload_Policy\<close>: the LRU and ARC policies of \<^verbatim>\<open>vllm/v1/kv_offload/cpu/policies\<close>, instances of the locale \<open>cache_policy\<close>;
    \<open>Offload_Manager\<close>: \<^verbatim>\<open>vllm/v1/kv_offload/cpu/manager.py\<close> over either policy; \<open>Offload_Properties\<close>: its guarantees over every
    sequence of calls.
  \<^item> \<open>Single_Manager\<close> (\<^verbatim>\<open>single_type_kv_cache_manager.py\<close>, \<^verbatim>\<open>kv_cache_interface.py\<close>): the block tables of the requests of one group of
    attention layers: how many blocks an allocation needs, taking over cached blocks, new blocks, copy-on-write of a shared partial
    block, caching, and the release of blocks outside the attention window. \<open>Prefix_Hit\<close>: the searches for the longest cached prefix.
  \<^item> \<open>Coordinator\<close> (\<^verbatim>\<open>kv_cache_coordinator.py\<close>): the managers of all groups over one pool and the common prefix of groups of different
    kinds. \<open>KV_Manager\<close> (\<^verbatim>\<open>kv_cache_manager.py\<close>): the interface of the scheduler, with \<^verbatim>\<open>allocate_slots\<close>.
  \<^item> \<open>Manager_Invariant\<close>, \<open>Manager_Allocation\<close>, \<open>Manager_Properties\<close>: the reference count of every block is the number of its places in
    the block tables, in pending copies and in the lists a caller holds; each operation of the managers keeps this, with the number of
    free blocks it uses, so that the count that \<^verbatim>\<open>allocate_slots\<close> compares with the free blocks is enough for the whole call.
  \<^item> \<open>Group_Layout\<close>: the constructors give every group a manager of the block size of its layers and sort the groups by attention
    type, and all calls keep this layout. \<open>Hit_Invariant\<close>: what each search returns: whole blocks that carry the hashes of the request, or null
    blocks the attention does not read. \<open>Common_Hit\<close>: the search over several attention types ends, and its result is a hit of every group.
  \<^item> \<open>KV_Properties\<close>: the properties of the manager as a whole, over all states that its calls reach: ownership of blocks, the outcomes
    of \<^verbatim>\<open>allocate_slots\<close>, soundness and termination of lookups, and that freed capacity is available again.

  \<^bold>\<open>Termination.\<close> Loops over lists are structural; the loops that pop heaps or evict until there is room have termination measures (heap
  size, evictable entries). Walking the links of the free list is a \<^theory_text>\<open>partial_function\<close>, since a corrupt list could be cyclic; the
  queue invariant shows that it returns on every reachable queue. So is the search for a common hit of several attention types, which is shown
  to end in every reachable state of the manager.

  \<^bold>\<open>Scope of the theorems.\<close> The manager's properties hold for calls of \<^verbatim>\<open>allocate_slots\<close> as the scheduler makes them (\<open>slot_call\<close>): hits of the
  right length for every group of a new request, or no hits and blocks for all computed tokens of a running one. A lookup gives such hits
  unless a second full-attention type stands beside a third attention type (\<open>one_full\<close>); \<open>second_full_attention_not_cut\<close> is the case where
  it does not. Hashes follow the reference chain for requests whose multi-modal inputs before the last end within the full blocks of the
  prompt; \<open>incremental_hash_drops_earlier_image\<close> shows what happens otherwise.

  \<^bold>\<open>Not modelled.\<close> The main loop of the scheduler (\<^verbatim>\<open>schedule\<close>, \<^verbatim>\<open>update_from_output\<close>), of which only the encoder inputs are modelled: it threads
  connector, structured-output and speculative-decoding objects whose code is outside the modelled part. The block manager of Mamba layers, prefill
  context parallelism and the annotation of events with the kind of their group; tensor code and kernels, model definitions, tokenizers, servers, process and network management, third-party grammar
  engines and configuration parsing: they compute with device state or code outside the repository. Logging, metrics sinks and tracing
  do not influence the modelled state and are left out, except the gauges of the offloading manager.
\<close>

end
